(* ===== verification/JS_Prelude.thy ===== *)
theory JS_Prelude
  imports Main "HOL-Library.Word"
begin

text \<open>
  Shared vocabulary of the development: the JavaScript values the modelled code computes
  with, and the list and word lemmas that several components use.

  \<^item> A JavaScript string is the list of its UTF-16 code units (\<open>jsstring\<close>); a
    \<open>Uint8Array\<close> is a list of \<open>byte\<close>s.
  \<^item> The operands of \<open>|\<close>, \<open>&\<close>, \<open><<\<close>, \<open>>>\<close> and \<open>>>>\<close> are
    converted to 32 bits, so the code that works bitwise computes on \<open>u32\<close>:
    \<open>>>>\<close> is \<open>drop_bit\<close>, \<open><<\<close> is \<open>push_bit\<close>, and \<open>>>\<close> is
    \<open>drop_bit\<close> where the operand's top bit is clear.
  \<^item> A thrown exception is the left value of a sum (\<open>'a result\<close>), an
    \<open>undefined\<close> is \<open>None\<close>.
\<close>

unbundle bit_operations_syntax

named_theorems js_bits \<open>which bits the masks and tags of the codecs have\<close>

type_synonym byte = "8 word"
type_synonym code_unit = "16 word"
type_synonym jsstring = "code_unit list"
type_synonym u32 = "32 word"

datatype js_error = RangeError string | TypeError string | GenericError string

type_synonym 'a result = "js_error + 'a"

text \<open>A string literal of the source, all of whose characters are in Latin-1.\<close>

definition lit :: "string \<Rightarrow> jsstring" where
  "lit s = map (\<lambda>c. of_nat (of_char c)) s"

text \<open>\<open>s.charCodeAt(i)\<close> and \<open>a[i]\<close>: \<open>None\<close> is \<open>NaN\<close>, \<open>undefined\<close>.\<close>

definition item_at :: "'a list \<Rightarrow> nat \<Rightarrow> 'a option" where
  "item_at xs i = (if i < length xs then Some (xs ! i) else None)"

text \<open>An operand of a bitwise operator: \<open>undefined\<close> and \<open>NaN\<close> become 0.\<close>

definition to_u32 :: "'a::len word option \<Rightarrow> u32" where
  "to_u32 x = (case x of None \<Rightarrow> 0 | Some w \<Rightarrow> ucast w)"

text \<open>\<open>s.indexOf(c)\<close> for one code unit: \<open>None\<close> is \<open>-1\<close>.\<close>

fun index_of :: "'a \<Rightarrow> 'a list \<Rightarrow> nat option" where
  "index_of c [] = None"
| "index_of c (x # xs) = (if x = c then Some 0 else map_option Suc (index_of c xs))"

text \<open>
  A fresh \<open>Uint8Array\<close> of a given length after the assignments \<open>u[0] = v0, u[1] = v1, ...\<close>:
  it starts out zeroed, and an assignment past its end has no effect.
\<close>

definition u8_filled :: "nat \<Rightarrow> byte list \<Rightarrow> byte list" where
  "u8_filled n vs = take n (vs @ replicate n 0)"

text \<open>
  The bitwise operators on integral numbers: the operands are taken modulo \<open>2 ^ 32\<close>, the result
  is signed except for \<open>>>>\<close>.
\<close>

definition ToInt32 :: "int \<Rightarrow> int" where
  "ToInt32 a = signed_take_bit 31 a"

definition ToUint32 :: "int \<Rightarrow> int" where
  "ToUint32 a = take_bit 32 a"

definition bor :: "int \<Rightarrow> int \<Rightarrow> int" where
  "bor a b = ToInt32 a OR ToInt32 b"

definition band :: "int \<Rightarrow> int \<Rightarrow> int" where
  "band a b = ToInt32 a AND ToInt32 b"

definition shl :: "int \<Rightarrow> nat \<Rightarrow> int" where
  "shl a k = ToInt32 (push_bit k (ToInt32 a))"

definition shru :: "int \<Rightarrow> nat \<Rightarrow> int" where
  "shru a k = drop_bit k (ToUint32 a)"

text \<open>Division followed by a conversion to an integer: truncation towards zero.\<close>

definition js_quot :: "int \<Rightarrow> int \<Rightarrow> int" where
  "js_quot a b = sgn a * sgn b * (\<bar>a\<bar> div \<bar>b\<bar>)"

text \<open>
  An element of a \<open>Uint8Array\<close>: reading outside the array is \<open>undefined\<close>, storing there has no
  effect, and a stored number is taken modulo 256.
\<close>

definition u8_get :: "byte list \<Rightarrow> int \<Rightarrow> int option" where
  "u8_get b i = (if 0 \<le> i \<and> i < int (length b) then Some (uint (b ! nat i)) else None)"

definition u8_set :: "byte list \<Rightarrow> int \<Rightarrow> int \<Rightarrow> byte list" where
  "u8_set b i v = (if 0 \<le> i \<and> i < int (length b) then b[nat i := of_int v] else b)"

text \<open>\<open>undefined\<close> as an operand of a bitwise operator, and of an arithmetic one (\<open>None\<close> is \<open>NaN\<close>).\<close>

definition num0 :: "int option \<Rightarrow> int" where
  "num0 x = (case x of None \<Rightarrow> 0 | Some v \<Rightarrow> v)"

definition num_lift2 :: "(int \<Rightarrow> int \<Rightarrow> int) \<Rightarrow> int option \<Rightarrow> int option \<Rightarrow> int option" where
  "num_lift2 f x y = Option.bind x (\<lambda>a. map_option (f a) y)"

text \<open>White space as \<open>trim\<close>, \<open>parseInt\<close> and regular expressions know it.\<close>

definition is_space :: "code_unit \<Rightarrow> bool" where
  "is_space c = (9 \<le> c \<and> c \<le> 13 \<or> c = 32 \<or> c = 160 \<or> c = 5760 \<or> 8192 \<le> c \<and> c \<le> 8202
     \<or> c = 8232 \<or> c = 8233 \<or> c = 8239 \<or> c = 8287 \<or> c = 12288 \<or> c = 65279)"

definition trim :: "jsstring \<Rightarrow> jsstring" where
  "trim s = rev (dropWhile is_space (rev (dropWhile is_space s)))"

text \<open>\<open>parseInt(s, 16)\<close>: blanks, a sign, a prefix \<open>0x\<close>, then the longest run of digits.\<close>

definition hex_digit :: "code_unit \<Rightarrow> int option" where
  "hex_digit c =
     (if 48 \<le> c \<and> c \<le> 57 then Some (uint c - 48)
      else if 97 \<le> c \<and> c \<le> 102 then Some (uint c - 87)
      else if 65 \<le> c \<and> c \<le> 70 then Some (uint c - 55)
      else None)"

fun digits_value :: "int \<Rightarrow> jsstring \<Rightarrow> int" where
  "digits_value acc [] = acc"
| "digits_value acc (c # s) =
     (case hex_digit c of None \<Rightarrow> acc | Some d \<Rightarrow> digits_value (16 * acc + d) s)"

definition parseInt16 :: "jsstring \<Rightarrow> int option" where
  "parseInt16 s =
     (let s = dropWhile is_space s;
          neg = (s \<noteq> [] \<and> hd s = 45);
          s = (if s \<noteq> [] \<and> (hd s = 45 \<or> hd s = 43) then tl s else s);
          s = (if take 2 s = lit ''0x'' \<or> take 2 s = lit ''0X'' then drop 2 s else s)
      in if s = [] \<or> hex_digit (hd s) = None then None
         else Some (if neg then - digits_value 0 s else digits_value 0 s))"

text \<open>\<open>s.split(d)\<close> and \<open>a.join(d)\<close> for one code unit.\<close>

fun split_on :: "code_unit \<Rightarrow> jsstring \<Rightarrow> jsstring list" where
  "split_on d [] = [[]]"
| "split_on d (c # s) =
     (if c = d then [] # split_on d s
      else (case split_on d s of [] \<Rightarrow> [[c]] | w # ws \<Rightarrow> (c # w) # ws))"

fun join_with :: "code_unit \<Rightarrow> jsstring list \<Rightarrow> jsstring" where
  "join_with d [] = []"
| "join_with d [w] = w"
| "join_with d (w # v # ws) = w @ d # join_with d (v # ws)"

text \<open>\<open>toLowerCase\<close> on ASCII strings.\<close>

definition toLowerCase :: "jsstring \<Rightarrow> jsstring" where
  "toLowerCase s = map (\<lambda>c. if 65 \<le> c \<and> c \<le> 90 then c + 32 else c) s"

text \<open>Part of a list replaced in place.\<close>

definition put :: "'a list \<Rightarrow> nat \<Rightarrow> 'a list \<Rightarrow> 'a list" where
  "put b p xs = take p b @ xs @ drop (p + length xs) b"

section \<open>Lists\<close>

lemma item_at_append_left [simp]: "i < length xs \<Longrightarrow> item_at (xs @ ys) i = Some (xs ! i)"
  by (simp add: item_at_def nth_append)

lemma item_at_append_right: "length xs \<le> i \<Longrightarrow> item_at (xs @ ys) i = item_at ys (i - length xs)"
  by (auto simp: item_at_def nth_append)

lemma item_at_Some [simp]: "i < length xs \<Longrightarrow> item_at xs i = Some (xs ! i)"
  by (simp add: item_at_def)

lemma item_at_None [simp]: "length xs \<le> i \<Longrightarrow> item_at xs i = None"
  by (simp add: item_at_def)

lemma index_of_None_iff: "index_of c xs = None \<longleftrightarrow> c \<notin> set xs"
  by (induction xs) auto

lemma index_of_append:
  "c \<notin> set xs \<Longrightarrow> index_of c (xs @ ys) = map_option (\<lambda>i. i + length xs) (index_of c ys)"
  by (induction xs) (auto simp: option.map_comp comp_def option.map_ident)

lemma u8_filled_exact [simp]: "length vs = n \<Longrightarrow> u8_filled n vs = vs"
  by (simp add: u8_filled_def)

lemma length_u8_filled [simp]: "length (u8_filled n vs) = n"
  by (simp add: u8_filled_def)

lemma length_lit [simp]: "length (lit s) = length s"
  by (simp add: lit_def)

lemma length_put [simp]: "p + length xs \<le> length b \<Longrightarrow> length (put b p xs) = length b"
  by (simp add: put_def)

lemma nth_put:
  "p + length xs \<le> length b \<Longrightarrow> i < length b \<Longrightarrow>
   put b p xs ! i = (if p \<le> i \<and> i < p + length xs then xs ! (i - p) else b ! i)"
  by (auto simp: put_def nth_append min_def)

lemma put_Nil [simp]: "put b p [] = b"
  by (simp add: put_def)

lemma put_Cons: "p + length xs < length b \<Longrightarrow> put b p (x # xs) = put (b[p := x]) (Suc p) xs"
  by (rule nth_equalityI) (auto simp: nth_put nth_Cons nth_list_update split: nat.splits
      intro!: arg_cong [of _ _ "(!) xs"])

lemma put_snoc: "p + length xs < length b \<Longrightarrow> put b p (xs @ [x]) = put (b[p + length xs := x]) p xs"
  by (rule nth_equalityI) (auto simp: nth_put nth_append nth_list_update)

lemma split_on_none: "d \<notin> set w \<Longrightarrow> split_on d w = [w]"
  by (induction w) auto

lemma split_on_sep: "d \<notin> set w \<Longrightarrow> split_on d (w @ d # s) = w # split_on d s"
  by (induction w) auto

lemma join_split: "join_with d (split_on d s) = s"
proof (induction s)
  case (Cons c s)
  show ?case
  proof (cases "split_on d s")
    case (Cons w ws)
    then show ?thesis using Cons.IH by (cases ws) auto
  qed (use Cons in \<open>cases s; auto\<close>)
qed simp

lemma split_parts: "\<forall>c \<in> set (split_on d s). d \<notin> set c"
  by (induction s) (auto split: list.splits)

lemma split_join: "ls \<noteq> [] \<Longrightarrow> \<forall>l \<in> set ls. d \<notin> set l \<Longrightarrow> split_on d (join_with d ls) = ls"
  by (induction d ls rule: join_with.induct) (auto simp: split_on_none split_on_sep)

section \<open>Words\<close>

lemma bit_below:
  fixes n :: "'a::len word"
  assumes "n < 2 ^ k" "k < LENGTH('a)" "bit n i"
  shows "i < k"
proof -
  have "take_bit k n = n"
    using assms by (simp add: take_bit_eq_mod mod_word_less)
  then show ?thesis using assms(3) by (metis bit_take_bit_iff)
qed

lemma bit_below_imp: "n < 2 ^ k \<Longrightarrow> k < 32 \<Longrightarrow> bit (n :: u32) i \<longrightarrow> i < k"
  using bit_below [of n k i] by simp

text \<open>A run of ones: every mask (\<open>k = 0\<close>) and every tag of the codecs is one.\<close>

lemma bit_run: "bit (push_bit k (mask m) :: u32) i \<longleftrightarrow> i < 32 \<and> k \<le> i \<and> i < k + m"
  unfolding bit_push_bit_iff bit_mask_iff by (auto simp: possible_bit_word)

lemma bit_of_run:
  "w = push_bit k (mask m) \<Longrightarrow> k + m \<le> 32 \<Longrightarrow> bit (w :: u32) i \<longleftrightarrow> k \<le> i \<and> i < k + m"
  using bit_run [of k m i] by auto

lemma const_bits [js_bits]:
  "bit (15 :: u32) i \<longleftrightarrow> i < 4" "bit (31 :: u32) i \<longleftrightarrow> i < 5"
  "bit (63 :: u32) i \<longleftrightarrow> i < 6" "bit (255 :: u32) i \<longleftrightarrow> i < 8"
  "bit (1023 :: u32) i \<longleftrightarrow> i < 10" "bit (128 :: u32) i \<longleftrightarrow> 7 \<le> i \<and> i < 8"
  "bit (192 :: u32) i \<longleftrightarrow> 6 \<le> i \<and> i < 8" "bit (224 :: u32) i \<longleftrightarrow> 5 \<le> i \<and> i < 8"
  "bit (240 :: u32) i \<longleftrightarrow> 4 \<le> i \<and> i < 8" "bit (65280 :: u32) i \<longleftrightarrow> 8 \<le> i \<and> i < 16"
  "bit (16711680 :: u32) i \<longleftrightarrow> 16 \<le> i \<and> i < 24"
  by (subst bit_of_run [of _ 0 4] bit_of_run [of _ 0 5] bit_of_run [of _ 0 6] bit_of_run [of _ 0 8]
      bit_of_run [of _ 0 10] bit_of_run [of _ 7 1] bit_of_run [of _ 6 2] bit_of_run [of _ 5 3]
      bit_of_run [of _ 4 4] bit_of_run [of _ 8 8] bit_of_run [of _ 16 8];
      simp add: mask_eq_exp_minus_1)+

lemmas bit_ops [js_bits] =
  bit_or_iff bit_and_iff bit_push_bit_iff bit_drop_bit_eq comp_def possible_bit_word bit_ucast_iff

lemma bit_byte: "bit (b :: byte) i \<longrightarrow> i < 8"
  using bit_imp_le_length by force

lemma unat_and_63: "unat (x AND 63 :: u32) = unat x mod 64"
proof -
  have "x AND 63 = take_bit 6 x"
    by (simp add: take_bit_eq_mask mask_eq_exp_minus_1)
  then have "unat (x AND 63) = take_bit 6 (unat x)"
    by (simp only: unsigned_take_bit_eq)
  then show ?thesis by (simp only: take_bit_eq_mod) simp
qed

lemma unat_shift_63: "unat (drop_bit k x AND 63 :: u32) = unat x div 2 ^ k mod 64"
  unfolding unat_and_63 unat_drop_bit_eq by (simp only: drop_bit_eq_div)

lemma unat_byte: "unat (b :: byte) < 256"
  using unsigned_less [of b] by simp

lemma unat_ucast_byte [simp]: "unat (ucast (b :: byte) :: u32) = unat b"
  using unat_byte [of b] by (simp add: unsigned_ucast_eq take_bit_eq_mod)

lemma unat_shift_word: "unat (drop_bit k x :: u32) = unat x div 2 ^ k"
  unfolding unat_drop_bit_eq by (simp only: drop_bit_eq_div)

lemma ucast_and_255: "ucast (x AND 255 :: u32) = (ucast x :: byte)"
proof (rule bit_word_eqI)
  fix i :: nat
  assume "i < LENGTH(8)"
  then show "bit (ucast (x AND 255) :: byte) i = bit (ucast x :: byte) i"
    unfolding js_bits by simp
qed

lemma of_nat_byteI: "n mod 256 = unat b \<Longrightarrow> of_nat n = (b :: byte)"
  by (rule word_unat_eq_iff [THEN iffD2]) (simp add: unat_of_nat)

lemma of_nat_shift_63: "of_nat (unat x div 2 ^ k mod 64) = (drop_bit k x AND 63 :: u32)"
  by (simp only: unat_shift_63 [symmetric] of_nat_unat) simp

lemma of_nat_and_63: "of_nat (unat x mod 64) = (x AND 63 :: u32)"
  by (simp only: unat_and_63 [symmetric] of_nat_unat) simp

lemma of_nat_shift: "of_nat (unat x div 2 ^ k) = (drop_bit k x :: u32)"
  by (simp only: unat_shift_word [symmetric] of_nat_unat) simp

lemma or_tag_nat:
  assumes "x < 2 ^ k" "k < 32" and tag: "\<And>i. bit m i \<Longrightarrow> k \<le> i" and "unat x + unat m < 2 ^ 32"
  shows "unat (x OR m :: u32) = unat x + unat m"
proof -
  have "x OR m = x + m"
    by (rule disjunctive_add [symmetric]) (use bit_below [of x k] assms(1,2) tag in fastforce)
  then show ?thesis using assms(4) by (simp add: unat_word_ariths)
qed

lemma ucast_byte_id:
  assumes "x < 256"
  shows "ucast (ucast x :: byte) = (x :: u32)"
proof (rule bit_word_eqI)
  fix i
  have "bit x i \<longrightarrow> i < 8" using bit_below_imp [of x 8 i] assms by simp
  then show "bit (ucast (ucast x :: byte) :: u32) i = bit x i"
    unfolding js_bits by auto
qed

lemma bits_lt:
  assumes "\<And>i. bit w i \<Longrightarrow> i < k"
  shows "unat (w :: u32) < 2 ^ k"
proof -
  have "take_bit k w = w"
    by (rule bit_word_eqI) (use assms in \<open>auto simp only: bit_take_bit_iff\<close>)
  then have "take_bit k (unat w) = unat w" by (metis unsigned_take_bit_eq)
  then show ?thesis by (metis take_bit_nat_less_exp)
qed

lemma unat_and_1023: "unat (x AND 1023 :: u32) = unat x mod 1024"
proof -
  have "x AND 1023 = take_bit 10 x"
    by (simp add: take_bit_eq_mask mask_eq_exp_minus_1)
  then have "unat (x AND 1023) = take_bit 10 (unat x)"
    by (simp only: unsigned_take_bit_eq)
  then show ?thesis by (simp only: take_bit_eq_mod) simp
qed

lemma unat_unit: "unat (x :: code_unit) < 65536"
  using unsigned_less [of x] by simp

lemma unat_ucast_unit: "unat (ucast (x :: code_unit) :: u32) = unat x"
  by (simp add: unsigned_ucast_eq take_bit_nat_eq_self_iff unat_unit less_trans [OF unat_unit])

lemma ucast_unit_id: "ucast (ucast x :: u32) = (x :: code_unit)"
proof (rule bit_word_eqI)
  fix i :: nat assume "i < LENGTH(16)"
  then show "bit (ucast (ucast x :: u32) :: code_unit) i = bit x i" unfolding js_bits by simp
qed

lemma unat_ucast_16: "unat (c :: u32) < 65536 \<Longrightarrow> unat (ucast c :: code_unit) = unat c"
  unfolding unsigned_ucast_eq by (subst take_bit_nat_eq_self_iff) simp

section \<open>Bitwise operators on numbers\<close>

lemma uint_of_int_byte: "uint (of_int v :: byte) = v mod 256"
  by (simp add: uint_word_of_int)

lemma of_int_byte_eqI: "(\<And>i. i < 8 \<Longrightarrow> bit v i = bit w i) \<Longrightarrow> of_int v = (of_int w :: byte)"
  by (rule bit_word_eqI) (simp add: bit_of_int_iff)

lemma ToInt32_small: "0 \<le> t \<Longrightarrow> t < 2147483648 \<Longrightarrow> ToInt32 t = t"
  unfolding ToInt32_def by (rule signed_take_bit_int_eq_self) auto

lemma bit_ToInt32: "i < 31 \<Longrightarrow> bit (ToInt32 v) i = bit v i"
  by (simp add: ToInt32_def bit_signed_take_bit_iff)

lemma of_int_band [simp]: "of_int (band 255 v) = (of_int v :: byte)"  "of_int (band v 255) = (of_int v :: byte)"
proof -
  have "ToInt32 255 = mask 8" by (simp add: ToInt32_small mask_eq_exp_minus_1)
  then show "of_int (band 255 v) = (of_int v :: byte)" "of_int (band v 255) = (of_int v :: byte)" 
    by (auto intro!: of_int_byte_eqI simp: band_def bit_and_iff bit_mask_iff bit_ToInt32)
qed

lemma of_int_shru: "k \<le> 24 \<Longrightarrow> of_int (shru v k) = (of_int (v div 2 ^ k) :: byte)"
  by (auto intro!: of_int_byte_eqI simp: shru_def ToUint32_def bit_take_bit_iff bit_drop_bit_eq simp flip: drop_bit_eq_div)
lemma bit_ToInt32_min: "bit (ToInt32 v) i \<longleftrightarrow> bit v (min i 31)"
  by (simp add: ToInt32_def bit_signed_take_bit_iff min.commute)

lemma bit_bor: "bit (bor a b) i \<longleftrightarrow> bit a (min i 31) \<or> bit b (min i 31)"
  by (simp add: bor_def bit_or_iff bit_ToInt32_min)

lemma bit_shl: "k < 32 \<Longrightarrow> bit (shl a k) i \<longleftrightarrow> k \<le> min i 31 \<and> bit a (min i 31 - k)"
  by (auto simp: shl_def bit_push_bit_iff bit_ToInt32_min)


lemma u8_set_in: "p < length b \<Longrightarrow> u8_set b (int p) v = b[p := of_int v]"
  by (simp add: u8_set_def)

lemma u8_get_in: "p < length b \<Longrightarrow> u8_get b (int p) = Some (uint (b ! p))"
  by (simp add: u8_get_def)


section \<open>Escaping unit by unit\<close>

text \<open>
  The contract between an escaping that works unit by unit and the scanner that undoes it: the
  scanner takes one escaped unit off the front, whatever follows.
\<close>

locale unit_escape =
  fixes esc :: "'a \<Rightarrow> 'b list"
    and scan :: "'b list \<Rightarrow> 'a list"
  assumes scan_Nil: "scan [] = []"
    and scan_esc: "scan (esc c @ s) = c # scan s"
begin

lemma scan_prefix: "scan (concat (map esc s) @ t) = s @ scan t"
  by (induction s) (simp_all add: scan_esc)

lemma scan_escaped: "scan (concat (map esc s)) = s"
  using scan_prefix [of s "[]"] by (simp add: scan_Nil)

lemma escaped_inj: "concat (map esc s) = concat (map esc t) \<Longrightarrow> s = t"
  by (metis scan_escaped)

end

end
