(* ===== verification/Base64.thy ===== *)
theory Base64
  imports JS_Prelude
begin

text \<open>
  The base64 codec of the bundle (\<open>base64-js\<close>): the two lookup tables, \<open>fromByteArray\<close> with
  its chunked loop and \<open>toByteArray\<close> with its padding rules and error paths. The encoder is
  proved equal to the arithmetic description of base64, and decoding inverts it.
\<close>

section \<open>Tables\<close>

definition alphabet :: jsstring where
  "alphabet = lit ''ABCDEFGHIJKLMNOPQRSTUVWXYZabcdefghijklmnopqrstuvwxyz0123456789+/''"

definition lookup :: "u32 \<Rightarrow> code_unit" where
  "lookup i = alphabet ! unat i"

definition rev_table :: "code_unit \<rightharpoonup> u32" where
  "rev_table = (foldl (\<lambda>m i. m(alphabet ! i \<mapsto> of_nat i)) Map.empty [0..<length alphabet])
     (hd (lit ''-'') \<mapsto> 62, hd (lit ''_'') \<mapsto> 63)"

text \<open>\<open>o[s.charCodeAt(i)]\<close> as an operand of a bitwise operator.\<close>

definition rev_lookup :: "jsstring \<Rightarrow> nat \<Rightarrow> u32" where
  "rev_lookup s i =
     (case item_at s i of None \<Rightarrow> 0
      | Some c \<Rightarrow> (case rev_table c of None \<Rightarrow> 0 | Some v \<Rightarrow> v))"

section \<open>Decoding\<close>

definition getLens :: "jsstring \<Rightarrow> (nat \<times> nat) result" where
  "getLens s =
     (let t = length s
      in if t mod 4 > 0
         then Inl (GenericError ''Invalid string. Length must be a multiple of 4'')
         else (let n = (case index_of (hd (lit ''='')) s of None \<Rightarrow> t | Some i \<Rightarrow> i)
               in Inr (n, if n = t then 0 else 4 - n mod 4)))"

definition byteLength :: "jsstring \<Rightarrow> int result" where
  "byteLength s =
     (case getLens s of Inl e \<Rightarrow> Inl e
      | Inr (n, r) \<Rightarrow> Inr (3 * (int n + int r) div 4 - int r))"

function decode_loop :: "jsstring \<Rightarrow> int \<Rightarrow> nat \<Rightarrow> byte list \<Rightarrow> nat \<times> byte list" where
  "decode_loop s c f u =
     (if int f < c
      then (let t = push_bit 18 (rev_lookup s f) OR push_bit 12 (rev_lookup s (f + 1)) OR
                    push_bit 6 (rev_lookup s (f + 2)) OR rev_lookup s (f + 3)
            in decode_loop s c (f + 4)
                 (u @ [ucast (drop_bit 16 t AND 255), ucast (drop_bit 8 t AND 255),
                       ucast (255 AND t)]))
      else (f, u))"
  by pat_completeness auto
termination
  by (relation "measure (\<lambda>(s, c, f, u). nat (c - int f))") auto

declare decode_loop.simps [simp del]

definition toByteArray :: "jsstring \<Rightarrow> byte list result" where
  "toByteArray s =
     (case getLens s of Inl e \<Rightarrow> Inl e
      | Inr (r, a) \<Rightarrow>
         (let size = 3 * (int r + int a) div 4 - int a
          in if size < 0 then Inl (RangeError ''Invalid typed array length'')
             else (let (f, u) = decode_loop s (if a > 0 then int r - 4 else int r) 0 [];
                       u = (if a = 2
                            then (let t = push_bit 2 (rev_lookup s f) OR
                                          drop_bit 4 (rev_lookup s (f + 1))
                                  in u @ [ucast (255 AND t)])
                            else u);
                       u = (if a = 1
                            then (let t = push_bit 10 (rev_lookup s f) OR
                                          push_bit 4 (rev_lookup s (f + 1)) OR
                                          drop_bit 2 (rev_lookup s (f + 2))
                                  in u @ [ucast (drop_bit 8 t AND 255), ucast (255 AND t)])
                            else u)
                   in Inr (u8_filled (nat size) u))))"

section \<open>Encoding\<close>

definition tripletToBase64 :: "u32 \<Rightarrow> jsstring" where
  "tripletToBase64 i =
     [lookup (drop_bit 18 i AND 63), lookup (drop_bit 12 i AND 63), lookup (drop_bit 6 i AND 63),
      lookup (63 AND i)]"

function encodeChunk :: "byte list \<Rightarrow> nat \<Rightarrow> nat \<Rightarrow> jsstring" where
  "encodeChunk e u n =
     (if u < n
      then (let x = (push_bit 16 (to_u32 (item_at e u)) AND 16711680) +
                    (push_bit 8 (to_u32 (item_at e (u + 1))) AND 65280) +
                    (255 AND to_u32 (item_at e (u + 2)))
            in tripletToBase64 x @ encodeChunk e (u + 3) n)
      else [])"
  by pat_completeness auto
termination
  by (relation "measure (\<lambda>(e, u, n). n - u)") auto

declare encodeChunk.simps [simp del]

function encode_chunks :: "byte list \<Rightarrow> nat \<Rightarrow> nat \<Rightarrow> jsstring" where
  "encode_chunks e u a =
     (if a < u
      then encodeChunk e a (if a + 16383 > u then u else a + 16383) @ encode_chunks e u (a + 16383)
      else [])"
  by pat_completeness auto
termination
  by (relation "measure (\<lambda>(e, u, a). u - a)") auto

declare encode_chunks.simps [simp del]

definition encode_tail :: "byte list \<Rightarrow> jsstring" where
  "encode_tail e =
     (let n = length e; r = n mod 3
      in if r = 1
         then (let t = to_u32 (item_at e (n - 1))
               in [lookup (drop_bit 2 t), lookup (push_bit 4 t AND 63)] @ lit ''=='')
         else if r = 2
         then (let t = push_bit 8 (to_u32 (item_at e (n - 2))) + to_u32 (item_at e (n - 1))
               in [lookup (drop_bit 10 t), lookup (drop_bit 4 t AND 63),
                   lookup (push_bit 2 t AND 63)] @ lit ''='')
         else [])"

definition fromByteArray :: "byte list \<Rightarrow> jsstring" where
  "fromByteArray e = encode_chunks e (length e - length e mod 3) 0 @ encode_tail e"

section \<open>The encoder against an arithmetic description\<close>

fun base64_spec :: "byte list \<Rightarrow> jsstring" where
  "base64_spec [] = []"
| "base64_spec [a] =
     (let v = unat a * 16 in [alphabet ! (v div 64), alphabet ! (v mod 64)] @ lit ''=='')"
| "base64_spec [a, b] =
     (let v = (unat a * 256 + unat b) * 4
      in [alphabet ! (v div 4096), alphabet ! (v div 64 mod 64), alphabet ! (v mod 64)] @ lit ''='')"
| "base64_spec (a # b # c # r) =
     (let v = unat a * 65536 + unat b * 256 + unat c
      in [alphabet ! (v div 262144), alphabet ! (v div 4096 mod 64), alphabet ! (v div 64 mod 64),
          alphabet ! (v mod 64)] @ base64_spec r)"

lemma length_alphabet [simp]: "length alphabet = 64"
  by (simp add: alphabet_def)


lemma byte_mask_16: "push_bit 16 (ucast (a :: byte)) AND 16711680 = (push_bit 16 (ucast a) :: u32)"
  and byte_mask_8: "push_bit 8 (ucast a) AND 65280 = (push_bit 8 (ucast a) :: u32)"
  and byte_mask_0: "255 AND ucast a = (ucast a :: u32)"
  by (rule bit_word_eqI; use bit_byte in \<open>force simp only: js_bits\<close>)+

lemma unat_byte_shift:
  "unat (push_bit 16 (ucast (a :: byte)) :: u32) = unat a * 65536"
  "unat (push_bit 8 (ucast a) :: u32) = unat a * 256"
  using unat_byte [of a]
  by (simp_all add: push_bit_eq_mult unat_word_ariths)
lemma unat_pack3:
  "unat ((push_bit 16 (ucast a) AND 16711680) + (push_bit 8 (ucast b) AND 65280) + (255 AND ucast c) :: u32)
   = unat (a :: byte) * 65536 + unat (b :: byte) * 256 + unat (c :: byte)"
  unfolding byte_mask_16 byte_mask_8 byte_mask_0 unat_word_ariths unat_byte_shift
  using unat_byte [of a] unat_byte [of b] unat_byte [of c] by simp


lemma tripletToBase64_spec:
  "tripletToBase64 ((push_bit 16 (ucast a) AND 16711680) + (push_bit 8 (ucast b) AND 65280) + (255 AND ucast c))
   @ base64_spec r = base64_spec (a # b # c # r)"
proof -
  let ?v = "unat a * 65536 + unat b * 256 + unat c"
  have "?v < 16777216"
    using unat_byte [of a] unat_byte [of b] unat_byte [of c] by simp
  then have "?v div 262144 mod 64 = ?v div 262144" by simp
  then show ?thesis
    unfolding tripletToBase64_def lookup_def and.commute [of 63] unat_and_63 unat_drop_bit_eq unat_pack3
    by (simp add: Let_def drop_bit_eq_div)
qed

lemma drop_3:
  assumes "u + 3 \<le> length e"
  shows "drop u e = e ! u # e ! (u + 1) # e ! (u + 2) # drop (u + 3) e"
  using assms by (simp add: Cons_nth_drop_Suc numeral_3_eq_3)

lemma encodeChunk_spec:
  "n = u + 3 * k \<Longrightarrow> n \<le> length e \<Longrightarrow> encodeChunk e u n = base64_spec (take (3 * k) (drop u e))"
proof (induction k arbitrary: u)
  case 0
  then show ?case by (simp add: encodeChunk.simps)
next
  case (Suc k)
  then have IH: "encodeChunk e (u + 3) n = base64_spec (take (3 * k) (drop (u + 3) e))"
    and lt: "u < n" "u + 3 \<le> length e" by simp_all
  have "take (3 * Suc k) (drop u e) = e ! u # e ! (u + 1) # e ! (u + 2) # take (3 * k) (drop (u + 3) e)"
    unfolding drop_3 [OF lt(2)] by (simp add: numeral_3_eq_3)
  then show ?case
    using lt by (subst encodeChunk.simps)
      (simp add: to_u32_def Let_def IH tripletToBase64_spec del: base64_spec.simps)
qed

lemma base64_spec_append:
  "length xs = 3 * k \<Longrightarrow> base64_spec (xs @ ys) = base64_spec xs @ base64_spec ys"
proof (induction k arbitrary: xs)
  case (Suc k)
  then obtain a b c r where "xs = a # b # c # r" "length r = 3 * k"
    by (auto simp: numeral_3_eq_3 length_Suc_conv)
  then show ?case using Suc.IH [of r] by (simp add: Let_def)
qed simp

lemma encode_chunks_spec:
  "3 dvd u - a \<Longrightarrow> u \<le> length e \<Longrightarrow> encode_chunks e u a = base64_spec (take (u - a) (drop a e))"
proof (induction e u a rule: encode_chunks.induct)
  case (1 e u a)
  show ?case
  proof (cases "a < u")
    case True
    let ?m = "if a + 16383 > u then u else a + 16383"
    have "3 dvd ?m - a" using 1(2) True by auto
    then obtain k where "?m - a = 3 * k" by (rule dvdE)
    then have k: "?m = a + 3 * k" using True by (simp split: if_splits)
    have "3 dvd u - (a + 16383)" using 1(2) by presburger
    then have IH: "encode_chunks e u (a + 16383) = base64_spec (take (u - (a + 16383)) (drop (a + 16383) e))"
      using 1 True by blast
    have "encodeChunk e a ?m = base64_spec (take (3 * k) (drop a e))"
      using k 1(3) by (intro encodeChunk_spec) (auto split: if_splits)
    moreover have "take (u - a) (drop a e) = take (3 * k) (drop a e) @ take (u - (a + 16383)) (drop (a + 16383) e)"
    proof (cases "a + 16383 > u")
      case False
      then have "u - a = 16383 + (u - (a + 16383))" and "3 * k = 16383" using k by simp_all
      then show ?thesis by (simp only: take_add drop_drop add.commute)
    qed (use k in simp)
    moreover have "length (take (3 * k) (drop a e)) = 3 * k" using k 1(3) True by (auto split: if_splits)
    ultimately show ?thesis using True by (subst encode_chunks.simps) (simp add: IH base64_spec_append)
  qed (simp add: encode_chunks.simps)
qed


lemma encode_tail_spec:
  assumes "length xs = 3 * k" and "length ys < 3"
  shows "encode_tail (xs @ ys) = base64_spec ys"
proof -
  from assms(2) consider "ys = []" | a where "ys = [a]" | a b where "ys = [a, b]"
    by (auto simp: numeral_3_eq_3 less_Suc_eq length_Suc_conv)
  then show ?thesis
  proof cases
    case (2 a)
    have "unat (push_bit 4 (ucast a) :: u32) = unat a * 16"
      using unat_byte [of a] by (simp add: push_bit_eq_mult unat_word_ariths)
    moreover have "(length xs + 1) mod 3 = 1" "item_at (xs @ [a]) (length xs) = Some a"
      using assms(1) by (simp_all add: nth_append)
    ultimately show ?thesis
      unfolding 2 encode_tail_def by (simp add: to_u32_def Let_def lookup_def unat_and_63 unat_shift_word)
  next
    case (3 a b)
    define w where "w = unat a * 256 + unat b"
    have "unat (push_bit 8 (ucast a) + ucast b :: u32) = w"
      unfolding unat_word_ariths unat_byte_shift w_def using unat_byte [of a] unat_byte [of b] by simp
    moreover have "unat (push_bit 2 (push_bit 8 (ucast a) + ucast b :: u32)) = w * 4"
      unfolding push_bit_eq_mult unat_word_ariths w_def
      using unat_byte [of a] unat_byte [of b] by (simp add: unat_word_ariths)
    moreover have "base64_spec [a, b] = [alphabet ! (w div 1024), alphabet ! (w div 16 mod 64),
        alphabet ! (w * 4 mod 64)] @ lit ''=''"
      by (simp add: Let_def flip: w_def)
    moreover have "(length xs + 2) mod 3 = 2" using assms(1) by presburger
    moreover have "item_at (xs @ [a, b]) (length xs) = Some a"
      "item_at (xs @ [a, b]) (Suc (length xs)) = Some b"
      using assms(1) by (simp_all add: nth_append)
    ultimately show ?thesis
      unfolding 3 encode_tail_def
      by (simp add: to_u32_def Let_def lookup_def unat_and_63 unat_shift_word del: base64_spec.simps)
  qed (use assms in \<open>simp add: encode_tail_def\<close>)
qed

text \<open>The encoder computes base64: its chunks and bit operations are the arithmetic of the spec.\<close>

lemma fromByteArray_spec: "fromByteArray e = base64_spec e"
proof -
  define k where "k = length e div 3"
  define xs where "xs = take (3 * k) e"
  define ys where "ys = drop (3 * k) e"
  have e: "xs @ ys = e" by (simp add: xs_def ys_def)
  have lx: "length xs = 3 * k" by (simp add: xs_def k_def)
  have ly: "length ys < 3" by (simp add: ys_def k_def)
  have u: "length e - length e mod 3 = 3 * k" by (simp only: k_def minus_mod_eq_mult_div)
  have "encode_chunks e (3 * k) 0 = base64_spec (take (3 * k - 0) (drop 0 e))"
    by (rule encode_chunks_spec) (simp_all add: k_def)
  moreover have "base64_spec e = base64_spec xs @ base64_spec ys"
    unfolding e [symmetric] by (rule base64_spec_append [OF lx])
  moreover have "encode_tail e = base64_spec ys"
    unfolding e [symmetric] by (rule encode_tail_spec [OF lx ly])
  ultimately show ?thesis unfolding fromByteArray_def u by (simp add: xs_def)
qed


section \<open>Decoding inverts encoding\<close>

lemma alphabet_codes: "map unat alphabet = [65..<91] @ [97..<123] @ [48..<58] @ [43, 47]"
  by (simp add: alphabet_def lit_def upt_rec)

lemma distinct_alphabet: "distinct alphabet"
proof -
  have "distinct (map unat alphabet)"
    unfolding alphabet_codes by auto
  then show ?thesis by (simp add: distinct_map)
qed

lemma notin_alphabet: "hd (lit ''='') \<notin> set alphabet" "hd (lit ''-'') \<notin> set alphabet" "hd (lit ''_'') \<notin> set alphabet"
proof -
  have "unat ` set alphabet = set ([65..<91] @ [97..<123] @ [48..<58] @ [43, 47])"
    by (simp only: alphabet_codes [symmetric] set_map)
  then have "61 \<notin> unat ` set alphabet" "45 \<notin> unat ` set alphabet" "95 \<notin> unat ` set alphabet"
    by auto
  then show "hd (lit ''='') \<notin> set alphabet" "hd (lit ''-'') \<notin> set alphabet" "hd (lit ''_'') \<notin> set alphabet"
    by (force simp: lit_def)+
qed

lemma foldl_index:
  "n \<le> length xs \<Longrightarrow> distinct xs \<Longrightarrow> i < n \<Longrightarrow>
   foldl (\<lambda>m j. m(xs ! j \<mapsto> f j)) m [0..<n] (xs ! i) = Some (f i)"
  by (induction n) (auto simp: less_Suc_eq nth_eq_iff_index_eq)

lemma rev_table_alphabet:
  assumes "i < 64"
  shows "rev_table (alphabet ! i) = Some (of_nat i)"
proof -
  have "alphabet ! i \<noteq> hd (lit ''-'')" "alphabet ! i \<noteq> hd (lit ''_'')"
    using notin_alphabet(2,3) nth_mem [of i alphabet] assms by (auto simp del: nth_mem)
  then show ?thesis
    using foldl_index [of 64 alphabet i "of_nat :: nat \<Rightarrow> u32" Map.empty] distinct_alphabet assms
    by (simp add: rev_table_def del: upt_Suc)
qed

lemma rev_lookup_alphabet [simp]:
  "j < length s \<Longrightarrow> s ! j = alphabet ! i \<Longrightarrow> i < 64 \<Longrightarrow> rev_lookup s j = of_nat i"
  by (simp add: rev_lookup_def rev_table_alphabet)

text \<open>Three bytes as one number, and the numbers in its sextets.\<close>

lemma sextets_join:
  assumes "x < 2 ^ 24"
  shows "push_bit 18 (drop_bit 18 x AND 63) OR push_bit 12 (drop_bit 12 x AND 63) OR
         push_bit 6 (drop_bit 6 x AND 63) OR (x AND 63) = (x :: u32)" (is "?l = x")
proof (rule bit_word_eqI)
  fix i show "bit ?l i = bit x i"
    unfolding js_bits using bit_below_imp [OF assms, of i]
    by (cases "i < 6"; cases "i < 12"; cases "i < 18") auto
qed

lemma decode_group:
  assumes "v < 16777216"
  shows "push_bit 18 (of_nat (v div 262144)) OR push_bit 12 (of_nat (v div 4096 mod 64)) OR
         push_bit 6 (of_nat (v div 64 mod 64)) OR of_nat (v mod 64) = (of_nat v :: u32)"
proof -
  have u: "unat (of_nat v :: u32) = v" using assms by (simp add: unat_of_nat)
  have "v div 262144 = v div 262144 mod 64" using assms by simp
  moreover have "(of_nat v :: u32) < 2 ^ 24" using assms by (simp add: word_less_nat_alt unat_of_nat)
  ultimately show ?thesis
    using sextets_join [of "of_nat v"] of_nat_shift_63 [of "of_nat v" 18]
      of_nat_shift_63 [of "of_nat v" 12] of_nat_shift_63 [of "of_nat v" 6] of_nat_and_63 [of "of_nat v"]
    unfolding u by simp
qed

lemma byte_of_shift:
  assumes "v < 16777216"
  shows "ucast (drop_bit k (of_nat v :: u32)) = (of_nat (v div 2 ^ k) :: byte)"
proof -
  have "unat (of_nat v :: u32) = v" using assms by (simp add: unat_of_nat)
  then have "unat (ucast (drop_bit k (of_nat v :: u32)) :: byte) = (v div 2 ^ k) mod 256"
    unfolding unsigned_ucast_eq unat_shift_word take_bit_eq_mod by simp
  then show ?thesis by (rule of_nat_byteI [OF sym, symmetric])
qed

lemma of_nat_bytes:
  "of_nat ((unat a * 65536 + unat b * 256 + unat c) div 65536) = (a :: byte)"
  "of_nat ((unat a * 65536 + unat b * 256 + unat c) div 256) = (b :: byte)"
  "of_nat (unat a * 65536 + unat b * 256 + unat c) = (c :: byte)"
proof -
  let ?v = "unat a * 65536 + unat b * 256 + unat c"
  note lt = unat_byte [of a] unat_byte [of b] unat_byte [of c]
  have "?v div 65536 = unat a" and "?v div 256 = unat a * 256 + unat b"
    by (rule div_nat_eqI; use lt in simp)+
  then have "?v div 65536 mod 256 = unat a" and "?v div 256 mod 256 = unat b"
    using lt by simp_all
  then show "of_nat (?v div 65536) = a" "of_nat (?v div 256) = b"
    by - (rule of_nat_byteI, assumption)+
  show "of_nat ?v = c"
  proof (rule of_nat_byteI)
    have "?v mod 256 = (unat c + 256 * (unat a * 256 + unat b)) mod 256" by (simp add: algebra_simps)
    then show "?v mod 256 = unat c" using lt by (simp only: mod_mult_self2) simp
  qed
qed

lemma decode_loop_spec:
  "length xs = 3 * k \<Longrightarrow> 0 \<le> d \<Longrightarrow> d < 4 \<Longrightarrow>
   decode_loop (pre @ base64_spec xs @ post) (int (length pre + 4 * k) - d) (length pre) u
     = (length pre + 4 * k, u @ xs)"
proof (induction k arbitrary: pre xs u)
  case 0
  then show ?case by (simp add: decode_loop.simps)
next
  case (Suc k)
  then obtain a b c r where xs: "xs = a # b # c # r" and r: "length r = 3 * k"
    by (auto simp: numeral_3_eq_3 length_Suc_conv)
  define v where "v = unat a * 65536 + unat b * 256 + unat c"
  define g where "g = [alphabet ! (v div 262144), alphabet ! (v div 4096 mod 64),
      alphabet ! (v div 64 mod 64), alphabet ! (v mod 64)]"
  have v: "v < 16777216"
    using unat_byte [of a] unat_byte [of b] unat_byte [of c] by (simp add: v_def)
  have s: "base64_spec xs = g @ base64_spec r" by (simp add: xs g_def v_def Let_def)
  have lg: "length g = 4" by (simp add: g_def)
  let ?s = "pre @ g @ base64_spec r @ post"
  have lk: "rev_lookup ?s (length pre) = of_nat (v div 262144)"
    "rev_lookup ?s (length pre + 1) = of_nat (v div 4096 mod 64)"
    "rev_lookup ?s (length pre + 2) = of_nat (v div 64 mod 64)"
    "rev_lookup ?s (length pre + 3) = of_nat (v mod 64)"
    using v by (simp_all add: rev_lookup_def g_def nth_append rev_table_alphabet)
  have t: "255 AND x = x AND (255 :: u32)" for x by (rule and.commute)
  have "decode_loop ?s (int (length pre + 4 * Suc k) - d) (length pre) u =
        decode_loop ?s (int (length pre + 4 * Suc k) - d) (length pre + 4) (u @ [a, b, c])"
    using Suc.prems(2,3) byte_of_shift [OF v, of 0] byte_of_shift [OF v, of 8] byte_of_shift [OF v, of 16]
      of_nat_bytes [of a b c, folded v_def]
    by (subst decode_loop.simps) (simp only: lk decode_group [OF v] Let_def t ucast_and_255, simp)
  also have "\<dots> = (length pre + 4 * Suc k, u @ xs)"
    using Suc.IH [OF r Suc.prems(2,3), of "pre @ g" "u @ [a, b, c]"]
    by (simp add: lg xs add.assoc)
  finally show ?case unfolding s by simp
qed

lemma base64_alphabet: "length xs = 3 * k \<Longrightarrow> set (base64_spec xs) \<subseteq> set alphabet"
proof (induction k arbitrary: xs)
  case (Suc k)
  then obtain a b c r where xs: "xs = a # b # c # r" and "length r = 3 * k"
    by (auto simp: numeral_3_eq_3 length_Suc_conv)
  moreover have "(unat a * 65536 + unat b * 256 + unat c) div 262144 < 64"
    using unat_byte [of a] unat_byte [of b] unat_byte [of c] by simp
  ultimately show ?case using Suc.IH [of r] by (simp add: Let_def)
qed simp

lemma length_base64_groups: "length xs = 3 * k \<Longrightarrow> length (base64_spec xs) = 4 * k"
proof (induction k arbitrary: xs)
  case (Suc k)
  then obtain a b c r where "xs = a # b # c # r" "length r = 3 * k"
    by (auto simp: numeral_3_eq_3 length_Suc_conv)
  with Suc.IH [of r] show ?case by (simp add: Let_def)
qed simp

text \<open>The unpadded part of an encoding, followed by a tail with \<open>p\<close> padding characters.\<close>

lemma getLens_padded:
  assumes "length xs = 3 * k" "set t \<subseteq> set alphabet" "length t + p = 4" "0 < p"
  shows "getLens (base64_spec xs @ t @ replicate p (hd (lit ''=''))) = Inr (4 * k + length t, p)"
proof -
  have "hd (lit ''='') \<notin> set (base64_spec xs @ t)"
    using base64_alphabet [OF assms(1)] assms(2) notin_alphabet(1) by auto
  then have "index_of (hd (lit ''='')) ((base64_spec xs @ t) @ replicate p (hd (lit ''='')))
      = Some (4 * k + length t)"
    using assms(4) length_base64_groups [OF assms(1)]
    by (simp add: index_of_append del: append_assoc) (cases p; simp)
  moreover have "length t < 4" "4 - length t = p"
    using assms(3,4) by simp_all
  ultimately show ?thesis
    using assms(3) length_base64_groups [OF assms(1)] by (simp add: getLens_def Let_def add.assoc)
qed

lemma decode_tail_1:
  "ucast (255 AND (push_bit 2 (of_nat (unat a * 16 div 64) :: u32) OR
                   drop_bit 4 (of_nat (unat a * 16 mod 64)))) = (a :: byte)"
proof -
  define y :: u32 where "y = push_bit 4 (ucast a)"
  have u: "unat a * 16 = unat y"
    using unat_byte [of a] by (simp add: y_def push_bit_eq_mult unat_word_ariths)
  have "ucast (255 AND (push_bit 2 (drop_bit 6 y) OR drop_bit 4 (y AND 63))) = a" (is "?l = a")
  proof (rule bit_word_eqI)
    fix i show "bit ?l i = bit a i"
      unfolding y_def js_bits using bit_byte [of a i] by (cases "i < 2"; auto)
  qed
  then show ?thesis
    using of_nat_shift [of y 6] of_nat_and_63 [of y] unfolding u by simp
qed

lemma decode_tail_2:
  fixes a b :: byte
  defines "v \<equiv> (unat a * 256 + unat b) * 4"
  defines "t \<equiv> push_bit 10 (of_nat (v div 4096)) OR push_bit 4 (of_nat (v div 64 mod 64)) OR
                drop_bit 2 (of_nat (v mod 64)) :: u32"
  shows "ucast (drop_bit 8 t AND 255) = a" "ucast (255 AND t) = b"
proof -
  define y :: u32 where "y = push_bit 2 (push_bit 8 (ucast a) OR ucast b)"
  have s: "push_bit 8 (ucast a) OR ucast b = (push_bit 8 (ucast a) + ucast b :: u32)"
    by (rule disjunctive_add [symmetric]) (use bit_byte in \<open>force simp only: js_bits\<close>)
  have u: "v = unat y"
    unfolding y_def s v_def unfolding push_bit_eq_mult unat_word_ariths
    using unat_byte [of a] unat_byte [of b] by (simp add: unat_word_ariths)
  have t: "t = push_bit 10 (drop_bit 12 y) OR push_bit 4 (drop_bit 6 y AND 63) OR drop_bit 2 (y AND 63)"
    unfolding t_def u using of_nat_shift [of y 12] of_nat_shift_63 [of y 6] of_nat_and_63 [of y] by simp
  show "ucast (drop_bit 8 t AND 255) = a" (is "?l = a")
  proof (rule bit_word_eqI)
    fix i show "bit ?l i = bit a i"
      unfolding t y_def js_bits using bit_byte [of a i] bit_byte [of b] by (cases "i < 2"; auto)
  qed
  show "ucast (255 AND t) = b" (is "?l = b")
  proof (rule bit_word_eqI)
    fix i show "bit ?l i = bit b i"
      unfolding t y_def js_bits using bit_byte [of a] bit_byte [of b i] by (cases "i < 4"; auto)
  qed
qed

lemma toByteArray_fromByteArray: "toByteArray (fromByteArray e) = Inr e"
proof -
  define k where "k = length e div 3"
  define xs where "xs = take (3 * k) e"
  define ys where "ys = drop (3 * k) e"
  have e: "e = xs @ ys" and lx: "length xs = 3 * k" and "length ys < 3"
    by (simp_all add: xs_def ys_def k_def)
  then consider "ys = []" | a where "ys = [a]" | a b where "ys = [a, b]"
    by (auto simp: numeral_3_eq_3 less_Suc_eq length_Suc_conv)
  then show ?thesis
  proof cases
    case 1
    have "index_of (hd (lit ''='')) (base64_spec xs) = None"
      using base64_alphabet [OF lx] notin_alphabet(1) by (auto simp: index_of_None_iff)
    then have "getLens (base64_spec xs) = Inr (4 * k, 0)"
      using length_base64_groups [OF lx] by (simp add: getLens_def Let_def)
    with 1 decode_loop_spec [OF lx, of 0 "[]" "[]" "[]"] lx show ?thesis
      by (simp add: fromByteArray_spec e toByteArray_def Let_def)
  next
    case (2 a)
    define t where "t = [alphabet ! (unat a * 16 div 64), alphabet ! (unat a * 16 mod 64)]"
    have s: "base64_spec e = base64_spec xs @ t @ replicate 2 (hd (lit ''=''))"
      unfolding e base64_spec_append [OF lx] 2 by (simp add: t_def Let_def lit_def numeral_2_eq_2)
    have "getLens (base64_spec e) = Inr (4 * k + 2, 2)"
      unfolding s using unat_byte [of a] by (subst getLens_padded [OF lx]) (auto simp: t_def)
    moreover have "decode_loop (base64_spec e) (int (4 * k) - 2) 0 [] = (4 * k, xs)"
      using decode_loop_spec [OF lx, of 2 "[]" "t @ replicate 2 (hd (lit ''=''))" "[]"] unfolding s by simp
    moreover have "rev_lookup (base64_spec e) (4 * k) = of_nat (unat a * 16 div 64)"
      "rev_lookup (base64_spec e) (4 * k + 1) = of_nat (unat a * 16 mod 64)"
      using unat_byte [of a] length_base64_groups [OF lx]
      by (simp_all add: s t_def rev_lookup_def nth_append rev_table_alphabet)
    ultimately show ?thesis
      using lx decode_tail_1 [of a]
      by (simp add: fromByteArray_spec toByteArray_def Let_def) (simp add: e 2)
  next
    case (3 a b)
    define v where "v = (unat a * 256 + unat b) * 4"
    define t where "t = [alphabet ! (v div 4096), alphabet ! (v div 64 mod 64), alphabet ! (v mod 64)]"
    have v: "v div 4096 < 64"
      using unat_byte [of a] unat_byte [of b] by (simp add: v_def)
    have s: "base64_spec e = base64_spec xs @ t @ replicate 1 (hd (lit ''=''))"
      unfolding e base64_spec_append [OF lx] 3 by (simp add: t_def v_def Let_def lit_def)
    have "getLens (base64_spec e) = Inr (4 * k + 3, 1)"
      unfolding s using v by (subst getLens_padded [OF lx]) (auto simp: t_def)
    moreover have "decode_loop (base64_spec e) (int (4 * k) - 1) 0 [] = (4 * k, xs)"
      using decode_loop_spec [OF lx, of 1 "[]" "t @ replicate 1 (hd (lit ''=''))" "[]"] unfolding s by simp
    moreover have "rev_lookup (base64_spec e) (4 * k) = of_nat (v div 4096)"
      "rev_lookup (base64_spec e) (4 * k + 1) = of_nat (v div 64 mod 64)"
      "rev_lookup (base64_spec e) (4 * k + 2) = of_nat (v mod 64)"
      using v length_base64_groups [OF lx]
      by (simp_all add: s t_def rev_lookup_def nth_append rev_table_alphabet)
    ultimately show ?thesis
      using lx decode_tail_2 [of a b, folded v_def]
      by (simp add: fromByteArray_spec toByteArray_def Let_def) (simp add: e 3)
  qed
qed

section \<open>Failing and sizing\<close>

lemma getLens_Inr:
  assumes "getLens s = Inr (r, a)"
  shows "4 dvd r + a" "a = 0 \<Longrightarrow> 4 dvd r" "r \<le> length s" "a \<le> 4" "a = 4 \<longleftrightarrow> 4 dvd r \<and> r < length s"
proof -
  have l: "length s mod 4 = 0" using assms by (auto simp: getLens_def Let_def split: if_splits)
  have i: "index_of c s = Some i \<Longrightarrow> i < length s" for c i
    by (induction s arbitrary: i) (auto split: if_splits)
  consider "r = length s" "a = 0" | "r < length s" "a = 4 - r mod 4"
    using assms l i by (fastforce simp: getLens_def Let_def split: if_splits option.splits)
  then show "4 dvd r + a" "a = 0 \<Longrightarrow> 4 dvd r" "r \<le> length s" "a \<le> 4" "a = 4 \<longleftrightarrow> 4 dvd r \<and> r < length s"
    using l by (cases; presburger)+
qed

lemma toByteArray_size:
  assumes "getLens s = Inr (r, a)"
  shows "3 * (int r + int a) div 4 - int a < 0 \<longleftrightarrow> r = 0 \<and> s \<noteq> []"
proof -
  obtain q where q: "r + a = 4 * q" using getLens_Inr(1) [OF assms] by (rule dvdE)
  then have "int r + int a = 4 * int q" by presburger
  then have "3 * (int r + int a) div 4 = 3 * int q" by simp
  then show ?thesis
    using q getLens_Inr(3-5) [OF assms] by (cases "a = 4"; cases "r = 0") auto
qed

section \<open>Properties\<close>

text \<open>
  C28: \<open>fromByteArray\<close> computes base64: its 16383-byte chunks, shifts and masks give, for every
  byte sequence, what the arithmetic on 24-bit groups prescribes, padding included.
\<close>

theorem fromByteArray_is_base64: "fromByteArray e = base64_spec e"
  by (rule fromByteArray_spec)

text \<open>C2: \<open>toByteArray\<close> inverts \<open>fromByteArray\<close> on every byte sequence, without raising.\<close>

theorem base64_roundtrip: "toByteArray (fromByteArray e) = Inr e"
  by (rule toByteArray_fromByteArray)

text \<open>
  C34: \<open>toByteArray\<close> fails on exactly two kinds of strings: those whose length is no multiple of 4,
  and those that begin with a padding character (a typed array of length -1).
\<close>

theorem toByteArray_fails_iff:
  "(\<exists>err. toByteArray s = Inl err) \<longleftrightarrow> 0 < length s mod 4 \<or> index_of 61 s = Some 0"
proof (cases "getLens s")
  case (Inl err)
  then show ?thesis by (auto simp: toByteArray_def getLens_def Let_def split: if_splits)
next
  case (Inr p)
  then obtain r a where ra: "getLens s = Inr (r, a)" by (cases p) auto
  have "length s mod 4 = 0" using ra by (auto simp: getLens_def Let_def split: if_splits)
  moreover have "r = 0 \<and> s \<noteq> [] \<longleftrightarrow> index_of 61 s = Some 0"
    using ra by (cases s) (auto simp: getLens_def Let_def lit_def split: if_splits option.splits)
  ultimately show ?thesis
    using toByteArray_size [OF ra] by (auto simp: toByteArray_def ra Let_def split: prod.splits)
qed

text \<open>Where \<open>toByteArray\<close> succeeds, \<open>byteLength\<close> announces the length of its result.\<close>

lemma byteLength_is_length:
  assumes "toByteArray s = Inr u"
  shows "byteLength s = Inr (int (length u))"
  using assms by (auto simp: toByteArray_def byteLength_def Let_def split: sum.splits prod.splits if_splits)

theorem byteLength_is_length_witness:
  "toByteArray (fromByteArray [1, 2]) = Inr [1, 2] \<and>
   byteLength (fromByteArray [1, 2]) = Inr (int (length [1 :: byte, 2]))"
  using byteLength_is_length [OF toByteArray_fromByteArray [of "[1, 2]"]] toByteArray_fromByteArray by blast

end
