(* ===== verification/Buffer_Utf8.thy ===== *)
theory Buffer_Utf8
  imports JS_Prelude
begin

text \<open>
  The UTF-8 codec of the bundled \<open>Buffer\<close>: \<open>utf8ToBytes\<close> (\<open>F\<close> in the bundle), which encodes a
  UTF-16 string under a byte budget and replaces lone surrogates, and \<open>utf8Slice\<close> (\<open>C\<close>), which
  decodes a range of a buffer and replaces malformed sequences. Both are related to the
  scalar values the text consists of.
\<close>

section \<open>From UTF-16 to UTF-8\<close>

text \<open>The byte budget \<open>units\<close>: \<open>None\<close> is \<open>Infinity\<close>.\<close>

definition spend :: "int option \<Rightarrow> nat \<Rightarrow> int option" where
  "spend t k = map_option (\<lambda>x. x - int k) t"

definition fits :: "int option \<Rightarrow> bool" where
  "fits t = (case t of None \<Rightarrow> True | Some x \<Rightarrow> x > -1)"

definition replacement :: "byte list" where
  "replacement = [239, 191, 189]"

text \<open>The bytes that one code point contributes.\<close>

definition code_point_bytes :: "u32 \<Rightarrow> byte list result" where
  "code_point_bytes n =
     (if n < 128 then Inr [ucast n]
      else if n < 2048 then Inr [ucast (drop_bit 6 n OR 192), ucast (63 AND n OR 128)]
      else if n < 65536
      then Inr [ucast (drop_bit 12 n OR 224), ucast (drop_bit 6 n AND 63 OR 128),
                ucast (63 AND n OR 128)]
      else if \<not> n < 1114112 then Inl (GenericError ''Invalid code point'')
      else Inr [ucast (drop_bit 18 n OR 240), ucast (drop_bit 12 n AND 63 OR 128),
                ucast (drop_bit 6 n AND 63 OR 128), ucast (63 AND n OR 128)])"

text \<open>
  The loop of \<open>utf8ToBytes\<close>: the budget, the pending lead surrogate and the bytes so far.
  Emitting a code point that does not fit ends the loop.
\<close>

fun utf8_loop :: "int option \<Rightarrow> u32 option \<Rightarrow> jsstring \<Rightarrow> byte list \<Rightarrow> byte list result"
and utf8_emit :: "int option \<Rightarrow> u32 \<Rightarrow> jsstring \<Rightarrow> byte list \<Rightarrow> byte list result"
where
  "utf8_loop t lead [] i = Inr i"
| "utf8_loop t lead (x # xs) i =
     (let n = ucast x; t3 = spend t 3; i3 = (if fits t3 then i @ replacement else i)
      in if n > 55295 \<and> n < 57344
         then (case lead of
                 None \<Rightarrow> (if n > 56319 then utf8_loop t3 None xs i3
                          else if xs = [] then utf8_loop t3 None xs i3
                          else utf8_loop t (Some n) xs i)
               | Some l \<Rightarrow> (if n < 56320 then utf8_loop t3 (Some n) xs i3
                            else utf8_emit t (65536 + (push_bit 10 (l - 55296) OR (n - 56320))) xs i))
         else (case lead of
                 None \<Rightarrow> utf8_emit t n xs i
               | Some l \<Rightarrow> utf8_emit t3 n xs i3))"
| "utf8_emit t n xs i =
     (case code_point_bytes n of Inl e \<Rightarrow> Inl e
      | Inr bs \<Rightarrow> (let t' = spend t (length bs)
                   in if fits t' then utf8_loop t' None xs (i @ bs) else Inr i))"

definition utf8ToBytes :: "jsstring \<Rightarrow> int option \<Rightarrow> byte list result" where
  "utf8ToBytes s units = utf8_loop (if units = Some 0 then None else units) None s []"

section \<open>From UTF-8 to UTF-16\<close>

text \<open>The payload bits of the two, three and four byte sequences.\<close>

definition join2 :: "u32 \<Rightarrow> u32 \<Rightarrow> u32" where
  "join2 l i = push_bit 6 (31 AND l) OR (63 AND i)"

definition join3 :: "u32 \<Rightarrow> u32 \<Rightarrow> u32 \<Rightarrow> u32" where
  "join3 l i a = push_bit 12 (15 AND l) OR push_bit 6 (63 AND i) OR (63 AND a)"

definition join4 :: "u32 \<Rightarrow> u32 \<Rightarrow> u32 \<Rightarrow> u32 \<Rightarrow> u32" where
  "join4 l i a u =
     push_bit 18 (15 AND l) OR push_bit 12 (63 AND i) OR push_bit 6 (63 AND a) OR (63 AND u)"

text \<open>One iteration of \<open>utf8Slice\<close>: how many bytes the lead byte announces and the code point.\<close>

definition utf8_decode1 :: "byte list \<Rightarrow> nat \<Rightarrow> nat \<Rightarrow> nat \<times> u32 option" where
  "utf8_decode1 e k n =
     (let l = to_u32 (item_at e k);
          f = (if l > 239 then 4 else if l > 223 then 3 else if l > 191 then 2 else 1)
      in (f,
          if k + f \<le> n then
            (if f = 1 then (if l < 128 then Some l else None)
             else if f = 2 then
               (let i = to_u32 (item_at e (k + 1));
                    s = join2 l i
                in if 192 AND i = 128 \<and> s > 127 then Some s else None)
             else if f = 3 then
               (let i = to_u32 (item_at e (k + 1)); a = to_u32 (item_at e (k + 2));
                    s = join3 l i a
                in if 192 AND i = 128 \<and> 192 AND a = 128 \<and> s > 2047 \<and> (s < 55296 \<or> s > 57343)
                   then Some s else None)
             else
               (let i = to_u32 (item_at e (k + 1)); a = to_u32 (item_at e (k + 2));
                    u = to_u32 (item_at e (k + 3));
                    s = join4 l i a u
                in if 192 AND i = 128 \<and> 192 AND a = 128 \<and> 192 AND u = 128 \<and> s > 65535 \<and>
                      s < 1114112
                   then Some s else None))
          else None))"

lemma utf8_decode1_pos: "0 < fst (utf8_decode1 e k n)"
  by (simp add: utf8_decode1_def Let_def)

definition utf16_units :: "u32 \<Rightarrow> u32 list" where
  "utf16_units c =
     (if c > 65535
      then (let c' = c - 65536
            in [drop_bit 10 c' AND 1023 OR 55296, 56320 OR (1023 AND c')])
      else [c])"

function utf8_slice_loop :: "byte list \<Rightarrow> nat \<Rightarrow> nat \<Rightarrow> u32 list \<Rightarrow> u32 list" where
  "utf8_slice_loop e n k r =
     (if k < n
      then (case snd (utf8_decode1 e k n) of
              None \<Rightarrow> utf8_slice_loop e n (k + 1) (r @ [65533])
            | Some c \<Rightarrow> utf8_slice_loop e n (k + fst (utf8_decode1 e k n)) (r @ utf16_units c))
      else r)"
  by pat_completeness auto
termination
proof (relation "measure (\<lambda>(e, n, k, r). n - k)", goal_cases)
  case (3 e n k r c)
  then show ?case using utf8_decode1_pos [of e k n] by (simp add: diff_less_mono2)
qed simp_all

declare utf8_slice_loop.simps [simp del]

text \<open>\<open>String.fromCharCode\<close> takes its arguments modulo \<open>2 ^ 16\<close>; long lists go in chunks of 4096.\<close>

definition fromCharCode :: "u32 list \<Rightarrow> jsstring" where
  "fromCharCode cs = map ucast cs"

function code_points_chunks :: "u32 list \<Rightarrow> nat \<Rightarrow> jsstring \<Rightarrow> jsstring" where
  "code_points_chunks e r n =
     (if r < length e
      then code_points_chunks e (r + 4096) (n @ fromCharCode (take 4096 (drop r e)))
      else n)"
  by pat_completeness auto
termination
  by (relation "measure (\<lambda>(e, r, n). length e - r)") auto

declare code_points_chunks.simps [simp del]

definition decodeCodePointsArray :: "u32 list \<Rightarrow> jsstring" where
  "decodeCodePointsArray e =
     (if length e \<le> 4096 then fromCharCode e else code_points_chunks e 0 [])"

definition utf8Slice :: "byte list \<Rightarrow> nat \<Rightarrow> nat \<Rightarrow> jsstring" where
  "utf8Slice e t n = decodeCodePointsArray (utf8_slice_loop e (min (length e) n) t [])"

section \<open>Sequences of bytes and the code points they carry\<close>

lemma tag_low:
  "bit (192 :: u32) i \<Longrightarrow> 5 \<le> i" "bit (224 :: u32) i \<Longrightarrow> 4 \<le> i" "bit (240 :: u32) i \<Longrightarrow> 3 \<le> i"
  "bit (128 :: u32) i \<Longrightarrow> 6 \<le> i"
  unfolding const_bits by simp_all

lemma lead_nat:
  "x < 32 \<Longrightarrow> unat (x OR 192 :: u32) = unat x + 192"
  "x < 16 \<Longrightarrow> unat (x OR 224 :: u32) = unat x + 224"
  "x < 8 \<Longrightarrow> unat (x OR 240 :: u32) = unat x + 240"
  "x < 64 \<Longrightarrow> unat (x OR 128 :: u32) = unat x + 128"
  using or_tag_nat [of x 5 192, OF _ _ tag_low(1)] or_tag_nat [of x 4 224, OF _ _ tag_low(2)]
    or_tag_nat [of x 3 240, OF _ _ tag_low(3)] or_tag_nat [of x 6 128, OF _ _ tag_low(4)]
  by (simp_all add: word_less_nat_alt)

lemma cont_tag: "192 AND (63 AND x OR 128) = (128 :: u32)"
proof (rule bit_word_eqI)
  fix i show "bit (192 AND (63 AND x OR 128)) i = bit (128 :: u32) i"
    unfolding js_bits by auto
qed

lemma cont_lt: "63 AND x OR 128 < (256 :: u32)"
proof -
  have "63 AND x < (64 :: u32)"
    by (simp add: word_less_nat_alt and.commute [of 63] unat_and_63)
  then show ?thesis using lead_nat(4) [of "63 AND x"] by (simp add: word_less_nat_alt)
qed

lemma shift_lt:
  "(x :: u32) < 2048 \<Longrightarrow> drop_bit 6 x < 32" "x < 65536 \<Longrightarrow> drop_bit 12 x < 16"
  "x < 1114112 \<Longrightarrow> drop_bit 18 x < 8"
  unfolding word_less_nat_alt unat_shift_word by simp_all

lemma lead_lt:
  "(x :: u32) < 2048 \<Longrightarrow> drop_bit 6 x OR 192 < 256" "x < 65536 \<Longrightarrow> drop_bit 12 x OR 224 < 256"
  "x < 1114112 \<Longrightarrow> drop_bit 18 x OR 240 < 256"
  using lead_nat(1) [of "drop_bit 6 x"] lead_nat(2) [of "drop_bit 12 x"] lead_nat(3) [of "drop_bit 18 x"]
    shift_lt [of x]
  by (simp_all add: word_less_nat_alt)

text \<open>Reassembling the payload bits of a multi-byte sequence.\<close>

lemma join_2:
  assumes "n < 2 ^ 11"
  shows "join2 (drop_bit 6 n OR 192) (63 AND n OR 128) = n" (is "?l = n")
proof (rule bit_word_eqI)
  fix i show "bit ?l i = bit n i"
    unfolding join2_def js_bits using bit_below_imp [OF assms, of i] by (cases "i < 6") auto
qed

lemma join_3:
  assumes "n < 2 ^ 16"
  shows "join3 (drop_bit 12 n OR 224) (drop_bit 6 n AND 63 OR 128) (63 AND n OR 128) = n" (is "?l = n")
proof (rule bit_word_eqI)
  fix i show "bit ?l i = bit n i"
    unfolding join3_def js_bits using bit_below_imp [OF assms, of i]
    by (cases "i < 6"; cases "i < 12") auto
qed

lemma join_4:
  assumes "n < 2 ^ 21"
  shows "join4 (drop_bit 18 n OR 240) (drop_bit 12 n AND 63 OR 128) (drop_bit 6 n AND 63 OR 128)
    (63 AND n OR 128) = n" (is "?l = n")
proof (rule bit_word_eqI)
  fix i show "bit ?l i = bit n i"
    unfolding join4_def js_bits using bit_below_imp [OF assms, of i]
    by (cases "i < 6"; cases "i < 12"; cases "i < 18") auto
qed

lemma join_bounds: "unat (join2 l i) < 2048" "unat (join3 l i a) < 65536"
proof -
  have "bit (join2 l i) k \<Longrightarrow> k < 11" "bit (join3 l i a) k \<Longrightarrow> k < 16" for k
    unfolding join2_def join3_def js_bits by auto
  then show "unat (join2 l i) < 2048" "unat (join3 l i a) < 65536"
    using bits_lt [of "join2 l i" 11] bits_lt [of "join3 l i a" 16] by simp_all
qed

definition scalar :: "u32 \<Rightarrow> bool" where
  "scalar c \<longleftrightarrow> c < 55296 \<or> 57343 < c \<and> c < 1114112"

text \<open>Decoding the bytes of a scalar value gives it back, one lemma per sequence length.\<close>

lemma utf8_decode1_len1:
  assumes n: "n = k + length bs + m" and it: "\<And>j. j < length bs \<Longrightarrow> item_at e (k + j) = Some (bs ! j)"
    and c: "code_point_bytes c = Inr bs" and s: "scalar c" and lt: "c < 128"
  shows "utf8_decode1 e k n = (length bs, Some c)"
proof -
  have bs: "bs = [ucast c]" using c lt by (simp add: code_point_bytes_def)
  have "to_u32 (item_at e k) = c"
    using it [of 0] lt by (simp add: bs to_u32_def ucast_byte_id word_less_nat_alt)
  then show ?thesis using lt n
    by (simp add: utf8_decode1_def Let_def bs word_less_nat_alt)
qed

lemma utf8_decode1_len2:
  assumes n: "n = k + length bs + m" and it: "\<And>j. j < length bs \<Longrightarrow> item_at e (k + j) = Some (bs ! j)"
    and c: "code_point_bytes c = Inr bs" and s: "scalar c" and lt: "\<not> c < 128" "c < 2048"
  shows "utf8_decode1 e k n = (length bs, Some c)"
proof -
  have bs: "bs = [ucast (drop_bit 6 c OR 192), ucast (63 AND c OR 128)]"
    using c lt by (simp add: code_point_bytes_def)
  have l: "to_u32 (item_at e k) = drop_bit 6 c OR 192" "to_u32 (item_at e (k + 1)) = 63 AND c OR 128"
    using it [of 0] it [of 1] lead_lt(1) [OF lt(2)] cont_lt [of c]
    by (simp_all add: bs to_u32_def ucast_byte_id)
  have "c < 2 ^ 11" using lt by simp
  note j = join_2 [OF this]
  have u: "unat (drop_bit 6 c OR 192) = unat c div 64 + 192"
    using lead_nat(1) shift_lt(1) [OF lt(2)] by (simp add: unat_shift_word)
  have f: "drop_bit 6 c OR 192 > 191" "\<not> drop_bit 6 c OR 192 > 223" "\<not> drop_bit 6 c OR 192 > 239"
    using lt by (simp_all add: word_less_nat_alt u)
  show ?thesis unfolding utf8_decode1_def l j Let_def cont_tag using lt n f
    by (simp add: bs) (simp add: word_less_nat_alt)
qed

lemma utf8_decode1_len3:
  assumes n: "n = k + length bs + m" and it: "\<And>j. j < length bs \<Longrightarrow> item_at e (k + j) = Some (bs ! j)"
    and c: "code_point_bytes c = Inr bs" and s: "scalar c" and lt: "\<not> c < 128" "\<not> c < 2048" "c < 65536"
  shows "utf8_decode1 e k n = (length bs, Some c)"
proof -
  have bs: "bs = [ucast (drop_bit 12 c OR 224), ucast (drop_bit 6 c AND 63 OR 128), ucast (63 AND c OR 128)]"
    using c lt by (simp add: code_point_bytes_def)
  have l: "to_u32 (item_at e k) = drop_bit 12 c OR 224"
    "to_u32 (item_at e (k + 1)) = drop_bit 6 c AND 63 OR 128" "to_u32 (item_at e (k + 2)) = 63 AND c OR 128"
    using it [of 0] it [of 1] it [of 2] lead_lt(2) [OF lt(3)] cont_lt [of c] cont_lt [of "drop_bit 6 c"]
    by (simp_all add: bs to_u32_def ucast_byte_id and.commute [of 63])
  have "c < 2 ^ 16" using lt by simp
  note j = join_3 [OF this]
  have u: "unat (drop_bit 12 c OR 224) = unat c div 4096 + 224"
    using lead_nat(2) shift_lt(2) [OF lt(3)] by (simp add: unat_shift_word)
  have f: "drop_bit 12 c OR 224 > 223" "\<not> drop_bit 12 c OR 224 > 239"
    using lt by (simp_all add: word_less_nat_alt u)
  have g: "192 AND (drop_bit 6 c AND 63 OR 128) = (128 :: u32)"
    using cont_tag [of "drop_bit 6 c"] by (simp only: and.commute [of 63])
  have h: "c > 2047" "c < 55296 \<or> c > 57343"
    using lt s by (auto simp: scalar_def word_less_nat_alt)
  show ?thesis unfolding utf8_decode1_def l j Let_def cont_tag g using h n f by (simp add: bs)
qed

lemma utf8_decode1_len4:
  assumes n: "n = k + length bs + m" and it: "\<And>j. j < length bs \<Longrightarrow> item_at e (k + j) = Some (bs ! j)"
    and c: "code_point_bytes c = Inr bs" and s: "scalar c" and lt: "\<not> c < 128" "\<not> c < 2048" "\<not> c < 65536" "c < 1114112"
  shows "utf8_decode1 e k n = (length bs, Some c)"
proof -
  have bs: "bs = [ucast (drop_bit 18 c OR 240), ucast (drop_bit 12 c AND 63 OR 128),
      ucast (drop_bit 6 c AND 63 OR 128), ucast (63 AND c OR 128)]"
    using c lt by (simp add: code_point_bytes_def)
  have l: "to_u32 (item_at e k) = drop_bit 18 c OR 240"
    "to_u32 (item_at e (k + 1)) = drop_bit 12 c AND 63 OR 128"
    "to_u32 (item_at e (k + 2)) = drop_bit 6 c AND 63 OR 128" "to_u32 (item_at e (k + 3)) = 63 AND c OR 128"
    using it [of 0] it [of 1] it [of 2] it [of 3] lead_lt(3) [OF lt(4)] cont_lt [of c]
      cont_lt [of "drop_bit 6 c"] cont_lt [of "drop_bit 12 c"]
    by (simp_all add: bs to_u32_def ucast_byte_id and.commute [of 63])
  have "c < 2 ^ 21" using lt by (simp add: word_less_nat_alt)
  note j = join_4 [OF this]
  have u: "unat (drop_bit 18 c OR 240) = unat c div 262144 + 240"
    using lead_nat(3) shift_lt(3) [OF lt(4)] by (simp add: unat_shift_word)
  have f: "drop_bit 18 c OR 240 > 239" by (simp_all add: word_less_nat_alt u)
  have g: "192 AND (drop_bit 6 c AND 63 OR 128) = (128 :: u32)" "192 AND (drop_bit 12 c AND 63 OR 128) = (128 :: u32)"
    using cont_tag [of "drop_bit 6 c"] cont_tag [of "drop_bit 12 c"] by (simp_all only: and.commute [of 63])
  have h: "c > 65535" "c < 1114112"
    using lt s by (auto simp: scalar_def word_less_nat_alt)
  show ?thesis unfolding utf8_decode1_def l j Let_def cont_tag g using h n f by (simp add: bs)
qed

lemma utf8_decode1_scalar:
  assumes "n = k + length bs + m" "\<And>j. j < length bs \<Longrightarrow> item_at e (k + j) = Some (bs ! j)"
    and "code_point_bytes c = Inr bs" "scalar c"
  shows "utf8_decode1 e k n = (length bs, Some c)"
proof -
  consider "c < 128" | "\<not> c < 128" "c < 2048" | "\<not> c < 128" "\<not> c < 2048" "c < 65536"
    | "\<not> c < 128" "\<not> c < 2048" "\<not> c < 65536" "c < 1114112"
    using assms(4) unfolding scalar_def by (force simp: word_less_nat_alt)
  then show ?thesis
    by cases (rule utf8_decode1_len1 [OF assms] utf8_decode1_len2 [OF assms] utf8_decode1_len3 [OF assms]
      utf8_decode1_len4 [OF assms]; assumption)+
qed

section \<open>The text behind the encodings\<close>

text \<open>
  The Unicode scalar values of a UTF-16 string: a surrogate pair is one value, a lone surrogate
  stands for \<open>U+FFFD\<close>.
\<close>

definition lead_unit :: "code_unit \<Rightarrow> bool" where
  "lead_unit x \<longleftrightarrow> 55295 < x \<and> x < 56320"

definition trail_unit :: "code_unit \<Rightarrow> bool" where
  "trail_unit x \<longleftrightarrow> 56319 < x \<and> x < 57344"

definition join_units :: "code_unit \<Rightarrow> code_unit \<Rightarrow> u32" where
  "join_units x y = 65536 + (push_bit 10 (ucast x - 55296) OR (ucast y - 56320))"

fun usv :: "jsstring \<Rightarrow> u32 list" where
  "usv [] = []"
| "usv [x] = [if lead_unit x \<or> trail_unit x then 65533 else ucast x]"
| "usv (x # y # s) =
     (if lead_unit x \<and> trail_unit y then join_units x y # usv s
      else (if lead_unit x \<or> trail_unit x then 65533 else ucast x) # usv (y # s))"

fun well_formed :: "jsstring \<Rightarrow> bool" where
  "well_formed [] \<longleftrightarrow> True"
| "well_formed [x] \<longleftrightarrow> \<not> lead_unit x \<and> \<not> trail_unit x"
| "well_formed (x # y # s) \<longleftrightarrow>
     (if lead_unit x then trail_unit y \<and> well_formed s else \<not> trail_unit x \<and> well_formed (y # s))"

text \<open>The UTF-8 form of a code point, in arithmetic: 6 bits in each byte but the first.\<close>

definition utf8_of :: "u32 \<Rightarrow> byte list" where
  "utf8_of c =
     (let n = unat c
      in if n < 128 then [of_nat n]
         else if n < 2048 then [of_nat (192 + n div 64), of_nat (128 + n mod 64)]
         else if n < 65536 then [of_nat (224 + n div 4096), of_nat (128 + n div 64 mod 64), of_nat (128 + n mod 64)]
         else [of_nat (240 + n div 262144), of_nat (128 + n div 4096 mod 64), of_nat (128 + n div 64 mod 64), of_nat (128 + n mod 64)])"

definition utf16_of :: "u32 \<Rightarrow> jsstring" where
  "utf16_of c = map ucast (utf16_units c)"

text \<open>
  What the encoder loses: it recognises a lead surrogate at the end of the string as lone only
  when no lead surrogate is pending.
\<close>

fun dropped :: "jsstring \<Rightarrow> jsstring" where
  "dropped [] = []"
| "dropped [x] = [x]"
| "dropped [x, y] = (if lead_unit x \<and> lead_unit y then [x] else [x, y])"
| "dropped (x # y # z # s) = x # dropped (y # z # s)"

lemma or_plus:
  assumes "unat (x :: u32) < 2 ^ k"
  shows "push_bit k z OR x = push_bit k z + x"
proof -
  have "take_bit k x = x" using assms by (simp add: word_unat_eq_iff unsigned_take_bit_eq take_bit_nat_eq_self_iff)
  then have b: "bit x n \<Longrightarrow> n < k" for n by (metis bit_take_bit_iff)
  have "push_bit k z AND x = 0" using b by (intro bit_eqI) (auto simp: bit_simps dest: leD)
  then show ?thesis by (rule disjunctive_add_eq_or [symmetric])
qed

lemma unat_shift: "unat (drop_bit k x :: u32) = unat x div 2 ^ k"
  by (simp only: unat_drop_bit_eq) (simp add: drop_bit_eq_div)

lemma byte_plus: "unat (x :: u32) < 2 ^ k \<Longrightarrow> m = push_bit k z \<Longrightarrow> unat m + 2 ^ k \<le> 2 ^ 32 \<Longrightarrow> ucast (x OR m) = (of_nat (unat m + unat x) :: byte)"
proof -
  assume a: "unat x < 2 ^ k" "m = push_bit k z" "unat m + 2 ^ k \<le> 2 ^ 32"
  have "x OR m = m + x" using or_plus [OF a(1), of z] a(2) by (simp add: or.commute)
  moreover have "unat (m + x) = unat m + unat x" using a(1,3) by (intro unat_add_lem [THEN iffD1]) simp
  ultimately show ?thesis by (metis of_nat_unat)
qed

lemma tail_byte: "ucast (x AND 63 OR 128 :: u32) = (of_nat (128 + unat x mod 64) :: byte)"
  using byte_plus [of "x AND 63" 6 128 2] by (simp add: unat_and_63 push_bit_eq_mult del: of_nat_add)

lemma lead_bytes:
  "unat c < 2048 \<Longrightarrow> ucast (drop_bit 6 c OR 192 :: u32) = (of_nat (192 + unat c div 64) :: byte)"
  "unat c < 65536 \<Longrightarrow> ucast (drop_bit 12 c OR 224 :: u32) = (of_nat (224 + unat c div 4096) :: byte)"
  "unat c < 1114112 \<Longrightarrow> ucast (drop_bit 18 c OR 240 :: u32) = (of_nat (240 + unat c div 262144) :: byte)"
  using byte_plus [of "drop_bit 6 c" 5 192 6] byte_plus [of "drop_bit 12 c" 4 224 14] byte_plus [of "drop_bit 18 c" 4 240 15]
  by (simp_all add: unat_shift push_bit_eq_mult del: of_nat_add)

lemma code_point_bytes_scalar: "c < 1114112 \<Longrightarrow> code_point_bytes c = Inr (utf8_of c)"
proof -
  assume c: "c < 1114112"
  have w: "c < 128 \<longleftrightarrow> unat c < 128" "c < 2048 \<longleftrightarrow> unat c < 2048" "c < 65536 \<longleftrightarrow> unat c < 65536" "unat c < 1114112"
    using c by (simp_all add: word_less_nat_alt)
  have t: "ucast (63 AND c OR 128) = (of_nat (128 + unat c mod 64) :: byte)" 
    "ucast (drop_bit 6 c AND 63 OR 128) = (of_nat (128 + unat c div 64 mod 64) :: byte)"
    "ucast (drop_bit 12 c AND 63 OR 128) = (of_nat (128 + unat c div 4096 mod 64) :: byte)"
    using tail_byte [of c] tail_byte [of "drop_bit 6 c"] tail_byte [of "drop_bit 12 c"] by (simp_all add: unat_shift and.commute del: of_nat_add)
  show ?thesis unfolding code_point_bytes_def utf8_of_def Let_def w t using lead_bytes [of c] w(4) c
    by (simp add: not_less del: of_nat_add)
qed

lemma utf8_of_bits: "c < 1114112 \<Longrightarrow> utf8_of c = (case code_point_bytes c of Inl _ \<Rightarrow> [] | Inr bs \<Rightarrow> bs)"
  by (simp add: code_point_bytes_scalar)

lemma utf8_of_ascii: "c < 128 \<longleftrightarrow> length (utf8_of c) = 1" "c < 128 \<Longrightarrow> utf8_of c = [ucast c]"
  by (auto simp: utf8_of_def word_less_nat_alt Let_def)

lemma unit_classes:
  "55295 < (ucast x :: u32) \<and> (ucast x :: u32) < 57344 \<longleftrightarrow> lead_unit x \<or> trail_unit x"
  "lead_unit x \<or> trail_unit x \<Longrightarrow> 56319 < (ucast x :: u32) \<longleftrightarrow> trail_unit x"
  "lead_unit x \<or> trail_unit x \<Longrightarrow> (ucast x :: u32) < 56320 \<longleftrightarrow> lead_unit x"
  "(ucast x :: u32) < 1114112" "lead_unit x \<Longrightarrow> \<not> trail_unit x" "trail_unit x \<Longrightarrow> \<not> lead_unit x"
  using unat_unit [of x]
  by (auto simp: word_less_nat_alt unat_ucast_unit lead_unit_def trail_unit_def)

lemma unat_join_units:
  assumes "lead_unit x" "trail_unit y"
  shows "unat (join_units x y) = 65536 + ((unat y - 56320) + (unat x - 55296) * 1024)"
    and "unat y - 56320 < 1024" "unat x - 55296 < 1024"
proof -
  define a b where "a = (ucast x - 55296 :: u32)" and "b = (ucast y - 56320 :: u32)"
  have u: "unat a = unat x - 55296" "unat b = unat y - 56320"
    using assms unfolding a_def b_def lead_unit_def trail_unit_def
    by (simp_all add: unat_sub word_le_nat_alt word_less_nat_alt unat_ucast_unit)
  then have ab: "unat a < 1024" "unat b < 1024"
    using assms by (auto simp: lead_unit_def trail_unit_def word_less_nat_alt)
  have p: "unat (push_bit 10 a) = unat a * 1024"
    using ab by (simp add: push_bit_eq_mult unat_word_ariths)
  have "unat (b OR push_bit 10 a) = unat b + unat (push_bit 10 a)"
  proof (rule or_tag_nat [of b 10])
    show "bit (push_bit 10 a) i \<Longrightarrow> 10 \<le> i" for i by (simp only: bit_push_bit_iff)
  qed (use ab p in \<open>simp_all add: word_less_nat_alt\<close>)
  then show "unat (join_units x y) = 65536 + ((unat y - 56320) + (unat x - 55296) * 1024)"
    using ab p unfolding join_units_def u [symmetric] a_def [symmetric] b_def [symmetric]
    by (simp add: unat_word_ariths or.commute [of _ b])
  show "unat y - 56320 < 1024" "unat x - 55296 < 1024" using ab u by simp_all
qed

lemma join_units_lt:
  assumes "lead_unit x" "trail_unit y"
  shows "join_units x y < 1114112" "65535 < join_units x y"
  using unat_join_units [OF assms] by (simp_all add: word_less_nat_alt)

lemma replacement_utf8: "replacement = utf8_of 65533"
  by (simp add: replacement_def utf8_of_def code_point_bytes_def)

lemma spend_None [simp]: "spend None k = None" "fits None"
  by (simp_all add: spend_def fits_def)

lemma utf8_emit_unlimited:
  "c < 1114112 \<Longrightarrow> utf8_emit None c s i = utf8_loop None None s (i @ utf8_of c)"
  by (simp add: code_point_bytes_scalar)

lemma utf8_loop_unlimited:
  "\<not> lead_unit x \<Longrightarrow> utf8_loop None None (x # s) i =
     utf8_loop None None s (i @ utf8_of (if trail_unit x then 65533 else ucast x))"
  "lead_unit x \<Longrightarrow> utf8_loop None None [x] i = Inr (i @ utf8_of 65533)"
  "lead_unit x \<Longrightarrow> s \<noteq> [] \<Longrightarrow> utf8_loop None None (x # s) i = utf8_loop None (Some (ucast x)) s i"
  "lead_unit x \<Longrightarrow>
     utf8_loop None (Some l) (x # s) i = utf8_loop None (Some (ucast x)) s (i @ utf8_of 65533)"
  "lead_unit l' \<Longrightarrow> trail_unit x \<Longrightarrow>
     utf8_loop None (Some (ucast l')) (x # s) i = utf8_loop None None s (i @ utf8_of (join_units l' x))"
  "\<not> lead_unit x \<Longrightarrow> \<not> trail_unit x \<Longrightarrow>
     utf8_loop None (Some l) (x # s) i = utf8_loop None None s (i @ utf8_of 65533 @ utf8_of (ucast x))"
  by (simp_all add: Let_def unit_classes replacement_utf8 utf8_emit_unlimited join_units_lt
      flip: join_units_def del: utf8_emit.simps)

lemma dropped_Cons: "\<not> lead_unit x \<or> 2 \<le> length s \<Longrightarrow> dropped (x # s) = x # dropped s"
  by (cases s rule: dropped.cases) auto

lemma dropped_lead: "s \<noteq> [] \<Longrightarrow> dropped (l # x # s) = l # dropped (x # s)"
  by (cases s) auto

lemma dropped_pair: "\<not> lead_unit x \<Longrightarrow> dropped (l # x # s) = l # x # dropped s"
  by (cases s) (auto simp: dropped_Cons)

lemma dropped_hd: "\<exists>t. dropped (x # s) = x # t"
  by (cases s rule: dropped.cases) auto

lemma usv_Cons: "\<not> lead_unit x \<Longrightarrow> usv (x # s) = (if trail_unit x then 65533 else ucast x) # usv s"
  by (cases s) auto

lemma usv_lone: "lead_unit x \<Longrightarrow> \<not> trail_unit y \<Longrightarrow> usv (x # dropped (y # s)) = 65533 # usv (dropped (y # s))"
  using dropped_hd [of y s] by auto

text \<open>The bytes of a text, and of a text whose first unit is a pending lead surrogate.\<close>

definition text_bytes :: "jsstring \<Rightarrow> byte list" where
  "text_bytes s = concat (map utf8_of (usv (dropped s)))"

definition pending_bytes :: "code_unit \<Rightarrow> jsstring \<Rightarrow> byte list" where
  "pending_bytes l s = (if s = [] then [] else text_bytes (l # s))"

lemma text_bytes_simps:
  "text_bytes [] = []" "pending_bytes l [] = []"
  "\<not> lead_unit x \<Longrightarrow> text_bytes (x # s) = utf8_of (if trail_unit x then 65533 else ucast x) @ text_bytes s"
  "lead_unit x \<Longrightarrow> text_bytes [x] = utf8_of 65533"
  "lead_unit x \<Longrightarrow> s \<noteq> [] \<Longrightarrow> text_bytes (x # s) = pending_bytes x s"
  "lead_unit l \<Longrightarrow> lead_unit x \<Longrightarrow> pending_bytes l (x # s) = utf8_of 65533 @ pending_bytes x s"
  "lead_unit l \<Longrightarrow> trail_unit x \<Longrightarrow> pending_bytes l (x # s) = utf8_of (join_units l x) @ text_bytes s"
  "lead_unit l \<Longrightarrow> \<not> lead_unit x \<Longrightarrow> \<not> trail_unit x \<Longrightarrow>
     pending_bytes l (x # s) = utf8_of 65533 @ utf8_of (ucast x) @ text_bytes s"
  by (cases "s = []";
      simp add: text_bytes_def pending_bytes_def dropped_lead usv_lone dropped_Cons dropped_pair usv_Cons
        unit_classes(5,6))+

lemma utf8_loop_text:
  shows "utf8_loop None None s i = Inr (i @ text_bytes s)"
  and "lead_unit l \<Longrightarrow> utf8_loop None (Some (ucast l)) s i = Inr (i @ pending_bytes l s)"
proof (induction s arbitrary: i l)
  case (Cons x s)
  { case 1
    consider "\<not> lead_unit x" | "lead_unit x" "s = []" | "lead_unit x" "s \<noteq> []" by blast
    then show ?case
      by cases (simp_all add: utf8_loop_unlimited text_bytes_simps Cons.IH del: utf8_loop.simps(2))
  next
    case 2
    consider "lead_unit x" | "trail_unit x" "\<not> lead_unit x" | "\<not> lead_unit x" "\<not> trail_unit x"
      using unit_classes(5) by blast
    then show ?case
      by cases (use 2 in \<open>simp_all add: utf8_loop_unlimited text_bytes_simps Cons.IH
        del: utf8_loop.simps(2)\<close>) }
qed (simp_all add: text_bytes_simps)

section \<open>Decoding encoded text\<close>

lemma code_points_chunks_eq: "code_points_chunks e r n = n @ map ucast (drop r e)"
proof (induction e r n rule: code_points_chunks.induct)
  case (1 e r n)
  have "drop r e = take 4096 (drop r e) @ drop (r + 4096) e"
    by (metis append_take_drop_id drop_drop add.commute)
  then have "map (ucast :: u32 \<Rightarrow> code_unit) (drop r e) =
      map ucast (take 4096 (drop r e)) @ map ucast (drop (r + 4096) e)"
    by (metis map_append)
  with 1 show ?case by (subst code_points_chunks.simps) (simp add: fromCharCode_def)
qed

lemma decodeCodePointsArray_eq: "decodeCodePointsArray e = map ucast e"
  by (simp add: decodeCodePointsArray_def fromCharCode_def code_points_chunks_eq)

lemma utf8_slice_loop_append: "utf8_slice_loop e n k (q @ r) = q @ utf8_slice_loop e n k r"
proof (induction e n k r arbitrary: q rule: utf8_slice_loop.induct)
  case (1 e n k r)
  then show ?case
    by (auto simp: utf8_slice_loop.simps [of e n k] split: option.split)
qed

lemma utf8_slice_loop_text:
  "\<forall>c \<in> set cs. scalar c \<Longrightarrow> e = pre @ concat (map utf8_of cs) @ post \<Longrightarrow>
   n = length pre + length (concat (map utf8_of cs)) \<Longrightarrow>
   utf8_slice_loop e n (length pre) r = r @ concat (map utf16_units cs)"
proof (induction cs arbitrary: pre r)
  case Nil
  then show ?case by (simp add: utf8_slice_loop.simps)
next
  case (Cons c cs)
  have c: "scalar c" "c < 1114112" using Cons.prems(1) by (auto simp: scalar_def word_less_nat_alt)
  have "utf8_decode1 e (length pre) n = (length (utf8_of c), Some c)"
    using Cons.prems(2,3) code_point_bytes_scalar [OF c(2)] c(1)
    by (intro utf8_decode1_scalar [of _ _ _ "length (concat (map utf8_of cs))"])
      (auto simp: nth_append)
  moreover have "length (utf8_of c) > 0"
    using utf8_decode1_pos [of e "length pre" n] calculation by simp
  moreover have "utf8_slice_loop e n (length (pre @ utf8_of c)) (r @ utf16_units c) =
      (r @ utf16_units c) @ concat (map utf16_units cs)"
    using Cons.prems by (intro Cons.IH) auto
  ultimately show ?case using Cons.prems(3)
    by (subst utf8_slice_loop.simps) simp
qed

lemma utf8Slice_text:
  assumes "\<forall>c \<in> set cs. scalar c"
  shows "utf8Slice (concat (map utf8_of cs)) 0 (length (concat (map utf8_of cs))) = concat (map utf16_of cs)"
  using utf8_slice_loop_text [OF assms, of _ "[]" "[]" _ "[]"]
  by (simp add: utf8Slice_def decodeCodePointsArray_eq utf16_of_def [abs_def] map_concat comp_def)

lemma usv_scalar: "\<forall>c \<in> set (usv s). scalar c"
proof (induction s rule: usv.induct)
  have u: "\<not> lead_unit x \<Longrightarrow> \<not> trail_unit x \<Longrightarrow> scalar (ucast x)" for x
    using unat_unit [of x]
    by (auto simp: scalar_def lead_unit_def trail_unit_def word_less_nat_alt unat_ucast_unit)
  {
    case (2 x)
    then show ?case using u by (simp add: scalar_def)
  next
    case (3 x y s)
    then show ?case using u join_units_lt [of x y]
      by (auto simp: scalar_def word_less_nat_alt)
  }
qed simp

lemma surrogate_tag_nat:
  "x < 1024 \<Longrightarrow> unat (x OR 55296 :: u32) = unat x + 55296"
  "x < 1024 \<Longrightarrow> unat (x OR 56320 :: u32) = unat x + 56320"
proof -
  have "(55296 :: u32) = push_bit 10 54" "(56320 :: u32) = push_bit 10 55" by simp_all
  then have "bit (55296 :: u32) i \<Longrightarrow> 10 \<le> i" "bit (56320 :: u32) i \<Longrightarrow> 10 \<le> i" for i
    by (metis bit_push_bit_iff)+
  then show "x < 1024 \<Longrightarrow> unat (x OR 55296 :: u32) = unat x + 55296"
    "x < 1024 \<Longrightarrow> unat (x OR 56320 :: u32) = unat x + 56320"
    using or_tag_nat [of x 10 55296] or_tag_nat [of x 10 56320]
    by (simp_all add: word_less_nat_alt)
qed

lemma utf16_of_join:
  assumes "lead_unit x" "trail_unit y"
  shows "utf16_of (join_units x y) = [x, y]"
proof -
  define c where "c = join_units x y - 65536"
  have u: "unat c = (unat y - 56320) + (unat x - 55296) * 1024"
    using unat_join_units [OF assms] join_units_lt [OF assms]
    by (simp add: c_def unat_sub word_le_nat_alt)
  have s: "unat (drop_bit 10 c AND 1023) = unat x - 55296" "unat (c AND 1023) = unat y - 56320"
    using unat_join_units(2,3) [OF assms] unfolding unat_and_1023 unat_shift_word u by simp_all
  then have "unat (drop_bit 10 c AND 1023 OR 55296) = unat x" "unat (c AND 1023 OR 56320) = unat y"
    using surrogate_tag_nat(1) [of "drop_bit 10 c AND 1023"] surrogate_tag_nat(2) [of "c AND 1023"]
      unat_join_units(2,3) [OF assms] assms
    by (auto simp: word_less_nat_alt lead_unit_def trail_unit_def)
  then have "drop_bit 10 c AND 1023 OR 55296 = ucast x" "c AND 1023 OR 56320 = ucast y"
    by (simp_all only: word_unat_eq_iff unat_ucast_unit)
  then show ?thesis
    using join_units_lt [OF assms]
    by (simp add: utf16_of_def utf16_units_def Let_def ucast_unit_id or.commute [of 56320] and.commute [of 1023]
        flip: c_def)
qed

lemma utf16_of_unit: "utf16_of (ucast x) = [x]"
  using unat_unit [of x]
  by (simp add: utf16_of_def utf16_units_def word_less_nat_alt unat_ucast_unit ucast_unit_id)

lemma usv_well_formed: "well_formed s \<Longrightarrow> concat (map utf16_of (usv s)) = s"
proof (induction s rule: usv.induct)
  case (3 x y s)
  then show ?case
    by (cases "lead_unit x") (simp_all add: utf16_of_join utf16_of_unit)
qed (simp_all add: utf16_of_unit)

lemma dropped_well_formed: "well_formed s \<Longrightarrow> dropped s = s"
proof (induction s rule: well_formed.induct)
  case (3 x y s)
  then show ?case
    by (cases "lead_unit x") (simp_all add: dropped_pair dropped_Cons unit_classes)
qed simp_all


section \<open>What the decoder produces\<close>

lemma utf8_decode1_is_scalar: "snd (utf8_decode1 e k n) = Some c \<Longrightarrow> scalar c"
  using join_bounds(1) [of "to_u32 (item_at e k)" "to_u32 (item_at e (k + 1))"]
    join_bounds(2) [of "to_u32 (item_at e k)" "to_u32 (item_at e (k + 1))" "to_u32 (item_at e (k + 2))"]
  by (auto simp: utf8_decode1_def Let_def scalar_def word_less_nat_alt split: if_splits)

lemma utf8_slice_loop_scalars:
  "\<exists>cs. (\<forall>c \<in> set cs. scalar c) \<and> utf8_slice_loop e n k r = r @ concat (map utf16_units cs)"
proof (induction e n k r rule: utf8_slice_loop.induct)
  case (1 e n k r)
  show ?case
  proof (cases "k < n")
    case True
    then obtain c cs m where "scalar c" "\<forall>c \<in> set cs. scalar c"
      "utf8_slice_loop e n k r = utf8_slice_loop e n m (r @ utf16_units c)"
      "utf8_slice_loop e n m (r @ utf16_units c) = (r @ utf16_units c) @ concat (map utf16_units cs)"
    proof (cases "snd (utf8_decode1 e k n)")
      case None
      have "scalar 65533" "utf16_units 65533 = [65533]" by (simp_all add: scalar_def utf16_units_def)
      with that [of 65533] 1(1) True None show thesis
        by (metis (no_types, lifting) option.simps(4) utf8_slice_loop.simps)
    next
      case (Some c)
      with that [of c] 1(2) True utf8_decode1_is_scalar [OF Some] show thesis
        by (metis (no_types, lifting) option.simps(5) utf8_slice_loop.simps)
    qed
    then show ?thesis by (intro exI [of _ "c # cs"]) simp
  next
    case False
    then show ?thesis by (intro exI [of _ "[]"]) (simp add: utf8_slice_loop.simps)
  qed
qed

lemma utf16_of_cases:
  assumes "scalar c"
  obtains x where "utf16_of c = [x]" "\<not> lead_unit x" "\<not> trail_unit x"
  | x y where "utf16_of c = [x, y]" "lead_unit x" "trail_unit y"
proof (cases "c > 65535")
  case True
  define d where "d = c - 65536"
  have "unat (drop_bit 10 d AND 1023) < 1024" "unat (1023 AND d) < 1024"
    by (simp_all add: unat_and_1023 and.commute [of 1023])
  then have "unat (drop_bit 10 d AND 1023 OR 55296) \<in> {55296..<56320}" 
    "unat (56320 OR (1023 AND d)) \<in> {56320..<57344}"
    using surrogate_tag_nat(1) [of "drop_bit 10 d AND 1023"] surrogate_tag_nat(2) [of "1023 AND d"]
    by (simp_all add: word_less_nat_alt or.commute [of 56320])
  then have "lead_unit (ucast (drop_bit 10 d AND 1023 OR 55296))" "trail_unit (ucast (56320 OR (1023 AND d)))"
    by (simp_all add: lead_unit_def trail_unit_def word_less_nat_alt unat_ucast_16)
  with that(2) True show ?thesis by (simp add: utf16_of_def utf16_units_def Let_def flip: d_def)
next
  case False
  then have "unat (ucast c :: code_unit) = unat c" by (simp add: word_less_nat_alt unat_ucast_16)
  with assms False that(1) [of "ucast c"] show ?thesis
    by (auto simp: utf16_of_def utf16_units_def scalar_def lead_unit_def trail_unit_def word_less_nat_alt)
qed

lemma well_formed_append_unit:
  "\<not> lead_unit x \<Longrightarrow> \<not> trail_unit x \<Longrightarrow> well_formed (x # s) = well_formed s"
  by (cases s) auto

lemma well_formed_utf16: "\<forall>c \<in> set cs. scalar c \<Longrightarrow> well_formed (concat (map utf16_of cs))"
proof (induction cs)
  case (Cons c cs)
  then have "scalar c" and IH: "well_formed (concat (map utf16_of cs))" by simp_all
  then show ?case by (cases c rule: utf16_of_cases) (simp_all add: well_formed_append_unit)
qed simp

lemma utf8Slice_well_formed: "well_formed (utf8Slice e t n)"
proof -
  obtain cs where "\<forall>c \<in> set cs. scalar c"
    "utf8_slice_loop e (min (length e) n) t [] = concat (map utf16_units cs)"
    using utf8_slice_loop_scalars [of e "min (length e) n" t "[]"] by auto
  then show ?thesis
    using well_formed_utf16 [of cs]
    by (simp add: utf8Slice_def decodeCodePointsArray_eq utf16_of_def [abs_def] map_concat comp_def)
qed

section \<open>The byte budget\<close>


lemma utf8_emit_limited:
  "c < 1114112 \<Longrightarrow> utf8_emit (Some t) c s i =
     (if int (length (utf8_of c)) \<le> t
      then utf8_loop (Some (t - int (length (utf8_of c)))) None s (i @ utf8_of c) else Inr i)"
  by (auto simp add: code_point_bytes_scalar spend_def fits_def)

definition within_budget :: "int \<Rightarrow> byte list \<Rightarrow> byte list result \<Rightarrow> byte list \<Rightarrow> bool" where
  "within_budget t i r full \<longleftrightarrow>
     (\<exists>q z. r = Inr (i @ q) \<and> q @ z = full \<and> int (length q) \<le> max 0 t \<and>
            (int (length full) \<le> t \<longrightarrow> z = []))"

lemma within_budget_Nil: "full = [] \<or> t < int (length full) \<Longrightarrow> within_budget t i (Inr i) full"
  unfolding within_budget_def by fastforce

lemma within_budget_prepend:
  assumes "within_budget (t - int (length b)) (i @ b) r full" "int (length b) \<le> t"
  shows "within_budget t i r (b @ full)"
  using assms unfolding within_budget_def by fastforce

lemma within_budget_skip:
  assumes "within_budget (t - int (length b)) i r full" "t < int (length b)"
  shows "within_budget t i r (b @ full)"
  using assms unfolding within_budget_def by auto

lemma length_replacement: "length (utf8_of 65533) = 3"
  by (simp flip: replacement_utf8) (simp add: replacement_def)

lemma within_budget_emit:
  assumes "c < 1114112" and "\<And>t i. within_budget t i (utf8_loop (Some t) None s i) (text_bytes s)"
  shows "within_budget t i (utf8_emit (Some t) c s i) (utf8_of c @ text_bytes s)"
  using assms(2) 
  by (simp add: utf8_emit_limited [OF assms(1)] within_budget_prepend within_budget_Nil del: utf8_emit.simps)

lemma within_budget_replace:
  assumes "\<And>t i. within_budget t i (f t i) full"
  shows "within_budget t i (f (t - 3) (if 3 \<le> t then i @ utf8_of 65533 else i)) (utf8_of 65533 @ full)"
  using assms within_budget_prepend [of t "utf8_of 65533" i] within_budget_skip [of t "utf8_of 65533" i]
  by (auto simp: length_replacement)

lemma utf8_loop_limited:
  "\<not> lead_unit x \<Longrightarrow> trail_unit x \<Longrightarrow> utf8_loop (Some t) None (x # s) i =
     utf8_loop (Some (t - 3)) None s (if 3 \<le> t then i @ utf8_of 65533 else i)"
  "\<not> lead_unit x \<Longrightarrow> \<not> trail_unit x \<Longrightarrow> utf8_loop (Some t) None (x # s) i = utf8_emit (Some t) (ucast x) s i"
  "lead_unit x \<Longrightarrow> utf8_loop (Some t) None [x] i = Inr (if 3 \<le> t then i @ utf8_of 65533 else i)"
  "lead_unit x \<Longrightarrow> s \<noteq> [] \<Longrightarrow>
     utf8_loop (Some t) None (x # s) i = utf8_loop (Some t) (Some (ucast x)) s i"
  "lead_unit x \<Longrightarrow> utf8_loop (Some t) (Some l) (x # s) i =
     utf8_loop (Some (t - 3)) (Some (ucast x)) s (if 3 \<le> t then i @ utf8_of 65533 else i)"
  "lead_unit l' \<Longrightarrow> trail_unit x \<Longrightarrow>
     utf8_loop (Some t) (Some (ucast l')) (x # s) i = utf8_emit (Some t) (join_units l' x) s i"
  "\<not> lead_unit x \<Longrightarrow> \<not> trail_unit x \<Longrightarrow> utf8_loop (Some t) (Some l) (x # s) i =
     utf8_emit (Some (t - 3)) (ucast x) s (if 3 \<le> t then i @ utf8_of 65533 else i)"
  by (simp_all add: Let_def unit_classes replacement_utf8 spend_def fits_def
      flip: join_units_def del: utf8_emit.simps)

lemma utf8_loop_budget:
  shows "within_budget t i (utf8_loop (Some t) None s i) (text_bytes s)"
  and "lead_unit l \<Longrightarrow> within_budget t i (utf8_loop (Some t) (Some (ucast l)) s i) (pending_bytes l s)"
proof (induction s arbitrary: t i l)
  case Nil
  { case 1 show ?case by (simp add: within_budget_Nil text_bytes_simps) next
    case 2 show ?case by (simp add: within_budget_Nil text_bytes_simps) }
next
  case (Cons x s)
  note emit = within_budget_emit [OF _ Cons.IH(1)]
  note steps = utf8_loop_limited text_bytes_simps
  { case 1
    consider "trail_unit x" "\<not> lead_unit x" | "\<not> lead_unit x" "\<not> trail_unit x"
      | "lead_unit x" "s = []" | "lead_unit x" "s \<noteq> []" using unit_classes(5) by blast
    then show ?case
    proof cases
      case 1
      then show ?thesis using within_budget_replace [OF Cons.IH(1)] by (simp add: steps del: utf8_loop.simps)
    next
      case 2
      then show ?thesis using emit [of "ucast x"] by (simp add: steps unit_classes del: utf8_loop.simps utf8_emit.simps)
    next
      case 3
      then show ?thesis using within_budget_replace [of "\<lambda>t i. Inr i" "[]"]
        by (simp add: steps within_budget_Nil del: utf8_loop.simps)
    next
      case 4
      then show ?thesis using Cons.IH(2) by (simp add: steps del: utf8_loop.simps)
    qed
  next
    case 2
    consider "lead_unit x" | "trail_unit x" "\<not> lead_unit x" | "\<not> lead_unit x" "\<not> trail_unit x"
      using unit_classes(5) by blast
    then show ?case
    proof cases
      case 1
      then show ?thesis using 2 within_budget_replace [OF Cons.IH(2)] by (simp add: steps del: utf8_loop.simps)
    next
      case t: 2
      then show ?thesis using 2 emit join_units_lt
        by (simp add: steps del: utf8_loop.simps utf8_emit.simps)
    next
      case 3
      then show ?thesis using 2 within_budget_replace [of "\<lambda>t i. utf8_emit (Some t) (ucast x) s i", OF emit]
        by (simp add: steps unit_classes del: utf8_loop.simps utf8_emit.simps)
    qed }
qed

lemma utf8ToBytes_fits:
  assumes "utf8ToBytes s None = Inr b" "int (length b) \<le> t"
  shows "utf8ToBytes s (Some t) = Inr b"
proof (cases "t = 0")
  case False
  have "b = text_bytes s" using assms(1) by (simp add: utf8ToBytes_def utf8_loop_text(1))
  then show ?thesis
    using utf8_loop_budget(1) [of t "[]" s] False assms(2) by (auto simp: utf8ToBytes_def within_budget_def)
qed (use assms in \<open>simp add: utf8ToBytes_def\<close>)

lemma utf8ToBytes_total: "utf8ToBytes s None = Inr (text_bytes s)"
  by (simp add: utf8ToBytes_def utf8_loop_text(1))

section \<open>Properties\<close>

text \<open>
  C29: encoding a string as UTF-8 without a byte budget never fails, and what it yields is the UTF-8
  form, as given by arithmetic on code points, of the string's scalar values, with \<open>U+FFFD\<close> for each lone
  surrogate; only the second of two lead surrogates that end the string is lost (\<open>dropped\<close>).
\<close>

theorem utf8ToBytes_encodes_text:
  "utf8ToBytes s None = Inr (concat (map utf8_of (usv (dropped s))))"
  by (simp add: utf8ToBytes_def utf8_loop_text(1) text_bytes_def)

text \<open>
  C1: a string without lone surrogates survives the trip through UTF-8: \<open>utf8Slice\<close> of the whole
  encoding is the string itself.
\<close>

theorem utf8_roundtrip:
  assumes "well_formed s"
  shows "\<exists>b. utf8ToBytes s None = Inr b \<and> utf8Slice b 0 (length b) = s"
proof -
  have "utf8ToBytes s None = Inr (concat (map utf8_of (usv s)))"
    using assms
    by (simp add: utf8ToBytes_def utf8_loop_text(1) text_bytes_def dropped_well_formed)
  then show ?thesis
    using utf8Slice_text [OF usv_scalar, of s] usv_well_formed [OF assms] by auto
qed

theorem utf8_roundtrip_witness:
  "well_formed [104, 8364, 55357, 56832] \<and>
   (\<exists>b. utf8ToBytes [104, 8364, 55357, 56832] None = Inr b \<and>
        utf8Slice b 0 (length b) = [104, 8364, 55357, 56832])"
proof -
  have "well_formed [104, 8364, 55357, 56832]"
    by (simp add: lead_unit_def trail_unit_def)
  then show ?thesis using utf8_roundtrip [of "[104, 8364, 55357, 56832]"] by blast
qed

text \<open>
  C32: whatever bytes it is given, \<open>utf8Slice\<close> returns a string whose surrogates are all paired.
\<close>

theorem utf8Slice_is_well_formed: "well_formed (utf8Slice e t n)"
  by (rule utf8Slice_well_formed)

text \<open>
  C33: under a positive byte budget, \<open>utf8ToBytes\<close> returns at most that many bytes, and they are an
  initial part of the unlimited encoding: all of it when the budget is large enough.
\<close>

theorem utf8ToBytes_within_budget:
  assumes "0 < t"
  shows "\<exists>q z. utf8ToBytes s (Some t) = Inr q \<and> int (length q) \<le> t \<and> utf8ToBytes s None = Inr (q @ z)
    \<and> (int (length (q @ z)) \<le> t \<longrightarrow> z = [])"
proof -
  obtain q z where "utf8_loop (Some t) None s [] = Inr q" "q @ z = text_bytes s" "int (length q) \<le> t"
    "int (length (text_bytes s)) \<le> t \<longrightarrow> z = []"
    using utf8_loop_budget(1) [of t "[]" s] assms by (auto simp: within_budget_def)
  then show ?thesis
    using assms by (intro exI [of _ q] exI [of _ z]) (simp add: utf8ToBytes_def utf8_loop_text(1))
qed

theorem utf8ToBytes_within_budget_witness:
  "0 < (4 :: int) \<and>
   (\<exists>q z. utf8ToBytes [104, 8364, 8364] (Some 4) = Inr q \<and> int (length q) \<le> 4 \<and>
          utf8ToBytes [104, 8364, 8364] None = Inr (q @ z) \<and> (int (length (q @ z)) \<le> 4 \<longrightarrow> z = []))"
  using utf8ToBytes_within_budget [of 4 "[104, 8364, 8364]"] by simp

text \<open>
  Two lead surrogates in a row at the end of a string encode to one replacement character, while
  the same two units one position earlier encode to two: the encoder drops the last unit.
\<close>

lemma utf8ToBytes_loses_trailing_lead:
  assumes "lead_unit x" "lead_unit y"
  shows "utf8ToBytes [x, y] None = Inr [239, 191, 189] \<and>
    utf8ToBytes [x, y, 65] None = Inr [239, 191, 189, 239, 191, 189, 65]"
proof -
  have "\<not> lead_unit 65" "\<not> trail_unit 65" by (simp_all add: lead_unit_def trail_unit_def)
  then show ?thesis
    using assms replacement_utf8
    by (simp add: utf8ToBytes_def utf8_loop_text(1) text_bytes_simps unit_classes replacement_def)
      (simp add: utf8_of_def code_point_bytes_def)
qed

lemma utf8ToBytes_loses_trailing_lead_witness:
  "lead_unit 55296 \<and> lead_unit 56319 \<and> utf8ToBytes [55296, 56319] None = Inr [239, 191, 189] \<and>
   utf8ToBytes [55296, 56319, 65] None = Inr [239, 191, 189, 239, 191, 189, 65]"
proof -
  have "lead_unit 55296" "lead_unit 56319" by (simp_all add: lead_unit_def)
  then show ?thesis using utf8ToBytes_loses_trailing_lead [of 55296 56319] by blast
qed

end
