(* ===== verification/Buffer_Text.thy ===== *)
theory Buffer_Text
  imports Base64 Buffer_Utf8
begin

text \<open>
  Strings in and out of the bundled \<open>Buffer\<close>: the names of the encodings, \<open>byteLength\<close>, \<open>write\<close> with
  one writer per encoding and their common \<open>blitBuffer\<close>, \<open>toString\<close> with one slice function per
  encoding, and \<open>Buffer.from\<close> of a string. A buffer is the list of its bytes.

  The optional arguments of \<open>write\<close> may be numbers or encoding names (\<open>arg\<close>). Encoding names are not
  numerals, so \<open>isFinite\<close> holds of numbers only.
\<close>

section \<open>Encoding names\<close>

datatype encoding = Hex | Utf8 | Ascii | Latin1 | Base64 | Ucs2

definition encoding_case :: "jsstring \<Rightarrow> encoding option" where
  "encoding_case e =
     (if e = lit ''hex'' then Some Hex
      else if e = lit ''utf8'' \<or> e = lit ''utf-8'' then Some Utf8
      else if e = lit ''ascii'' then Some Ascii
      else if e = lit ''latin1'' \<or> e = lit ''binary'' then Some Latin1
      else if e = lit ''base64'' then Some Base64
      else if e = lit ''ucs2'' \<or> e = lit ''ucs-2'' \<or> e = lit ''utf16le'' \<or> e = lit ''utf-16le'' then Some Ucs2
      else None)"

definition isEncoding :: "jsstring \<Rightarrow> bool" where
  "isEncoding e = (encoding_case (toLowerCase e) \<noteq> None)"

text \<open>The \<open>switch\<close> inside \<open>for (;;)\<close>: the name as it is, then once more in lower case.\<close>

definition resolve_encoding :: "jsstring \<Rightarrow> encoding option" where
  "resolve_encoding e =
     (case encoding_case e of Some c \<Rightarrow> Some c | None \<Rightarrow> encoding_case (toLowerCase e))"

section \<open>Writers\<close>

text \<open>\<open>blitBuffer\<close> (\<open>B\<close>): the loop over \<open>o\<close>; the result is the buffer and the number of bytes.\<close>

function blit_loop :: "byte list \<Rightarrow> byte list \<Rightarrow> int \<Rightarrow> int \<Rightarrow> nat \<Rightarrow> byte list \<times> nat" where
  "blit_loop e t n r k =
     (if int k < r \<and> \<not> (int k + n \<ge> int (length t) \<or> k \<ge> length e)
      then blit_loop e (u8_set t (int k + n) (uint (e ! k))) n r (k + 1)
      else (t, k))"
  by pat_completeness auto
termination
  by (relation "measure (\<lambda>(e, t, n, r, k). length e - k)") auto

declare blit_loop.simps [simp del]

definition blitBuffer :: "byte list \<Rightarrow> byte list \<Rightarrow> int \<Rightarrow> int \<Rightarrow> byte list \<times> nat" where
  "blitBuffer e t n r = blit_loop e t n r 0"

function hex_write_loop :: "byte list \<Rightarrow> jsstring \<Rightarrow> int \<Rightarrow> int \<Rightarrow> nat \<Rightarrow> byte list \<times> nat" where
  "hex_write_loop e t n r a =
     (if int a < r
      then (case parseInt16 (take 2 (drop (2 * a) t)) of
              None \<Rightarrow> (e, a)
            | Some u \<Rightarrow> hex_write_loop (u8_set e (n + int a) u) t n r (a + 1))
      else (e, a))"
  by pat_completeness auto
termination
  by (relation "measure (\<lambda>(e, t, n, r, a). nat (r - int a))") auto

declare hex_write_loop.simps [simp del]

definition hexWrite :: "byte list \<Rightarrow> jsstring \<Rightarrow> int \<Rightarrow> int \<Rightarrow> (byte list \<times> nat) result" where
  "hexWrite e t n r =
     (let o' = int (length e) - n;
          r = (if r \<noteq> 0 then (if r > o' then o' else r) else o');
          i = length t
      in if i mod 2 \<noteq> 0 then Inl (TypeError ''Invalid hex string'')
         else (let r = (if r > int (i div 2) then int (i div 2) else r)
               in Inr (hex_write_loop e t n r 0)))"

definition utf8Write :: "byte list \<Rightarrow> jsstring \<Rightarrow> int \<Rightarrow> int \<Rightarrow> (byte list \<times> nat) result" where
  "utf8Write e t n r =
     (case utf8ToBytes t (Some (int (length e) - n)) of Inl err \<Rightarrow> Inl err
      | Inr bs \<Rightarrow> Inr (blitBuffer bs e n r))"

definition asciiToBytes :: "jsstring \<Rightarrow> byte list" where
  "asciiToBytes s = map (\<lambda>c. ucast (255 AND c)) s"

definition asciiWrite :: "byte list \<Rightarrow> jsstring \<Rightarrow> int \<Rightarrow> int \<Rightarrow> (byte list \<times> nat) result" where
  "asciiWrite e t n r = Inr (blitBuffer (asciiToBytes t) e n r)"

definition latin1Write :: "byte list \<Rightarrow> jsstring \<Rightarrow> int \<Rightarrow> int \<Rightarrow> (byte list \<times> nat) result" where
  "latin1Write e t n r = asciiWrite e t n r"

text \<open>\<open>base64clean\<close> and \<open>base64ToBytes\<close> (\<open>z\<close>): keep the alphabet, then pad to a multiple of 4.\<close>

definition base64_char :: "code_unit \<Rightarrow> bool" where
  "base64_char c = (c = 43 \<or> c = 47 \<or> 48 \<le> c \<and> c \<le> 57 \<or> 65 \<le> c \<and> c \<le> 90 \<or> 97 \<le> c \<and> c \<le> 122
     \<or> c = 45 \<or> c = 95)"

definition base64clean :: "jsstring \<Rightarrow> jsstring" where
  "base64clean e =
     (let e = filter base64_char (trim e)
      in if length e < 2 then []
         else e @ replicate ((4 - length e mod 4) mod 4) 61)"

definition base64ToBytes :: "jsstring \<Rightarrow> byte list result" where
  "base64ToBytes e = toByteArray (base64clean e)"

definition base64Write :: "byte list \<Rightarrow> jsstring \<Rightarrow> int \<Rightarrow> int \<Rightarrow> (byte list \<times> nat) result" where
  "base64Write e t n r =
     (case base64ToBytes t of Inl err \<Rightarrow> Inl err | Inr bs \<Rightarrow> Inr (blitBuffer bs e n r))"

text \<open>\<open>utf16leToBytes\<close>: two bytes per unit, as long as the budget \<open>t\<close> allows.\<close>

fun utf16leToBytes :: "jsstring \<Rightarrow> int \<Rightarrow> byte list" where
  "utf16leToBytes [] t = []"
| "utf16leToBytes (c # s) t =
     (if t - 2 < 0 then []
      else of_int (uint c mod 256) # of_int (uint (drop_bit 8 c)) # utf16leToBytes s (t - 2))"

definition ucs2Write :: "byte list \<Rightarrow> jsstring \<Rightarrow> int \<Rightarrow> int \<Rightarrow> (byte list \<times> nat) result" where
  "ucs2Write e t n r = Inr (blitBuffer (utf16leToBytes t (int (length e) - n)) e n r)"

fun write_as :: "encoding \<Rightarrow> byte list \<Rightarrow> jsstring \<Rightarrow> int \<Rightarrow> int \<Rightarrow> (byte list \<times> nat) result" where
  "write_as Hex = hexWrite"
| "write_as Utf8 = utf8Write"
| "write_as Ascii = asciiWrite"
| "write_as Latin1 = latin1Write"
| "write_as Base64 = base64Write"
| "write_as Ucs2 = ucs2Write"

datatype arg = Undefined | Num int | Str jsstring

text \<open>\<open>Buffer.prototype.write(string, offset, length, encoding)\<close> and its shorter forms.\<close>

definition write_args :: "byte list \<Rightarrow> arg \<Rightarrow> arg \<Rightarrow> jsstring option \<Rightarrow> (int \<times> int option \<times> jsstring option) result" where
  "write_args b t n r =
     (case t of
        Undefined \<Rightarrow> Inr (0, Some (int (length b)), Some (lit ''utf8''))
      | Str name \<Rightarrow>
          (if n = Undefined then Inr (0, Some (int (length b)), Some name)
           else Inl (GenericError ''Buffer.write(string, encoding, offset[, length]) is no longer supported''))
      | Num k \<Rightarrow>
          (case n of
             Num m \<Rightarrow> Inr (ToInt32 k, Some (ToInt32 m), Some (case r of None \<Rightarrow> lit ''utf8'' | Some name \<Rightarrow> name))
           | Str name \<Rightarrow> Inr (ToInt32 k, None, Some name)
           | Undefined \<Rightarrow> Inr (ToInt32 k, None, None)))"

definition buffer_write :: "byte list \<Rightarrow> jsstring \<Rightarrow> arg \<Rightarrow> arg \<Rightarrow> jsstring option \<Rightarrow> (byte list \<times> nat) result" where
  "buffer_write b e t n r =
     (case write_args b t n r of Inl err \<Rightarrow> Inl err
      | Inr (t, n, r) \<Rightarrow>
          (let o' = int (length b) - t;
               n = (case n of None \<Rightarrow> o' | Some m \<Rightarrow> if m > o' then o' else m);
               r = (case r of None \<Rightarrow> lit ''utf8'' | Some name \<Rightarrow> if name = [] then lit ''utf8'' else name)
           in if length e > 0 \<and> (n < 0 \<or> t < 0) \<or> t > int (length b)
              then Inl (RangeError ''Attempt to write outside buffer bounds'')
              else (case resolve_encoding r of
                      None \<Rightarrow> Inl (TypeError ''Unknown encoding'')
                    | Some c \<Rightarrow> write_as c b e t n)))"

section \<open>Slices\<close>

definition asciiSlice :: "byte list \<Rightarrow> nat \<Rightarrow> nat \<Rightarrow> jsstring" where
  "asciiSlice e t n = map (\<lambda>k. ucast (127 AND e ! k)) [t..<min (length e) n]"

definition latin1Slice :: "byte list \<Rightarrow> nat \<Rightarrow> nat \<Rightarrow> jsstring" where
  "latin1Slice e t n = map (\<lambda>k. ucast (e ! k)) [t..<min (length e) n]"

definition hex_char :: "nat \<Rightarrow> code_unit" where
  "hex_char d = of_nat (if d < 10 then 48 + d else 87 + d)"

text \<open>\<open>toHex\<close> (\<open>q\<close>): \<open>toString(16)\<close> of a byte with a leading zero below 16.\<close>

definition toHex :: "byte \<Rightarrow> jsstring" where
  "toHex b =
     (if b < 16 then 48 # [hex_char (unat b)] else [hex_char (unat b div 16), hex_char (unat b mod 16)])"

definition hexSlice :: "byte list \<Rightarrow> nat \<Rightarrow> nat \<Rightarrow> jsstring" where
  "hexSlice e t n =
     (let n = (if n = 0 \<or> n > length e then length e else n)
      in concat (map (\<lambda>k. toHex (e ! k)) [t..<n]))"

definition base64Slice :: "byte list \<Rightarrow> nat \<Rightarrow> nat \<Rightarrow> jsstring" where
  "base64Slice e t n =
     (if t = 0 \<and> n = length e then fromByteArray e else fromByteArray (take (n - t) (drop t e)))"

text \<open>A last single byte is paired with \<open>undefined\<close>; the unit is then \<open>NaN\<close>, that is 0.\<close>

fun units_le :: "byte list \<Rightarrow> jsstring" where
  "units_le [] = []"
| "units_le [x] = [0]"
| "units_le (x # y # r) = of_int (uint x + 256 * uint y) # units_le r"

definition utf16leSlice :: "byte list \<Rightarrow> nat \<Rightarrow> nat \<Rightarrow> jsstring" where
  "utf16leSlice e t n = units_le (take (n - t) (drop t e))"

fun slice_as :: "encoding \<Rightarrow> byte list \<Rightarrow> nat \<Rightarrow> nat \<Rightarrow> jsstring" where
  "slice_as Hex = hexSlice"
| "slice_as Utf8 = utf8Slice"
| "slice_as Ascii = asciiSlice"
| "slice_as Latin1 = latin1Slice"
| "slice_as Base64 = base64Slice"
| "slice_as Ucs2 = utf16leSlice"

definition toString :: "byte list \<Rightarrow> jsstring option \<Rightarrow> int option \<Rightarrow> int option \<Rightarrow> jsstring result" where
  "toString b e t n =
     (let len = int (length b);
          t = (case t of None \<Rightarrow> 0 | Some t \<Rightarrow> if t < 0 then 0 else t);
          n' = (case n of None \<Rightarrow> len | Some n \<Rightarrow> if n > len then len else n);
          e = (case e of None \<Rightarrow> lit ''utf8'' | Some e \<Rightarrow> if e = [] then lit ''utf8'' else e)
      in if len = 0 then Inr []
         else if t > len then Inr []
         else if n' \<le> 0 then Inr []
         else if ToUint32 n' \<le> ToUint32 t then Inr []
         else (case resolve_encoding e of
                 None \<Rightarrow> Inl (TypeError ''Unknown encoding'')
               | Some c \<Rightarrow> Inr (slice_as c b (nat (ToUint32 t)) (nat (ToUint32 n')))))"

section \<open>From a string\<close>

definition kMaxLength :: "bool \<Rightarrow> int" where
  "kMaxLength typed = (if typed then 2147483647 else 1073741823)"

text \<open>\<open>byteLength\<close> (\<open>h\<close>) of a string: an unknown encoding counts as UTF-8.\<close>

fun byte_length_as :: "encoding \<Rightarrow> jsstring \<Rightarrow> nat result" where
  "byte_length_as Ascii e = Inr (length e)"
| "byte_length_as Latin1 e = Inr (length e)"
| "byte_length_as Utf8 e = (case utf8ToBytes e None of Inl err \<Rightarrow> Inl err | Inr bs \<Rightarrow> Inr (length bs))"
| "byte_length_as Ucs2 e = Inr (2 * length e)"
| "byte_length_as Hex e = Inr (length e div 2)"
| "byte_length_as Base64 e = (case base64ToBytes e of Inl err \<Rightarrow> Inl err | Inr bs \<Rightarrow> Inr (length bs))"

definition stringByteLength :: "jsstring \<Rightarrow> jsstring option \<Rightarrow> nat result" where
  "stringByteLength e t =
     (if length e = 0 then Inr 0
      else (case t of None \<Rightarrow> byte_length_as Utf8 e
            | Some name \<Rightarrow> (case resolve_encoding name of
                              None \<Rightarrow> byte_length_as Utf8 e | Some c \<Rightarrow> byte_length_as c e)))"

definition createBuffer :: "bool \<Rightarrow> nat \<Rightarrow> byte list result" where
  "createBuffer typed t =
     (if kMaxLength typed < int t then Inl (RangeError ''Invalid typed array length'')
      else Inr (replicate t 0))"

definition fromString :: "bool \<Rightarrow> jsstring \<Rightarrow> jsstring option \<Rightarrow> byte list result" where
  "fromString typed t n =
     (let n = (case n of None \<Rightarrow> lit ''utf8'' | Some name \<Rightarrow> if name = [] then lit ''utf8'' else name)
      in if \<not> isEncoding n then Inl (TypeError ''\"encoding\" must be a valid string encoding'')
         else (case stringByteLength t (Some n) of Inl err \<Rightarrow> Inl err
               | Inr r \<Rightarrow>
                 (case createBuffer typed r of Inl err \<Rightarrow> Inl err
                  | Inr e \<Rightarrow>
                    (case buffer_write e t (Str n) Undefined None of Inl err \<Rightarrow> Inl err
                     | Inr (e, k) \<Rightarrow> Inr (if k \<noteq> r then take k e else e)))))"

section \<open>What the writers store\<close>

lemma blit_loop_puts:
  assumes "m = min r (min (length e) (length t - p))" "k \<le> m" "p \<le> length t"
  shows "blit_loop e t (int p) (int r) k = (put t (p + k) (take (m - k) (drop k e)), m)"
  using assms
proof (induction "m - k" arbitrary: t k)
  case 0
  then have "k = m" using 0(1,3) by linarith
  then show ?case using 0 by (subst blit_loop.simps) auto
next
  case (Suc d)
  have k: "k < m" using Suc.hyps(2) by simp
  then have "k < r" "k < length e" "p + k < length t" using Suc.prems by auto
  note k = k this
  let ?t = "t[p + k := e ! k]"
  have "u8_set t (int k + int p) (uint (e ! k)) = ?t"
    using u8_set_in [of "p + k" t] k by (simp add: add.commute)
  moreover have "take (m - k) (drop k e) = e ! k # take (m - Suc k) (drop (Suc k) e)"
    using k by (metis Cons_nth_drop_Suc Suc_diff_Suc take_Suc_Cons)
  moreover have "blit_loop e ?t (int p) (int r) (Suc k) = (put ?t (p + Suc k) (take (m - Suc k) (drop (Suc k) e)), m)"
  proof (rule Suc.hyps(1))
    show "d = m - Suc k" using Suc.hyps(2) by simp
  qed (use Suc.prems k in simp_all)
  moreover have "p + k + length (take (m - Suc k) (drop (Suc k) e)) < length t" using Suc.prems(1) k by auto
  ultimately show ?case
    using k by (subst blit_loop.simps) (simp add: put_Cons)
qed

lemma blitBuffer_puts:
  assumes "p \<le> length t"
  shows "blitBuffer e t (int p) (int r)
    = (put t p (take (min r (length t - p)) e), min r (min (length e) (length t - p)))"
proof -
  have "take (min r (min (length e) (length t - p))) e = take (min r (length t - p)) e"
    by (metis min.left_commute take_all_iff take_take order_refl)
  then show ?thesis
    using blit_loop_puts [of "min r (min (length e) (length t - p))" r e t p 0] assms by (simp add: blitBuffer_def)
qed

lemma hex_digit_char: "d < 16 \<Longrightarrow> hex_digit (hex_char d) = Some (int d)"
  by (cases "d < 10") (simp_all add: hex_char_def hex_digit_def word_le_nat_alt unat_of_nat uint_nat del: of_nat_add)

lemma hex_digit_plain:
  "hex_digit c = Some d \<Longrightarrow> \<not> is_space c \<and> c \<noteq> 45 \<and> c \<noteq> 43 \<and> c \<noteq> 120 \<and> c \<noteq> 88"
  by (auto simp: hex_digit_def is_space_def word_le_nat_alt split: if_splits)

lemma parseInt16_pair:
  assumes "hex_digit x = Some c" "hex_digit y = Some d"
  shows "parseInt16 [x, y] = Some (16 * c + d)"
  using assms hex_digit_plain [OF assms(1)] hex_digit_plain [OF assms(2)]
  by (simp add: parseInt16_def Let_def lit_def)

lemma toHex_eq: "toHex b = [hex_char (unat b div 16), hex_char (unat b mod 16)]"
proof (cases "unat b < 16")
  case True
  then have "b < 16" by (simp add: word_less_nat_alt)
  then show ?thesis using True by (simp add: toHex_def hex_char_def)
next
  case False
  then have "\<not> b < 16" by (simp add: word_less_nat_alt)
  then show ?thesis by (simp add: toHex_def)
qed

lemma parseInt16_toHex: "parseInt16 (toHex b) = Some (uint b)"
proof -
  define n where "n = unat b"
  have n: "n div 16 < 16" "n mod 16 < 16" using unat_byte [of b] by (simp_all add: n_def)
  have "16 * int (n div 16) + int (n mod 16) = int n"
    by (simp add: zmod_int zdiv_int)
  moreover have "uint b = int n" unfolding n_def by (rule uint_nat)
  ultimately show ?thesis
    unfolding toHex_eq n_def [symmetric]
    using parseInt16_pair [OF hex_digit_char [OF n(1)] hex_digit_char [OF n(2)]] by simp
qed

definition hex_text :: "byte list \<Rightarrow> jsstring" where
  "hex_text bs = concat (map toHex bs)"

lemma length_hex_text [simp]: "length (hex_text bs) = 2 * length bs"
  by (induction bs) (simp_all add: hex_text_def toHex_eq)

lemma hex_text_pair: "k < length bs \<Longrightarrow> take 2 (drop (2 * k) (hex_text bs)) = toHex (bs ! k)"
proof (induction bs arbitrary: k)
  case (Cons x bs)
  then show ?case by (cases k) (simp_all add: hex_text_def toHex_eq)
qed simp

lemma hex_write_loop_puts:
  assumes "r \<le> length bs" "p + r \<le> length e" "a \<le> r"
  shows "hex_write_loop e (hex_text bs) (int p) (int r) a = (put e (p + a) (take (r - a) (drop a bs)), r)"
  using assms
proof (induction "r - a" arbitrary: e a)
  case 0
  then show ?case by (subst hex_write_loop.simps) auto
next
  case (Suc d)
  have a: "a < r" "p + a < length e" "a < length bs" using Suc.hyps(2) Suc.prems by simp_all
  let ?e = "e[p + a := bs ! a]"
  have "u8_set e (int p + int a) (uint (bs ! a)) = ?e"
    using u8_set_in [of "p + a" e] a by simp
  moreover have "take (r - a) (drop a bs) = bs ! a # take (r - Suc a) (drop (Suc a) bs)"
    using a by (metis Cons_nth_drop_Suc Suc_diff_Suc take_Suc_Cons)
  moreover have "hex_write_loop ?e (hex_text bs) (int p) (int r) (Suc a)
      = (put ?e (p + Suc a) (take (r - Suc a) (drop (Suc a) bs)), r)"
    using Suc.hyps(2) Suc.prems a by (intro Suc.hyps(1)) auto
  ultimately show ?case
    using a Suc.prems by (subst hex_write_loop.simps) (simp add: hex_text_pair parseInt16_toHex put_Cons)
qed

lemma hexSlice_all: "hexSlice b 0 (length b) = hex_text b"
proof -
  have "map (\<lambda>k. toHex (b ! k)) [0..<length b] = map toHex b" by (rule nth_equalityI) simp_all
  then show ?thesis by (simp add: hexSlice_def hex_text_def Let_def)
qed

section \<open>Cleaning base64 text\<close>

lemma alphabet_chars: "i < 64 \<Longrightarrow> base64_char (alphabet ! i)"
proof -
  have "list_all base64_char alphabet" by (simp add: alphabet_def lit_def base64_char_def)
  moreover have "length alphabet = 64" by (simp add: alphabet_def)
  ultimately show "i < 64 \<Longrightarrow> base64_char (alphabet ! i)" by (simp add: list_all_length)
qed

lemma byte_scaled:
  "n < 256 \<Longrightarrow> n * 16 div 64 < (64 :: nat)"
  "n < 256 \<Longrightarrow> m < 256 \<Longrightarrow> (n * 256 + m) * 4 div 4096 < (64 :: nat)"
  "n < 256 \<Longrightarrow> m < 256 \<Longrightarrow> k < 256 \<Longrightarrow> (n * 65536 + m * 256 + k) div 262144 < (64 :: nat)"
  by auto

lemma base64_spec_shape:
  "\<exists>xs. base64_spec b = xs @ replicate ((4 - length xs mod 4) mod 4) 61 \<and> list_all base64_char xs
     \<and> (b \<noteq> [] \<longrightarrow> 2 \<le> length xs) \<and> (b = [] \<longrightarrow> xs = [])"
proof (induction b rule: base64_spec.induct)
  case (2 a)
  define x y where "x = alphabet ! (unat a * 16 div 64)" and "y = alphabet ! (unat a * 16 mod 64)"
  have "base64_spec [a] = [x, y] @ [61, 61]" by (simp add: x_def y_def Let_def lit_def)
  moreover have "base64_char x" "base64_char y"
    using byte_scaled(1) [OF unat_byte [of a]] by (simp_all add: x_def y_def alphabet_chars)
  ultimately show ?case by (intro exI [of _ "[x, y]"]) (simp add: numeral_2_eq_2)
next
  case (3 a b)
  define v where "v = (unat a * 256 + unat b) * 4"
  define x y z where "x = alphabet ! (v div 4096)" and "y = alphabet ! (v div 64 mod 64)" and "z = alphabet ! (v mod 64)"
  have "base64_spec [a, b] = [x, y, z] @ [61]" by (simp add: x_def y_def z_def v_def Let_def lit_def)
  moreover have "base64_char x" "base64_char y" "base64_char z"
    using byte_scaled(2) [OF unat_byte [of a] unat_byte [of b]] by (simp_all add: x_def y_def z_def v_def alphabet_chars)
  ultimately show ?case by (intro exI [of _ "[x, y, z]"]) simp
next
  case (4 a b c r)
  define v where "v = unat a * 65536 + unat b * 256 + unat c"
  define h where "h = [alphabet ! (v div 262144), alphabet ! (v div 4096 mod 64), alphabet ! (v div 64 mod 64),
    alphabet ! (v mod 64)]"
  have "v div 262144 < 64"
    using byte_scaled(3) [OF unat_byte [of a] unat_byte [of b] unat_byte [of c]] by (simp add: v_def)
  then have "list_all base64_char h" by (simp add: h_def alphabet_chars)
  moreover have "base64_spec (a # b # c # r) = h @ base64_spec r" "length h = 4"
    by (simp_all add: h_def v_def Let_def)
  moreover obtain xs where "base64_spec r = xs @ replicate ((4 - length xs mod 4) mod 4) 61" "list_all base64_char xs"
    using 4 by blast
  ultimately show ?case by (intro exI [of _ "h @ xs"]) simp
qed simp

lemma padding_not_char: "\<not> base64_char 61" "\<not> is_space 61"
  by (simp_all add: base64_char_def is_space_def)

lemma char_not_space: "base64_char c \<Longrightarrow> \<not> is_space c"
  by (auto simp: base64_char_def is_space_def word_le_nat_alt)

lemma dropWhile_none: "\<forall>c \<in> set s. \<not> P c \<Longrightarrow> dropWhile P s = s"
  by (cases s) auto

lemma trim_id: "\<forall>c \<in> set s. \<not> is_space c \<Longrightarrow> trim s = s"
  by (simp add: trim_def dropWhile_none)

lemma base64clean_encoded: "base64clean (fromByteArray b) = fromByteArray b"
proof -
  obtain xs where xs: "base64_spec b = xs @ replicate ((4 - length xs mod 4) mod 4) 61"
    "list_all base64_char xs" "b \<noteq> [] \<longrightarrow> 2 \<le> length xs" "b = [] \<longrightarrow> xs = []"
    using base64_spec_shape by blast
  have "\<forall>c \<in> set (base64_spec b). \<not> is_space c"
    using xs(2) char_not_space padding_not_char unfolding xs(1) by (auto simp: list_all_iff)
  moreover have "filter base64_char (base64_spec b) = xs"
    using xs(2) padding_not_char unfolding xs(1) by (simp add: list_all_iff filter_replicate)
  ultimately show ?thesis
    using xs by (cases "b = []") (simp_all add: base64clean_def fromByteArray_spec trim_id Let_def)
qed

section \<open>Units of UTF-16\<close>

lemma uint_high: "uint (drop_bit 8 c) = uint (c :: code_unit) div 256"
proof -
  have "uint c < 2 ^ 16" using unsigned_less [of c] by simp
  then have "take_bit 16 (uint c) = uint c" by (intro take_bit_int_eq_self) simp_all
  then show ?thesis unfolding unsigned_drop_bit_eq by (simp add: drop_bit_eq_div)
qed

lemma unit_split: "of_int (uint (of_int (uint c mod 256) :: byte) + 256 * uint (of_int (uint (drop_bit 8 c)) :: byte)) = (c :: code_unit)"
proof -
  have "uint c < 65536" using unsigned_less [of c] by simp
  then have "uint c div 256 mod 256 = uint c div 256"
    by (intro mod_pos_pos_trivial) (auto simp: pos_imp_zdiv_nonneg_iff)
  then have "uint c mod 256 + 256 * (uint c div 256 mod 256) = uint c" by simp
  then show ?thesis by (simp add: uint_of_int_byte uint_high)
qed

lemma units_le_bytes: "2 * int (length s) \<le> t \<Longrightarrow> units_le (utf16leToBytes s t) = s"
  by (induction s arbitrary: t) (simp_all add: unit_split [simplified])

lemma length_utf16leToBytes: "2 * int (length s) \<le> t \<Longrightarrow> length (utf16leToBytes s t) = 2 * length s"
  by (induction s arbitrary: t) simp_all

lemma unit_join:
  fixes x y :: byte
  defines "c \<equiv> of_int (uint x + 256 * uint y) :: code_unit"
  shows "of_int (uint c mod 256) = x" "of_int (uint (drop_bit 8 c)) = y"
proof -
  have xy: "uint x < 256" "uint y < 256" using unsigned_less [of x] unsigned_less [of y] by simp_all
  then have c: "uint c = uint x + 256 * uint y" unfolding c_def uint_word_of_int by simp
  then have "uint (drop_bit 8 c) = uint y" "uint c mod 256 = uint x" using xy c by (simp_all add: uint_high)
  then show "of_int (uint c mod 256) = x" "of_int (uint (drop_bit 8 c)) = y" by simp_all
qed

lemma bytes_units_le: "even (length b) \<Longrightarrow> int (length b) \<le> t \<Longrightarrow> utf16leToBytes (units_le b) t = b"
  by (induction b arbitrary: t rule: units_le.induct) (simp_all add: unit_join [simplified])

lemma length_units_le: "even (length b) \<Longrightarrow> 2 * length (units_le b) = length b"
  by (induction b rule: units_le.induct) simp_all

section \<open>The contract of an encoding\<close>

text \<open>Bytes of a string in an encoding, the strings it represents, the bytes it can show.\<close>

fun hex_bytes :: "jsstring \<Rightarrow> byte list" where
  "hex_bytes (x # y # s) = of_int (case parseInt16 [x, y] of None \<Rightarrow> 0 | Some v \<Rightarrow> v) # hex_bytes s"
| "hex_bytes _ = []"

fun bytes_as :: "encoding \<Rightarrow> jsstring \<Rightarrow> byte list" where
  "bytes_as Hex s = hex_bytes s"
| "bytes_as Utf8 s = text_bytes s"
| "bytes_as Ascii s = map ucast s"
| "bytes_as Latin1 s = map ucast s"
| "bytes_as Base64 s = (case base64ToBytes s of Inl _ \<Rightarrow> [] | Inr b \<Rightarrow> b)"
| "bytes_as Ucs2 s = utf16leToBytes s (2 * int (length s))"

fun text_ok :: "encoding \<Rightarrow> jsstring \<Rightarrow> bool" where
  "text_ok Hex s \<longleftrightarrow> s = hex_text (hex_bytes s)"
| "text_ok Utf8 s \<longleftrightarrow> well_formed s"
| "text_ok Ascii s \<longleftrightarrow> list_all (\<lambda>c. c < 128) s"
| "text_ok Latin1 s \<longleftrightarrow> list_all (\<lambda>c. c < 256) s"
| "text_ok Base64 s \<longleftrightarrow> s = fromByteArray (bytes_as Base64 s)"
| "text_ok Ucs2 s \<longleftrightarrow> True"

fun bytes_ok :: "encoding \<Rightarrow> byte list \<Rightarrow> bool" where
  "bytes_ok Hex b \<longleftrightarrow> True"
| "bytes_ok Utf8 b \<longleftrightarrow> (\<exists>s. well_formed s \<and> b = text_bytes s)"
| "bytes_ok Ascii b \<longleftrightarrow> list_all (\<lambda>c. c < 128) b"
| "bytes_ok Latin1 b \<longleftrightarrow> True"
| "bytes_ok Base64 b \<longleftrightarrow> True"
| "bytes_ok Ucs2 b \<longleftrightarrow> even (length b)"

locale text_codec =
  fixes size :: "jsstring \<Rightarrow> nat result"
    and wr :: "byte list \<Rightarrow> jsstring \<Rightarrow> int \<Rightarrow> int \<Rightarrow> (byte list \<times> nat) result"
    and sl :: "byte list \<Rightarrow> nat \<Rightarrow> nat \<Rightarrow> jsstring"
    and bytes :: "jsstring \<Rightarrow> byte list"
    and t_ok :: "jsstring \<Rightarrow> bool"
    and b_ok :: "byte list \<Rightarrow> bool"
  assumes size_ok: "t_ok s \<Longrightarrow> size s = Inr (length (bytes s))"
    and wr_ok: "t_ok s \<Longrightarrow> n = length (bytes s) \<Longrightarrow> wr (replicate n 0) s 0 (int n) = Inr (bytes s, n)"
    and sl_ok: "t_ok s \<Longrightarrow> sl (bytes s) 0 (length (bytes s)) = s"
    and shown: "b_ok b \<Longrightarrow> t_ok (sl b 0 (length b)) \<and> bytes (sl b 0 (length b)) = b"
begin

text \<open>What \<open>Buffer.from\<close> does with a string once the encoding is known.\<close>

lemma size_then_write:
  assumes "t_ok s"
  shows "\<exists>n b. size s = Inr n \<and> wr (replicate n 0) s 0 (int n) = Inr (b, n) \<and> length b = n \<and> sl b 0 n = s"
  using size_ok wr_ok sl_ok assms by blast

lemma slice_then_write:
  assumes "b_ok b"
  shows "size (sl b 0 (length b)) = Inr (length b)
    \<and> wr (replicate (length b) 0) (sl b 0 (length b)) 0 (int (length b)) = Inr (b, length b)"
  using size_ok wr_ok shown [OF assms] by metis

end

lemma put_all [simp]: "length xs = length b \<Longrightarrow> put b 0 xs = xs"
  by (simp add: put_def)

lemma blit_fresh: "n = length bs \<Longrightarrow> blitBuffer bs (replicate n 0) 0 (int n) = (bs, n)"
  using blitBuffer_puts [of 0 "replicate n 0" bs n] by simp

lemma hex_bytes_text [simp]: "hex_bytes (hex_text b) = b"
  by (induction b) (simp_all add: hex_text_def toHex_eq parseInt16_toHex [unfolded toHex_eq])

lemma hexWrite_fresh: "n = length b \<Longrightarrow> hexWrite (replicate n 0) (hex_text b) 0 (int n) = Inr (b, n)"
  using hex_write_loop_puts [of n b 0 "replicate n 0" 0] by (cases "b = []") (simp_all add: hexWrite_def Let_def)

lemma and_ones:
  "(127 :: byte) AND c = take_bit 7 c" "(255 :: code_unit) AND d = take_bit 8 d"
  by (simp_all add: take_bit_eq_mask mask_eq_exp_minus_1 and.commute)

lemma asciiToBytes_eq: "asciiToBytes s = map ucast s"
proof -
  have "ucast (255 AND c) = (ucast c :: byte)" for c :: code_unit
    unfolding and_ones by (rule bit_word_eqI) (simp add: bit_ucast_iff bit_take_bit_iff)
  then show ?thesis by (simp add: asciiToBytes_def)
qed

lemma map_upt_all: "map (\<lambda>k. f (e ! k)) [0..<length e] = map f e"
  by (rule nth_equalityI) simp_all

lemma base64ToBytes_encoded: "base64ToBytes (fromByteArray b) = Inr b"
  by (simp add: base64ToBytes_def base64clean_encoded toByteArray_fromByteArray)

lemma narrow_wide:
  fixes c :: code_unit
  shows "c < 256 \<Longrightarrow> ucast (ucast c :: byte) = c" "c < 128 \<Longrightarrow> ucast (127 AND (ucast c :: byte)) = c"
proof -
  show "c < 256 \<Longrightarrow> ucast (ucast c :: byte) = c"
    using bit_below [of c 8] by (intro bit_word_eqI) (auto simp: bit_ucast_iff)
  show "c < 128 \<Longrightarrow> ucast (127 AND (ucast c :: byte)) = c"
    unfolding and_ones using bit_below [of c 7]
    by (intro bit_word_eqI) (force simp: bit_ucast_iff bit_take_bit_iff)
qed

lemma wide_narrow: "ucast (ucast (b :: byte) :: code_unit) = b"
  by (rule bit_word_eqI) (simp add: bit_ucast_iff)

lemma ascii_narrow: "(c :: byte) < 128 \<Longrightarrow> 127 AND c = c"
  unfolding and_ones using bit_below [of c 7] by (intro bit_word_eqI) (auto simp: bit_take_bit_iff)

lemma ascii_wide: "(c :: byte) < 128 \<Longrightarrow> (ucast c :: code_unit) < 128"
  by (simp add: word_less_nat_alt unsigned_ucast_eq take_bit_nat_eq_self)

lemma latin1_wide: "(ucast (c :: byte) :: code_unit) < 256"
  using unat_byte [of c] by (simp add: word_less_nat_alt unsigned_ucast_eq take_bit_nat_eq_self)

lemma utf8_slice_text: "well_formed s \<Longrightarrow> utf8Slice (text_bytes s) 0 (length (text_bytes s)) = s"
  using utf8Slice_text [OF usv_scalar, of s] usv_well_formed [of s] by (simp add: text_bytes_def dropped_well_formed)

lemma base64_text: "text_ok Base64 s \<Longrightarrow> \<exists>b. s = fromByteArray b \<and> base64ToBytes s = Inr b"
  using base64ToBytes_encoded by (metis text_ok.simps(5))

lemma byte_length_bytes: "text_ok c s \<Longrightarrow> byte_length_as c s = Inr (length (bytes_as c s))"
proof (cases c)
  case Hex
  assume "text_ok c s"
  then have "length s = 2 * length (hex_bytes s)" using length_hex_text [of "hex_bytes s"] Hex by simp
  then show ?thesis using Hex by simp
next
  case Base64
  assume "text_ok c s"
  then show ?thesis using Base64 base64_text [of s] by auto
qed (simp_all add: utf8ToBytes_total length_utf16leToBytes)

lemma write_fresh: "text_ok c s \<Longrightarrow> n = length (bytes_as c s) \<Longrightarrow>
  write_as c (replicate n 0) s 0 (int n) = Inr (bytes_as c s, n)"
proof (cases c)
  case Hex
  assume "text_ok c s" "n = length (bytes_as c s)"
  then show ?thesis using hexWrite_fresh [of n "hex_bytes s"] Hex by simp
next
  case Utf8
  assume "n = length (bytes_as c s)"
  then show ?thesis
    using Utf8 utf8ToBytes_fits [OF utf8ToBytes_total, of s "int n"] by (simp add: utf8Write_def blit_fresh)
next
  case Base64
  assume "text_ok c s" "n = length (bytes_as c s)"
  then show ?thesis using Base64 base64_text [of s] by (auto simp: base64Write_def blit_fresh)
next
  case Ucs2
  assume "n = length (bytes_as c s)"
  then have n: "2 * int (length s) = int n" using Ucs2 length_utf16leToBytes [of s "2 * int (length s)"] by simp
  then have "n = length (utf16leToBytes s (int n))" using length_utf16leToBytes [of s "int n"] by simp
  from blit_fresh [OF this] show ?thesis using Ucs2 n by (simp add: ucs2Write_def)
qed (simp_all add: latin1Write_def asciiWrite_def asciiToBytes_eq blit_fresh)

lemma slice_text: "text_ok c s \<Longrightarrow> slice_as c (bytes_as c s) 0 (length (bytes_as c s)) = s"
proof (cases c)
  case Hex
  assume "text_ok c s"
  then show ?thesis using Hex hexSlice_all [of "hex_bytes s"] by simp
next
  case Utf8
  assume "text_ok c s"
  then show ?thesis using Utf8 by (simp add: utf8_slice_text)
next
  case Base64
  assume "text_ok c s"
  then show ?thesis using Base64 by (simp add: base64Slice_def)
next
  case Ucs2
  then show ?thesis by (simp add: utf16leSlice_def units_le_bytes)
next
  case Ascii
  assume "text_ok c s"
  then have "map ((\<lambda>b. ucast (127 AND (b :: byte))) \<circ> ucast) s = s"
    using Ascii by (intro map_idI) (simp add: narrow_wide list_all_iff)
  then show ?thesis
    using Ascii map_upt_all [of "\<lambda>b :: byte. ucast (127 AND b) :: code_unit" "map ucast s"] by (simp add: asciiSlice_def)
next
  case Latin1
  assume "text_ok c s"
  then have "map ((ucast :: byte \<Rightarrow> code_unit) \<circ> ucast) s = s"
    using Latin1 by (intro map_idI) (simp add: narrow_wide list_all_iff)
  then show ?thesis
    using Latin1 map_upt_all [of "ucast :: byte \<Rightarrow> code_unit" "map ucast s"] by (simp add: latin1Slice_def)
qed

lemma bytes_slice: "bytes_ok c b \<Longrightarrow>
  text_ok c (slice_as c b 0 (length b)) \<and> bytes_as c (slice_as c b 0 (length b)) = b"
proof (cases c)
  case Utf8
  assume "bytes_ok c b"
  then show ?thesis using Utf8 utf8_slice_text by auto
next
  case Ascii
  assume "bytes_ok c b"
  then show ?thesis
    using Ascii map_upt_all [of "\<lambda>b :: byte. ucast (127 AND b) :: code_unit" b]
    by (auto simp: asciiSlice_def wide_narrow ascii_narrow ascii_wide list_all_iff comp_def intro!: map_idI)
next
  case Latin1
  then show ?thesis
    using map_upt_all [of "ucast :: byte \<Rightarrow> code_unit" b]
    by (auto simp: latin1Slice_def wide_narrow latin1_wide list_all_iff comp_def intro!: map_idI)
next
  case Ucs2
  assume "bytes_ok c b"
  then have "2 * int (length (units_le b)) = int (length b)"
    using Ucs2 length_units_le [of b] by (metis bytes_ok.simps(6) of_nat_mult of_nat_numeral)
  then show ?thesis using Ucs2 \<open>bytes_ok c b\<close> by (simp add: utf16leSlice_def bytes_units_le)
qed (simp_all add: hexSlice_all base64Slice_def base64ToBytes_encoded)

interpretation codec: text_codec "byte_length_as c" "write_as c" "slice_as c" "bytes_as c" "text_ok c" "bytes_ok c" for c
  by unfold_locales (use byte_length_bytes write_fresh slice_text bytes_slice in blast)+

section \<open>Names and whole strings\<close>

lemma encoding_names:
  assumes "encoding_case e \<noteq> None"
  shows "e \<in> lit ` {''hex'', ''utf8'', ''utf-8'', ''ascii'', ''latin1'', ''binary'', ''base64'', ''ucs2'', ''ucs-2'',
    ''utf16le'', ''utf-16le''}"
  using assms unfolding encoding_case_def by (auto split: if_splits)

lemma lower_names:
  "toLowerCase (lit ''hex'') = lit ''hex''" "toLowerCase (lit ''utf8'') = lit ''utf8''"
  "toLowerCase (lit ''utf-8'') = lit ''utf-8''" "toLowerCase (lit ''ascii'') = lit ''ascii''"
  "toLowerCase (lit ''latin1'') = lit ''latin1''" "toLowerCase (lit ''binary'') = lit ''binary''"
  "toLowerCase (lit ''base64'') = lit ''base64''" "toLowerCase (lit ''ucs2'') = lit ''ucs2''"
  "toLowerCase (lit ''ucs-2'') = lit ''ucs-2''" "toLowerCase (lit ''utf16le'') = lit ''utf16le''"
  "toLowerCase (lit ''utf-16le'') = lit ''utf-16le''"
  by (simp_all add: toLowerCase_def lit_def)

lemma resolve_isEncoding: "resolve_encoding e \<noteq> None \<longleftrightarrow> isEncoding e"
proof (cases "encoding_case e = None")
  case False
  then have "toLowerCase e = e" using encoding_names [OF False] by (elim imageE) (auto simp only: lower_names insert_iff empty_iff)
  then show ?thesis using False by (auto simp: resolve_encoding_def isEncoding_def)
qed (simp add: resolve_encoding_def isEncoding_def)

lemma resolve_nonempty: "resolve_encoding e = Some c \<Longrightarrow> e \<noteq> []"
  by (auto simp: resolve_encoding_def encoding_case_def toLowerCase_def lit_def)

lemma fromString_known:
  assumes "resolve_encoding name = Some c" "text_ok c s" "int (length (bytes_as c s)) \<le> kMaxLength typed"
  shows "fromString typed s (Some name) = Inr (bytes_as c s)"
proof -
  have e: "isEncoding name" "name \<noteq> []" using assms(1) resolve_isEncoding resolve_nonempty by blast+
  have size: "stringByteLength s (Some name) = Inr (length (bytes_as c s))"
    using byte_length_bytes [OF assms(2)] assms(1) base64ToBytes_encoded [of "[]"] fromByteArray_spec [of "[]"]
    by (cases c; cases s) (auto simp: stringByteLength_def text_bytes_simps)
  show ?thesis
    using write_fresh [OF assms(2) refl] e size assms
    by (simp add: fromString_def createBuffer_def buffer_write_def write_args_def Let_def)
qed

lemma toString_known:
  assumes "resolve_encoding name = Some c" "int (length b) \<le> kMaxLength typed"
  shows "toString b (Some name) None None = Inr (if b = [] then [] else slice_as c b 0 (length b))"
proof -
  have "int (length b) < 2 ^ 32" using assms(2) by (simp add: kMaxLength_def split: if_splits)
  then have "ToUint32 (int (length b)) = int (length b)" "ToUint32 0 = 0"
    by (simp_all add: ToUint32_def take_bit_int_eq_self)
  then show ?thesis
    using assms(1) resolve_nonempty [OF assms(1)] by (simp add: toString_def Let_def)
qed

lemma slice_empty: "slice_as c [] 0 0 = []"
  using fromByteArray_spec [of "[]"]
  by (cases c) (simp_all add: hexSlice_def asciiSlice_def latin1Slice_def base64Slice_def utf16leSlice_def Let_def
    utf8Slice_def utf8_slice_loop.simps decodeCodePointsArray_eq)

section \<open>Writes stay in their place\<close>

text \<open>The bytes a writer may change: from an offset, as many as it reports.\<close>

definition confined :: "byte list \<Rightarrow> int \<Rightarrow> byte list \<times> nat \<Rightarrow> bool" where
  "confined b p = (\<lambda>(b', k). length b' = length b \<and> p + int k \<le> int (length b) \<and>
     (\<forall>i < length b. int i < p \<or> p + int k \<le> int i \<longrightarrow> b' ! i = b ! i))"

lemma blit_loop_confined:
  "blit_loop e t n r k = (t', k') \<Longrightarrow> 0 \<le> n \<Longrightarrow> n + int k \<le> int (length t) \<Longrightarrow>
   k \<le> k' \<and> length t' = length t \<and> n + int k' \<le> int (length t)
   \<and> (\<forall>i < length t. int i < n + int k \<or> n + int k' \<le> int i \<longrightarrow> t' ! i = t ! i)"
proof (induction e t n r k rule: blit_loop.induct)
  case (1 e t n r k)
  show ?case
  proof (cases "int k < r \<and> \<not> (int k + n \<ge> int (length t) \<or> k \<ge> length e)")
    case True
    then have step: "blit_loop e (u8_set t (int k + n) (uint (e ! k))) n r (k + 1) = (t', k')"
      using 1(2) by (simp add: blit_loop.simps [of e t n r k])
    show ?thesis
      using 1(1) [OF True step] 1(3) True by (auto simp: u8_set_def nth_list_update)
  next
    case False
    then have "blit_loop e t n r k = (t, k)" by (subst blit_loop.simps) auto
    then show ?thesis using 1(2-4) by simp
  qed
qed

lemma hex_write_loop_confined:
  "hex_write_loop e t n r a = (e', a') \<Longrightarrow> 0 \<le> n \<Longrightarrow> n + int a \<le> int (length e) \<Longrightarrow> n + r \<le> int (length e) \<Longrightarrow>
   a \<le> a' \<and> length e' = length e \<and> n + int a' \<le> int (length e)
   \<and> (\<forall>i < length e. int i < n + int a \<or> n + int a' \<le> int i \<longrightarrow> e' ! i = e ! i)"
proof (induction e t n r a rule: hex_write_loop.induct)
  case (1 e t n r a)
  show ?case
  proof (cases "int a < r \<and> parseInt16 (take 2 (drop (2 * a) t)) \<noteq> None")
    case True
    then obtain u where u: "int a < r" "parseInt16 (take 2 (drop (2 * a) t)) = Some u" by blast
    then have step: "hex_write_loop (u8_set e (n + int a) u) t n r (a + 1) = (e', a')"
      using 1(2) by (simp add: hex_write_loop.simps [of e t n r a])
    show ?thesis
      using 1(1) [OF u step] 1(3-5) u by (auto simp: u8_set_def nth_list_update)
  next
    case False
    then show ?thesis using 1(2-5) by (auto simp: hex_write_loop.simps [of e t n r a] split: if_splits)
  qed
qed

lemma blitBuffer_confined: "0 \<le> n \<Longrightarrow> n \<le> int (length t) \<Longrightarrow> confined t n (blitBuffer e t n r)"
  using blit_loop_confined [of e t n r 0] by (cases "blit_loop e t n r 0") (auto simp: confined_def blitBuffer_def)

lemma write_as_confined:
  assumes "write_as c b s p n = Inr w" "0 \<le> p" "p \<le> int (length b)"
  shows "confined b p w"
proof (cases c)
  case Hex
  define r where "r = (let q = int (length b) - p; m = (if n \<noteq> 0 then if n > q then q else n else q)
    in if m > int (length s div 2) then int (length s div 2) else m)"
  have "w = hex_write_loop b s p r 0" "p + r \<le> int (length b)"
    using assms Hex by (auto simp: hexWrite_def Let_def r_def split: if_splits)
  then show ?thesis
    using hex_write_loop_confined [of b s p r 0] assms(2,3) by (cases w) (auto simp: confined_def)
qed (use assms blitBuffer_confined in \<open>auto simp: utf8Write_def latin1Write_def asciiWrite_def base64Write_def ucs2Write_def
  split: sum.splits\<close>)

lemma known_names: "resolve_encoding (lit ''hex'') = Some Hex" "resolve_encoding (lit ''latin1'') = Some Latin1"
  by (simp_all add: resolve_encoding_def encoding_case_def lit_def)

section \<open>Properties\<close>

text \<open>
  C12: for each of the eleven encoding names, in any case, and both kinds of buffers: a string the
  encoding can represent, turned into a buffer by \<open>Buffer.from\<close> and back by \<open>toString\<close>, is the same.\<close>

theorem from_toString:
  assumes "resolve_encoding name = Some c" "text_ok c s" "int (length (bytes_as c s)) \<le> kMaxLength typed"
  shows "\<exists>b. fromString typed s (Some name) = Inr b \<and> toString b (Some name) None None = Inr s"
proof -
  have "slice_as c (bytes_as c s) 0 (length (bytes_as c s)) = s" using codec.sl_ok assms(2) by blast
  then show ?thesis
    using fromString_known [OF assms] toString_known [OF assms(1,3)] slice_empty [of c]
    by (cases "bytes_as c s = []") auto
qed

theorem from_toString_witness:
  "\<exists>b. fromString True (lit ''0aff'') (Some (lit ''HEX'')) = Inr b
     \<and> toString b (Some (lit ''HEX'')) None None = Inr (lit ''0aff'')"
proof (rule from_toString [of _ Hex])
  show "resolve_encoding (lit ''HEX'') = Some Hex"
    by (simp add: resolve_encoding_def encoding_case_def lit_def toLowerCase_def)
  have "lit ''0aff'' = hex_text [10, 255]" by (simp add: lit_def hex_text_def toHex_def hex_char_def)
  then show "text_ok Hex (lit ''0aff'')" "int (length (bytes_as Hex (lit ''0aff''))) \<le> kMaxLength True"
    by (simp_all add: kMaxLength_def)
qed

text \<open>
  C27: the other direction: bytes shown by \<open>toString\<close> in an encoding that can show them (all bytes for
  hex, latin1 and base64, an even number for UTF-16, below 128 for ASCII, encoded text for UTF-8)
  are recovered by \<open>Buffer.from\<close>.\<close>

theorem toString_from:
  assumes "resolve_encoding name = Some c" "bytes_ok c b" "int (length b) \<le> kMaxLength typed"
  shows "\<exists>s. toString b (Some name) None None = Inr s \<and> fromString typed s (Some name) = Inr b"
proof -
  let ?s = "slice_as c b 0 (length b)"
  have "text_ok c ?s" "bytes_as c ?s = b" using codec.shown assms(2) by blast+
  then have "fromString typed ?s (Some name) = Inr b" using fromString_known [OF assms(1), of ?s] assms(3) by simp
  then show ?thesis using toString_known [OF assms(1,3)] slice_empty [of c] by (cases "b = []") auto
qed

theorem toString_from_witness:
  "\<exists>s. toString [200, 7] (Some (lit ''latin1'')) None None = Inr s \<and> fromString False s (Some (lit ''latin1'')) = Inr [200, 7]"
  by (rule toString_from [of _ Latin1]) (simp_all add: known_names kMaxLength_def)

text \<open>
  C36: \<open>write\<close>, in every encoding, keeps the length of the buffer, reports a number of bytes that fits
  behind the offset, and leaves every byte before the offset and from the reported end on as it was.\<close>

theorem write_confined:
  assumes "write_args b t n r = Inr (p, m, name)" "0 \<le> p" "buffer_write b s t n r = Inr (b', k)"
  shows "length b' = length b \<and> p + int k \<le> int (length b)
    \<and> (\<forall>i < length b. int i < p \<or> p + int k \<le> int i \<longrightarrow> b' ! i = b ! i)"
proof -
  obtain c j where "write_as c b s p j = Inr (b', k)" "p \<le> int (length b)"
    using assms by (auto simp: buffer_write_def Let_def split: if_splits option.splits)
  then show ?thesis using write_as_confined [of c b s p j "(b', k)"] assms(2) by (simp add: confined_def)
qed

theorem write_confined_witness:
  "buffer_write [9, 8, 7, 6] [511, 1] (Num 1) (Str (lit ''latin1'')) None = Inr ([9, 255, 1, 6], 2)
   \<and> 1 + int 2 \<le> int (length [9, 8, 7, 6 :: byte])
   \<and> [9, 255, 1, 6 :: byte] ! 0 = [9, 8, 7, 6] ! 0 \<and> [9, 255, 1, 6 :: byte] ! 3 = [9, 8, 7, 6] ! 3"
proof -
  have id: "ToInt32 1 = 1" by (rule ToInt32_small) simp_all
  have args: "write_args [9, 8, 7, 6] (Num 1) (Str (lit ''latin1'')) None = Inr (1, None, Some (lit ''latin1''))"
    by (simp add: write_args_def id)
  have "asciiToBytes [511, 1] = [255, 1]" by (simp add: asciiToBytes_eq)
  then have "blitBuffer (asciiToBytes [511, 1]) [9, 8, 7, 6] 1 3 = ([9, 255, 1, 6], 2)"
    using blitBuffer_puts [of 1 "[9, 8, 7, 6]" "[255, 1]" 3] by (simp add: put_def)
  moreover have "lit ''latin1'' \<noteq> []" by (simp add: lit_def)
  ultimately have w: "buffer_write [9, 8, 7, 6] [511, 1] (Num 1) (Str (lit ''latin1'')) None = Inr ([9, 255, 1, 6], 2)"
    by (simp add: buffer_write_def args known_names latin1Write_def asciiWrite_def)
  show ?thesis
    using write_confined [OF args _ w] w by (auto dest: spec [of _ 0] spec [of _ 3])
qed

text \<open>
  A length of 0 is taken for a missing one when the encoding is hex: \<open>write\<close> stores the whole
  text, while in another encoding, here latin1, it stores nothing.\<close>

lemma hex_write_ignores_zero_length:
  assumes "length x \<le> length b"
  shows "buffer_write b (hex_text x) (Num 0) (Num 0) (Some (lit ''hex'')) = Inr (put b 0 x, length x)
    \<and> buffer_write b (hex_text x) (Num 0) (Num 0) (Some (lit ''latin1'')) = Inr (b, 0)"
proof -
  have n: "lit ''hex'' \<noteq> []" "lit ''latin1'' \<noteq> []" "ToInt32 0 = 0" by (simp_all add: lit_def ToInt32_def)
  have "hexWrite b (hex_text x) 0 0 = Inr (put b 0 x, length x)"
    using hex_write_loop_puts [of "length x" x 0 b 0] assms by (auto simp: hexWrite_def Let_def)
  then show ?thesis
    using n known_names blitBuffer_puts [of 0 b "asciiToBytes (hex_text x)" 0]
    by (simp add: buffer_write_def write_args_def Let_def latin1Write_def asciiWrite_def)
qed

lemma hex_write_ignores_zero_length_witness:
  "buffer_write [1, 2] (hex_text [3]) (Num 0) (Num 0) (Some (lit ''hex'')) = Inr (put [1, 2] 0 [3], length [3 :: byte])
   \<and> buffer_write [1, 2] (hex_text [3]) (Num 0) (Num 0) (Some (lit ''latin1'')) = Inr ([1, 2], 0)"
  by (rule hex_write_ignores_zero_length) simp

end
