(* ===== verification/Buffer_Access.thy ===== *)
theory Buffer_Access
  imports JS_Prelude
begin

text \<open>
  The integer accessors of the bundled \<open>Buffer\<close>: \<open>read[U]Int{LE,BE}\<close> of any width and the 8, 16 and
  32 bit readers and writers, with their bounds checks, the \<open>noAssert\<close> flag that skips them, and
  the two storage paths chosen by \<open>TYPED_ARRAY_SUPPORT\<close>. Numbers are integral (\<open>int\<close>). A reader
  returns \<open>None\<close> for \<open>undefined\<close> or \<open>NaN\<close>; a writer returns the buffer and the next offset.
\<close>

section \<open>Checks\<close>

text \<open>
  Offsets and values are integers here and the receiver is a buffer, so that the first test of each check, for a fraction
  (\<open>e % 1 != 0\<close>) and for a receiver of another type, is passed.
\<close>

definition checkOffset :: "int \<Rightarrow> int \<Rightarrow> int \<Rightarrow> unit result" where
  "checkOffset e t n =
     (if e < 0 then Inl (RangeError ''offset is not uint'')
      else if e + t > n then Inl (RangeError ''Trying to access beyond buffer length'')
      else Inr ())"

definition checkInt :: "byte list \<Rightarrow> int \<Rightarrow> int \<Rightarrow> int \<Rightarrow> int \<Rightarrow> int \<Rightarrow> unit result" where
  "checkInt e t n r m i =
     (if t > m \<or> t < i then Inl (RangeError ''\"value\" argument is out of bounds'')
      else if n + r > int (length e) then Inl (RangeError ''Index out of range'')
      else Inr ())"

text \<open>\<open>n || check(...)\<close> before a read or a write.\<close>

definition reading :: "byte list \<Rightarrow> bool \<Rightarrow> int \<Rightarrow> int \<Rightarrow> int option \<Rightarrow> int option result" where
  "reading b noAssert e t v =
     (if noAssert then Inr v
      else (case checkOffset e t (int (length b)) of Inl err \<Rightarrow> Inl err | Inr _ \<Rightarrow> Inr v))"

definition writing ::
  "byte list \<Rightarrow> bool \<Rightarrow> int \<Rightarrow> int \<Rightarrow> int \<Rightarrow> int \<Rightarrow> int \<Rightarrow> byte list \<Rightarrow> (byte list \<times> int) result" where
  "writing b noAssert v t r m i b' =
     (if noAssert then Inr (b', t + r)
      else (case checkInt b v t r m i of Inl err \<Rightarrow> Inl err | Inr _ \<Rightarrow> Inr (b', t + r)))"

section \<open>Readers\<close>

text \<open>The loops of \<open>readUIntLE\<close> and \<open>readUIntBE\<close>; they also end with the last factor \<open>o\<close>.\<close>

function read_le_loop :: "byte list \<Rightarrow> int \<Rightarrow> int \<Rightarrow> int \<Rightarrow> int \<Rightarrow> int option \<Rightarrow> int option \<times> int" where
  "read_le_loop b e t i f r =
     (if i + 1 < t
      then read_le_loop b e t (i + 1) (f * 256)
             (num_lift2 (+) r (map_option (\<lambda>x. x * (f * 256)) (u8_get b (e + (i + 1)))))
      else (r, f))"
  by pat_completeness auto
termination
  by (relation "measure (\<lambda>(b, e, t, i, f, r). nat (t - i))") auto

function read_be_loop :: "byte list \<Rightarrow> int \<Rightarrow> int \<Rightarrow> int \<Rightarrow> int option \<Rightarrow> int option \<times> int" where
  "read_be_loop b e t f r =
     (if t > 0
      then read_be_loop b e (t - 1) (f * 256)
             (num_lift2 (+) r (map_option (\<lambda>x. x * (f * 256)) (u8_get b (e + (t - 1)))))
      else (r, f))"
  by pat_completeness auto
termination
  by (relation "measure (\<lambda>(b, e, t, f, r). nat t)") auto

declare read_le_loop.simps [simp del] read_be_loop.simps [simp del]

definition readUIntLE :: "byte list \<Rightarrow> int \<Rightarrow> int \<Rightarrow> bool \<Rightarrow> int option result" where
  "readUIntLE b e t noAssert =
     (let e = ToInt32 e; t = ToInt32 t
      in reading b noAssert e t (fst (read_le_loop b e t 0 1 (u8_get b e))))"

definition readUIntBE :: "byte list \<Rightarrow> int \<Rightarrow> int \<Rightarrow> bool \<Rightarrow> int option result" where
  "readUIntBE b e t noAssert =
     (let e = ToInt32 e; t = ToInt32 t
      in reading b noAssert e t (fst (read_be_loop b e (t - 1) 1 (u8_get b (e + (t - 1))))))"

definition readUInt8 :: "byte list \<Rightarrow> int \<Rightarrow> bool \<Rightarrow> int option result" where
  "readUInt8 b e noAssert = reading b noAssert e 1 (u8_get b e)"

definition readUInt16LE :: "byte list \<Rightarrow> int \<Rightarrow> bool \<Rightarrow> int option result" where
  "readUInt16LE b e noAssert =
     reading b noAssert e 2 (Some (bor (num0 (u8_get b e)) (shl (num0 (u8_get b (e + 1))) 8)))"

definition readUInt16BE :: "byte list \<Rightarrow> int \<Rightarrow> bool \<Rightarrow> int option result" where
  "readUInt16BE b e noAssert =
     reading b noAssert e 2 (Some (bor (shl (num0 (u8_get b e)) 8) (num0 (u8_get b (e + 1)))))"

definition readUInt32LE :: "byte list \<Rightarrow> int \<Rightarrow> bool \<Rightarrow> int option result" where
  "readUInt32LE b e noAssert =
     reading b noAssert e 4
       (num_lift2 (+)
          (Some (bor (bor (num0 (u8_get b e)) (shl (num0 (u8_get b (e + 1))) 8))
                     (shl (num0 (u8_get b (e + 2))) 16)))
          (map_option (\<lambda>x. 16777216 * x) (u8_get b (e + 3))))"

definition readUInt32BE :: "byte list \<Rightarrow> int \<Rightarrow> bool \<Rightarrow> int option result" where
  "readUInt32BE b e noAssert =
     reading b noAssert e 4
       (num_lift2 (+) (map_option (\<lambda>x. 16777216 * x) (u8_get b e))
          (Some (bor (bor (shl (num0 (u8_get b (e + 1))) 16) (shl (num0 (u8_get b (e + 2))) 8))
                     (num0 (u8_get b (e + 3))))))"

text \<open>Sign correction of the readers of any width: \<open>r >= (o *= 128) && (r -= Math.pow(2, 8 * t))\<close>.\<close>

definition sign_adjust :: "int \<Rightarrow> int option \<times> int \<Rightarrow> int option" where
  "sign_adjust t = (\<lambda>(r, f). map_option (\<lambda>v. if v \<ge> f * 128 then v - 2 ^ nat (8 * t) else v) r)"

definition readIntLE :: "byte list \<Rightarrow> int \<Rightarrow> int \<Rightarrow> bool \<Rightarrow> int option result" where
  "readIntLE b e t noAssert =
     (let e = ToInt32 e; t = ToInt32 t
      in reading b noAssert e t (sign_adjust t (read_le_loop b e t 0 1 (u8_get b e))))"

definition readIntBE :: "byte list \<Rightarrow> int \<Rightarrow> int \<Rightarrow> bool \<Rightarrow> int option result" where
  "readIntBE b e t noAssert =
     (let e = ToInt32 e; t = ToInt32 t
      in reading b noAssert e t (sign_adjust t (read_be_loop b e (t - 1) 1 (u8_get b (e + (t - 1))))))"

definition readInt8 :: "byte list \<Rightarrow> int \<Rightarrow> bool \<Rightarrow> int option result" where
  "readInt8 b e noAssert =
     reading b noAssert e 1
       (if band 128 (num0 (u8_get b e)) \<noteq> 0
        then map_option (\<lambda>x. -1 * (255 - x + 1)) (u8_get b e) else u8_get b e)"

definition readInt16LE :: "byte list \<Rightarrow> int \<Rightarrow> bool \<Rightarrow> int option result" where
  "readInt16LE b e noAssert =
     (let n = bor (num0 (u8_get b e)) (shl (num0 (u8_get b (e + 1))) 8)
      in reading b noAssert e 2 (Some (if band 32768 n \<noteq> 0 then bor 4294901760 n else n)))"

definition readInt16BE :: "byte list \<Rightarrow> int \<Rightarrow> bool \<Rightarrow> int option result" where
  "readInt16BE b e noAssert =
     (let n = bor (num0 (u8_get b (e + 1))) (shl (num0 (u8_get b e)) 8)
      in reading b noAssert e 2 (Some (if band 32768 n \<noteq> 0 then bor 4294901760 n else n)))"

definition readInt32LE :: "byte list \<Rightarrow> int \<Rightarrow> bool \<Rightarrow> int option result" where
  "readInt32LE b e noAssert =
     reading b noAssert e 4
       (Some (bor (bor (bor (num0 (u8_get b e)) (shl (num0 (u8_get b (e + 1))) 8))
                       (shl (num0 (u8_get b (e + 2))) 16))
                  (shl (num0 (u8_get b (e + 3))) 24)))"

definition readInt32BE :: "byte list \<Rightarrow> int \<Rightarrow> bool \<Rightarrow> int option result" where
  "readInt32BE b e noAssert =
     reading b noAssert e 4
       (Some (bor (bor (bor (shl (num0 (u8_get b e)) 24) (shl (num0 (u8_get b (e + 1))) 16))
                       (shl (num0 (u8_get b (e + 2))) 8))
                  (num0 (u8_get b (e + 3)))))"

section \<open>Writers\<close>

text \<open>
  \<open>objectWriteUInt16\<close> and \<open>objectWriteUInt32\<close> (\<open>j\<close> and \<open>N\<close>), used where typed arrays are not
  supported: the same bytes by a loop over the positions that fit.
\<close>

definition object_write16_byte :: "int \<Rightarrow> bool \<Rightarrow> nat \<Rightarrow> int" where
  "object_write16_byte t le k =
     (let h = 8 * (if le then k else 1 - k) in shru (band t (shl 255 h)) h)"

definition objectWriteUInt16 :: "byte list \<Rightarrow> int \<Rightarrow> int \<Rightarrow> bool \<Rightarrow> byte list" where
  "objectWriteUInt16 e t n le =
     (let t = (if t < 0 then 65535 + t + 1 else t)
      in foldl (\<lambda>e k. u8_set e (n + int k) (object_write16_byte t le k)) e
           [0..<nat (min (int (length e) - n) 2)])"

definition objectWriteUInt32 :: "byte list \<Rightarrow> int \<Rightarrow> int \<Rightarrow> bool \<Rightarrow> byte list" where
  "objectWriteUInt32 e t n le =
     (let t = (if t < 0 then 4294967295 + t + 1 else t)
      in foldl (\<lambda>e k. u8_set e (n + int k) (band (shru t (8 * (if le then k else 3 - k))) 255)) e
           [0..<nat (min (int (length e) - n) 4)])"

function write_le_loop :: "byte list \<Rightarrow> int \<Rightarrow> int \<Rightarrow> int \<Rightarrow> int \<Rightarrow> int \<Rightarrow> byte list" where
  "write_le_loop b e t n i f =
     (if i + 1 < n
      then write_le_loop (u8_set b (t + (i + 1)) (band (js_quot e (f * 256)) 255)) e t n (i + 1) (f * 256)
      else b)"
  by pat_completeness auto
termination
  by (relation "measure (\<lambda>(b, e, t, n, i, f). nat (n - i))") auto

function write_be_loop :: "byte list \<Rightarrow> int \<Rightarrow> int \<Rightarrow> int \<Rightarrow> int \<Rightarrow> byte list" where
  "write_be_loop b e t k f =
     (if k - 1 \<ge> 0
      then write_be_loop (u8_set b (t + (k - 1)) (band (js_quot e (f * 256)) 255)) e t (k - 1) (f * 256)
      else b)"
  by pat_completeness auto
termination
  by (relation "measure (\<lambda>(b, e, t, k, f). nat k)") auto

declare write_le_loop.simps [simp del] write_be_loop.simps [simp del]

definition writeUIntLE :: "byte list \<Rightarrow> int \<Rightarrow> int \<Rightarrow> int \<Rightarrow> bool \<Rightarrow> (byte list \<times> int) result" where
  "writeUIntLE b e t n noAssert =
     (let t = ToInt32 t; n = ToInt32 n
      in writing b noAssert e t n (2 ^ nat (8 * n) - 1) 0
           (write_le_loop (u8_set b t (band 255 e)) e t n 0 1))"

definition writeUIntBE :: "byte list \<Rightarrow> int \<Rightarrow> int \<Rightarrow> int \<Rightarrow> bool \<Rightarrow> (byte list \<times> int) result" where
  "writeUIntBE b e t n noAssert =
     (let t = ToInt32 t; n = ToInt32 n
      in writing b noAssert e t n (2 ^ nat (8 * n) - 1) 0
           (write_be_loop (u8_set b (t + (n - 1)) (band 255 e)) e t (n - 1) 1))"

definition writeUInt8 :: "byte list \<Rightarrow> int \<Rightarrow> int \<Rightarrow> bool \<Rightarrow> (byte list \<times> int) result" where
  "writeUInt8 b e t noAssert =
     (let t = ToInt32 t in writing b noAssert e t 1 255 0 (u8_set b t (band 255 e)))"

definition writeUInt16LE :: "bool \<Rightarrow> byte list \<Rightarrow> int \<Rightarrow> int \<Rightarrow> bool \<Rightarrow> (byte list \<times> int) result" where
  "writeUInt16LE typed b e t noAssert =
     (let t = ToInt32 t
      in writing b noAssert e t 2 65535 0
           (if typed then u8_set (u8_set b t (band 255 e)) (t + 1) (shru e 8)
            else objectWriteUInt16 b e t True))"

definition writeUInt16BE :: "bool \<Rightarrow> byte list \<Rightarrow> int \<Rightarrow> int \<Rightarrow> bool \<Rightarrow> (byte list \<times> int) result" where
  "writeUInt16BE typed b e t noAssert =
     (let t = ToInt32 t
      in writing b noAssert e t 2 65535 0
           (if typed then u8_set (u8_set b t (shru e 8)) (t + 1) (band 255 e)
            else objectWriteUInt16 b e t False))"

definition writeUInt32LE :: "bool \<Rightarrow> byte list \<Rightarrow> int \<Rightarrow> int \<Rightarrow> bool \<Rightarrow> (byte list \<times> int) result" where
  "writeUInt32LE typed b e t noAssert =
     (let t = ToInt32 t
      in writing b noAssert e t 4 4294967295 0
           (if typed
            then u8_set (u8_set (u8_set (u8_set b (t + 3) (shru e 24)) (t + 2) (shru e 16)) (t + 1) (shru e 8))
                   t (band 255 e)
            else objectWriteUInt32 b e t True))"

definition writeUInt32BE :: "bool \<Rightarrow> byte list \<Rightarrow> int \<Rightarrow> int \<Rightarrow> bool \<Rightarrow> (byte list \<times> int) result" where
  "writeUInt32BE typed b e t noAssert =
     (let t = ToInt32 t
      in writing b noAssert e t 4 4294967295 0
           (if typed
            then u8_set (u8_set (u8_set (u8_set b t (shru e 24)) (t + 1) (shru e 16)) (t + 2) (shru e 8))
                   (t + 3) (band 255 e)
            else objectWriteUInt32 b e t False))"

text \<open>
  The signed writers of any width keep a borrow \<open>u\<close>: truncation rounds a negative quotient up,
  so one is subtracted as soon as a lower byte is not zero.
\<close>

definition borrow :: "int \<Rightarrow> int \<Rightarrow> int option \<Rightarrow> int" where
  "borrow e u below = (if e < 0 \<and> u = 0 \<and> below \<noteq> Some 0 then 1 else u)"

function write_int_le_loop :: "byte list \<Rightarrow> int \<Rightarrow> int \<Rightarrow> int \<Rightarrow> int \<Rightarrow> int \<Rightarrow> int \<Rightarrow> byte list" where
  "write_int_le_loop b e t n i f u =
     (if i + 1 < n
      then (let i = i + 1; f = f * 256; u = borrow e u (u8_get b (t + i - 1))
            in write_int_le_loop (u8_set b (t + i) (band (ToInt32 (js_quot e f) - u) 255)) e t n i f u)
      else b)"
  by pat_completeness auto
termination
  by (relation "measure (\<lambda>(b, e, t, n, i, f, u). nat (n - i))") (auto simp: Let_def)

function write_int_be_loop :: "byte list \<Rightarrow> int \<Rightarrow> int \<Rightarrow> int \<Rightarrow> int \<Rightarrow> int \<Rightarrow> byte list" where
  "write_int_be_loop b e t i f u =
     (if i - 1 \<ge> 0
      then (let i = i - 1; f = f * 256; u = borrow e u (u8_get b (t + i + 1))
            in write_int_be_loop (u8_set b (t + i) (band (ToInt32 (js_quot e f) - u) 255)) e t i f u)
      else b)"
  by pat_completeness auto
termination
  by (relation "measure (\<lambda>(b, e, t, i, f, u). nat i)") (auto simp: Let_def)

declare write_int_le_loop.simps [simp del] write_int_be_loop.simps [simp del]

definition writeIntLE :: "byte list \<Rightarrow> int \<Rightarrow> int \<Rightarrow> int \<Rightarrow> bool \<Rightarrow> (byte list \<times> int) result" where
  "writeIntLE b e t n noAssert =
     (let t = ToInt32 t; m = 2 ^ nat (8 * n - 1)
      in writing b noAssert e t n (m - 1) (- m)
           (write_int_le_loop (u8_set b t (band 255 e)) e t n 0 1 0))"

definition writeIntBE :: "byte list \<Rightarrow> int \<Rightarrow> int \<Rightarrow> int \<Rightarrow> bool \<Rightarrow> (byte list \<times> int) result" where
  "writeIntBE b e t n noAssert =
     (let t = ToInt32 t; m = 2 ^ nat (8 * n - 1)
      in writing b noAssert e t n (m - 1) (- m)
           (write_int_be_loop (u8_set b (t + (n - 1)) (band 255 e)) e t (n - 1) 1 0))"

definition writeInt8 :: "byte list \<Rightarrow> int \<Rightarrow> int \<Rightarrow> bool \<Rightarrow> (byte list \<times> int) result" where
  "writeInt8 b e t noAssert =
     (let t = ToInt32 t; v = (if e < 0 then 255 + e + 1 else e)
      in writing b noAssert e t 1 127 (-128) (u8_set b t (band 255 v)))"

definition writeInt16LE :: "bool \<Rightarrow> byte list \<Rightarrow> int \<Rightarrow> int \<Rightarrow> bool \<Rightarrow> (byte list \<times> int) result" where
  "writeInt16LE typed b e t noAssert =
     (let t = ToInt32 t
      in writing b noAssert e t 2 32767 (-32768)
           (if typed then u8_set (u8_set b t (band 255 e)) (t + 1) (shru e 8)
            else objectWriteUInt16 b e t True))"

definition writeInt16BE :: "bool \<Rightarrow> byte list \<Rightarrow> int \<Rightarrow> int \<Rightarrow> bool \<Rightarrow> (byte list \<times> int) result" where
  "writeInt16BE typed b e t noAssert =
     (let t = ToInt32 t
      in writing b noAssert e t 2 32767 (-32768)
           (if typed then u8_set (u8_set b t (shru e 8)) (t + 1) (band 255 e)
            else objectWriteUInt16 b e t False))"

definition writeInt32LE :: "bool \<Rightarrow> byte list \<Rightarrow> int \<Rightarrow> int \<Rightarrow> bool \<Rightarrow> (byte list \<times> int) result" where
  "writeInt32LE typed b e t noAssert =
     (let t = ToInt32 t
      in writing b noAssert e t 4 2147483647 (-2147483648)
           (if typed
            then u8_set (u8_set (u8_set (u8_set b t (band 255 e)) (t + 1) (shru e 8)) (t + 2) (shru e 16))
                   (t + 3) (shru e 24)
            else objectWriteUInt32 b e t True))"

definition writeInt32BE :: "bool \<Rightarrow> byte list \<Rightarrow> int \<Rightarrow> int \<Rightarrow> bool \<Rightarrow> (byte list \<times> int) result" where
  "writeInt32BE typed b e t noAssert =
     (let t = ToInt32 t; v = (if e < 0 then 4294967295 + e + 1 else e)
      in writing b noAssert e t 4 2147483647 (-2147483648)
           (if typed
            then u8_set (u8_set (u8_set (u8_set b t (shru v 24)) (t + 1) (shru v 16)) (t + 2) (shru v 8))
                   (t + 3) (band 255 v)
            else objectWriteUInt32 b v t False))"

section \<open>What a stored integer looks like\<close>

text \<open>Little-endian bytes of an integer, the integer of little-endian bytes, and two's complement.\<close>


fun le_bytes :: "nat \<Rightarrow> int \<Rightarrow> byte list" where
  "le_bytes 0 v = []"
| "le_bytes (Suc n) v = of_int v # le_bytes n (v div 256)"

fun le_val :: "byte list \<Rightarrow> int" where
  "le_val [] = 0"
| "le_val (x # xs) = uint x + 256 * le_val xs"

definition signed_val :: "nat \<Rightarrow> int \<Rightarrow> int" where
  "signed_val w v = (if v \<ge> 2 ^ (8 * w - 1) then v - 2 ^ (8 * w) else v)"

lemma length_le_bytes [simp]: "length (le_bytes n v) = n"
  by (induction n arbitrary: v) auto

lemma le_val_le_bytes: "le_val (le_bytes n v) = v mod 256 ^ n"
proof (induction n arbitrary: v)
  case (Suc n)
  have "v mod 256 ^ Suc n = v mod 256 + 256 * (v div 256 mod 256 ^ n)"
    using zmod_zmult2_eq [of "256 ^ n" v 256] by (simp add: add.commute)
  then show ?case by (simp add: Suc uint_of_int_byte)
qed simp

lemma le_val_bounds: "0 \<le> le_val xs" "le_val xs < 256 ^ length xs"
proof -
  have "0 \<le> le_val xs \<and> le_val xs < 256 ^ length xs"
  proof (induction xs)
    case (Cons x xs)
    have "uint x < 256" using unsigned_less [of x] by simp
    then show ?case using Cons by auto
  qed simp
  then show "0 \<le> le_val xs" "le_val xs < 256 ^ length xs" by auto
qed

lemma signed_val_mod:
  assumes "0 < w" "- (2 ^ (8 * w - 1)) \<le> v" "v < 2 ^ (8 * w - 1)"
  shows "signed_val w (v mod 256 ^ w) = v"
proof -
  define h :: int where "h = 2 ^ (8 * w - 1)"
  have "(2 :: int) ^ (8 * w) = 256 ^ w" by (simp add: power_mult)
  moreover have "(2 :: int) ^ Suc (8 * w - 1) = 2 ^ (8 * w)" using assms(1) by simp
  ultimately have full: "(256 :: int) ^ w = 2 * h" "(2 :: int) ^ (8 * w) = 2 * h"
    unfolding h_def by simp_all
  have h: "- h \<le> v" "v < h" "0 < h" using assms(2,3) unfolding h_def by simp_all
  have "v mod (2 * h) = (if v < 0 then v + 2 * h else v)"
  proof (cases "v < 0")
    case True
    have "v mod (2 * h) = (v + 2 * h) mod (2 * h)" by simp
    also have "\<dots> = v + 2 * h"
      by (rule mod_pos_pos_trivial) (use True h in simp_all)
    finally show ?thesis using True by simp
  qed (use h in simp)
  then show ?thesis
    using h unfolding signed_val_def full h_def [symmetric] by auto
qed


declare le_val.simps [simp del]

section \<open>Joining bytes by shifts\<close>

lemma bit_le_val [simp]:
  "\<not> bit (le_val []) i"
  "bit (le_val (x # xs)) i \<longleftrightarrow> bit x i \<or> 8 \<le> i \<and> bit (le_val xs) (i - 8)"
proof -
  have "le_val (x # xs) = uint x + push_bit 8 (le_val xs)"
    by (simp add: push_bit_eq_mult le_val.simps)
  also have "\<dots> = uint x OR push_bit 8 (le_val xs)"
    by (rule disjunctive_add) (auto simp: bit_push_bit_iff bit_uint_iff)
  finally show "bit (le_val (x # xs)) i \<longleftrightarrow> bit x i \<or> 8 \<le> i \<and> bit (le_val xs) (i - 8)"
    by (auto simp: bit_or_iff bit_push_bit_iff bit_uint_iff dest: bit_imp_le_length)
qed (simp add: le_val.simps)

lemma bit_uint_byte: "bit (uint (x :: byte)) i \<longleftrightarrow> bit x i"
  by (auto simp: bit_uint_iff dest: bit_imp_le_length)

lemma bit_byte_high: "8 \<le> i \<Longrightarrow> \<not> bit (x :: byte) i"
  using bit_byte [of x i] by auto


lemmas reader_bits = bit_bor bit_shl bit_uint_byte bit_signed_take_bit_iff

lemma join_16: "bor (uint x) (shl (uint y) 8) = le_val [x, y]"
  by (rule bit_eqI) (auto simp: reader_bits min_def bit_byte_high)

lemma join_24: "bor (le_val [x, y]) (shl (uint z) 16) = le_val [x, y, z]"
  by (rule bit_eqI) (auto simp: reader_bits min_def bit_byte_high)

lemma join_32:
  "bor (le_val [x, y, z]) (shl (uint w) 24) = signed_take_bit 31 (le_val [x, y, z, w])"
  by (rule bit_eqI) (auto simp: reader_bits min_def bit_byte_high)

lemma joins_be:
  "bor (shl (uint y) 8) (uint x) = le_val [x, y]"
  "bor (bor (shl (uint z) 16) (shl (uint y) 8)) (uint x) = le_val [x, y, z]"
  "bor (bor (bor (shl (uint w) 24) (shl (uint z) 16)) (shl (uint y) 8)) (uint x)
   = signed_take_bit 31 (le_val [x, y, z, w])"
  by (rule bit_eqI; auto simp: reader_bits min_def bit_byte_high)+

lemma signed_val_bits:
  assumes "0 < w" "0 \<le> v" "v < 256 ^ w"
  shows "signed_val w v = signed_take_bit (8 * w - 1) v"
proof -
  define k where "k = 8 * w - 1"
  have k: "8 * w = Suc k" using assms(1) by (simp add: k_def)
  have "(256 :: int) ^ w = 2 ^ Suc k" unfolding k [symmetric] by (simp add: power_mult)
  then have v: "v < 2 * 2 ^ k" using assms(3) by simp
  have "signed_take_bit k v = take_bit (Suc k) (v + 2 ^ k) - 2 ^ k"
    by (rule signed_take_bit_eq_take_bit_shift)
  also have "\<dots> = (v + 2 ^ k) mod (2 * 2 ^ k) - 2 ^ k" by (simp add: take_bit_eq_mod)
  also have "\<dots> = (if v \<ge> 2 ^ k then v - 2 * 2 ^ k else v)"
  proof (cases "v \<ge> 2 ^ k")
    case True
    have "(v + 2 ^ k) mod (2 * 2 ^ k) = (v - 2 ^ k) mod (2 * 2 ^ k)"
      using mod_add_self2 [of "v - 2 ^ k" "2 * 2 ^ k"] by (simp add: add.commute)
    also have "\<dots> = v - 2 ^ k" by (rule mod_pos_pos_trivial) (use True v in auto)
    finally show ?thesis using True by simp
  qed (use assms(2) v in simp)
  finally show ?thesis unfolding signed_val_def k_def [symmetric] k by simp
qed

lemma band_bit: "k < 31 \<Longrightarrow> band (2 ^ k) v = 0 \<longleftrightarrow> \<not> bit v k"
proof -
  assume k: "k < 31"
  then have "(2 :: int) ^ k < 2 ^ 31" by (intro power_strict_increasing) simp_all
  then have "ToInt32 (2 ^ k) = 2 ^ k" by (simp add: ToInt32_small)
  then show ?thesis using k by (simp add: band_def and.commute [of "2 ^ k"] and_exp_eq_0_iff_not_bit bit_ToInt32)
qed

lemma extend_8:
  fixes x :: byte
  shows "band 128 (uint x) \<noteq> 0 \<Longrightarrow> signed_val (Suc 0) (uint x) = uint x - 256"
  "band 128 (uint x) = 0 \<Longrightarrow> signed_val (Suc 0) (uint x) = uint x"
proof -
  have "uint x < 256" using unsigned_less [of x] by simp
  then have "uint x div 128 = (if uint x \<ge> 128 then 1 else 0)" by (simp add: div_pos_geq)
  then have "bit x 7 \<longleftrightarrow> uint x \<ge> 128"
    by (simp add: bit_uint_byte [symmetric] bit_iff_odd)
  then show "band 128 (uint x) \<noteq> 0 \<Longrightarrow> signed_val (Suc 0) (uint x) = uint x - 256"
    "band 128 (uint x) = 0 \<Longrightarrow> signed_val (Suc 0) (uint x) = uint x"
    using band_bit [of 7 "uint x"] by (simp_all add: signed_val_def bit_uint_byte)
qed

lemma extend_16:
  "(if band 32768 (le_val [x, y]) \<noteq> 0 then bor 4294901760 (le_val [x, y]) else le_val [x, y])
   = signed_val 2 (le_val [x, y])"
proof -
  have c: "bit (4294901760 :: int) i \<longleftrightarrow> 16 \<le> i \<and> i < 32" for i
  proof -
    have "(4294901760 :: int) = push_bit 16 (mask 16)" by (simp add: mask_eq_exp_minus_1)
    then show ?thesis unfolding \<open>4294901760 = _\<close> bit_push_bit_iff bit_mask_iff by auto
  qed
  have "signed_val 2 (le_val [x, y]) = signed_take_bit 15 (le_val [x, y])"
    using signed_val_bits [of 2 "le_val [x, y]"] le_val_bounds [of "[x, y]"] by simp
  moreover have "band 32768 (le_val [x, y]) = 0 \<longleftrightarrow> \<not> bit (le_val [x, y]) 15"
    using band_bit [of 15] by simp
  moreover have "(if bit (le_val [x, y]) 15 then bor 4294901760 (le_val [x, y]) else le_val [x, y])
      = signed_take_bit 15 (le_val [x, y])"
  proof (rule bit_eqI)
    fix i :: nat
    consider "i < 15" | "i = 15" | "16 \<le> i" by linarith
    then show "bit (if bit (le_val [x, y]) 15 then bor 4294901760 (le_val [x, y]) else le_val [x, y]) i
        = bit (signed_take_bit 15 (le_val [x, y])) i"
      by cases (auto simp: bit_bor c bit_signed_take_bit_iff min_def bit_byte_high)
  qed
  ultimately show ?thesis by simp
qed

section \<open>The accessors of fixed width\<close>

datatype accessor =
  UInt8 | UInt16LE | UInt16BE | UInt32LE | UInt32BE | Int8 | Int16LE | Int16BE | Int32LE | Int32BE

fun acc_write :: "accessor \<Rightarrow> bool \<Rightarrow> byte list \<Rightarrow> int \<Rightarrow> int \<Rightarrow> bool \<Rightarrow> (byte list \<times> int) result" where
  "acc_write UInt8 typed = writeUInt8"
| "acc_write UInt16LE typed = writeUInt16LE typed"
| "acc_write UInt16BE typed = writeUInt16BE typed"
| "acc_write UInt32LE typed = writeUInt32LE typed"
| "acc_write UInt32BE typed = writeUInt32BE typed"
| "acc_write Int8 typed = writeInt8"
| "acc_write Int16LE typed = writeInt16LE typed"
| "acc_write Int16BE typed = writeInt16BE typed"
| "acc_write Int32LE typed = writeInt32LE typed"
| "acc_write Int32BE typed = writeInt32BE typed"

fun acc_read :: "accessor \<Rightarrow> byte list \<Rightarrow> int \<Rightarrow> bool \<Rightarrow> int option result" where
  "acc_read UInt8 = readUInt8"
| "acc_read UInt16LE = readUInt16LE"
| "acc_read UInt16BE = readUInt16BE"
| "acc_read UInt32LE = readUInt32LE"
| "acc_read UInt32BE = readUInt32BE"
| "acc_read Int8 = readInt8"
| "acc_read Int16LE = readInt16LE"
| "acc_read Int16BE = readInt16BE"
| "acc_read Int32LE = readInt32LE"
| "acc_read Int32BE = readInt32BE"

fun acc_width :: "accessor \<Rightarrow> nat" where
  "acc_width a = (if a \<in> {UInt8, Int8} then 1
     else if a \<in> {UInt16LE, UInt16BE, Int16LE, Int16BE} then 2 else 4)"

definition acc_signed :: "accessor \<Rightarrow> bool" where
  "acc_signed a = (a \<in> {Int8, Int16LE, Int16BE, Int32LE, Int32BE})"

definition acc_le :: "accessor \<Rightarrow> bool" where
  "acc_le a = (a \<in> {UInt16LE, UInt32LE, Int16LE, Int32LE})"

definition acc_min :: "accessor \<Rightarrow> int" where
  "acc_min a = (if acc_signed a then - (2 ^ (8 * acc_width a - 1)) else 0)"

definition acc_max :: "accessor \<Rightarrow> int" where
  "acc_max a = (if acc_signed a then 2 ^ (8 * acc_width a - 1) else 2 ^ (8 * acc_width a)) - 1"

definition acc_order :: "accessor \<Rightarrow> byte list \<Rightarrow> byte list" where
  "acc_order a bs = (if acc_le a then bs else rev bs)"

definition acc_bytes :: "accessor \<Rightarrow> int \<Rightarrow> byte list" where
  "acc_bytes a v = acc_order a (le_bytes (acc_width a) v)"

definition acc_value :: "accessor \<Rightarrow> byte list \<Rightarrow> int" where
  "acc_value a bs = (let v = le_val (acc_order a bs) in if acc_signed a then signed_val (acc_width a) v else v)"

lemma le_bytes_unfold:
  "le_bytes 1 v = [of_int v]" "le_bytes (Suc 0) v = [of_int v]" 
  "le_bytes 2 v = [of_int v, of_int (v div 256)]"
  "le_bytes 4 v = [of_int v, of_int (v div 256), of_int (v div 65536), of_int (v div 16777216)]"
  by (simp_all add: numeral_nat zdiv_zmult2_eq [symmetric])

lemma shru_bytes:
  "of_int (shru v 8) = (of_int (v div 256) :: byte)"
  "of_int (shru v 16) = (of_int (v div 65536) :: byte)"
  "of_int (shru v 24) = (of_int (v div 16777216) :: byte)"
  "of_int (shru v 0) = (of_int v :: byte)"
  using of_int_shru [of 8 v] of_int_shru [of 16 v] of_int_shru [of 24 v] of_int_shru [of 0 v] by simp_all

lemma put_word:
  "p + 2 \<le> length b \<Longrightarrow> put b p [x, y] = b[p := x, Suc p := y]"
  "p + 4 \<le> length b \<Longrightarrow> put b p [x, y, z, w] = b[p := x, Suc p := y, Suc (Suc p) := z, Suc (Suc (Suc p)) := w]"
  "p < length b \<Longrightarrow> put b p [x] = b[p := x]"
  by (simp_all add: put_Cons)

lemma object16_bytes:
  "of_int (object_write16_byte v le k) = (of_int (v div 256 ^ (if le then k else 1 - k)) :: byte)" if "k < 2"
proof -
  let ?j = "if le then k else 1 - k"
  have h: "8 * ?j \<le> 8" using that by auto
  have c: "bit (255 :: int) i \<longleftrightarrow> i < 8" for i
    using bit_mask_iff [of 8 i, where 'a = int] by (simp add: mask_eq_exp_minus_1)
  have "bit (object_write16_byte v le k) i = bit (v div 256 ^ ?j) i" if "i < 8" for i
  proof -
    have "(256 :: int) ^ ?j = 2 ^ (8 * ?j)" by (simp add: power_mult)
    then have "v div 256 ^ ?j = drop_bit (8 * ?j) v" by (simp only: drop_bit_eq_div)
    moreover have "bit (ToUint32 (band v (shl 255 (8 * ?j)))) (8 * ?j + i) = bit v (8 * ?j + i)"
      using h that by (simp add: ToUint32_def bit_take_bit_iff band_def bit_and_iff bit_ToInt32 bit_shl c)
    ultimately show ?thesis
      by (simp add: object_write16_byte_def Let_def shru_def bit_drop_bit_eq)
  qed
  then show ?thesis by (rule of_int_byte_eqI)
qed

lemma u8_set_at:
  "p < length b \<Longrightarrow> u8_set b (int p) v = b[p := of_int v]"
  "Suc p < length b \<Longrightarrow> u8_set b (int p + 1) v = b[Suc p := of_int v]"
  "Suc (Suc p) < length b \<Longrightarrow> u8_set b (int p + 2) v = b[Suc (Suc p) := of_int v]"
  "Suc (Suc (Suc p)) < length b \<Longrightarrow> u8_set b (int p + 3) v = b[Suc (Suc (Suc p)) := of_int v]"
  by (auto simp: u8_set_def nat_add_distrib Suc_nat_eq_nat_zadd1 eval_nat_numeral intro!: arg_cong [of _ _ "\<lambda>i. b[i := of_int v]"])

lemma upt_2: "[0..<2] = [0, 1 :: nat]" and upt_4: "[0..<4] = [0, 1, 2, 3 :: nat]"
  by (simp_all add: upt_rec)

lemma byte_256: "(256 :: byte) = 0"
  by simp

lemma le_bytes_wrap: "le_bytes n (256 ^ n + v) = le_bytes n v"
proof (induction n arbitrary: v)
  case (Suc n)
  have "of_int (256 * 256 ^ n + v) = (of_int v :: byte)"
    by (simp add: byte_256)
  then show ?case using Suc by simp
qed simp

lemma object_write16:
  assumes "p + 2 \<le> length b"
  shows "objectWriteUInt16 b v (int p) le = put b p (if le then le_bytes 2 v else rev (le_bytes 2 v))"
proof -
  define v' where "v' = (if v < 0 then 65535 + v + 1 else v)"
  have "le_bytes 2 v' = le_bytes 2 v" using le_bytes_wrap [of 2 v] by (simp add: v'_def)
  moreover have "nat (min (int (length b) - int p) 2) = 2" using assms by simp
  then have "objectWriteUInt16 b v (int p) le
     = b[p := of_int (object_write16_byte v' le 0), Suc p := of_int (object_write16_byte v' le 1)]"
    using assms unfolding objectWriteUInt16_def Let_def v'_def [symmetric] by (simp add: upt_2 u8_set_at)
  then have "objectWriteUInt16 b v (int p) le = put b p (if le then le_bytes 2 v' else rev (le_bytes 2 v'))"
    using assms by (simp add: object16_bytes put_word le_bytes_unfold del: One_nat_def)
  ultimately show ?thesis by simp
qed

lemma object_write32:
  assumes "p + 4 \<le> length b"
  shows "objectWriteUInt32 b v (int p) le = put b p (if le then le_bytes 4 v else rev (le_bytes 4 v))"
proof -
  define v' where "v' = (if v < 0 then 4294967295 + v + 1 else v)"
  have "le_bytes 4 v' = le_bytes 4 v" using le_bytes_wrap [of 4 v] by (simp add: v'_def)
  moreover have "nat (min (int (length b) - int p) 4) = 4" using assms by simp
  then have "objectWriteUInt32 b v (int p) le = put b p (if le then le_bytes 4 v' else rev (le_bytes 4 v'))"
    using assms unfolding objectWriteUInt32_def Let_def v'_def [symmetric]
    by (cases le) (simp_all add: upt_4 u8_set_at put_word le_bytes_unfold shru_bytes)
  ultimately show ?thesis by simp
qed

text \<open>The buffers of the library have at most \<open>kMaxLength = 0x7fffffff\<close> bytes.\<close>

lemma writing_ok:
  "noAssert \<or> i \<le> v \<and> v \<le> m \<Longrightarrow> p + w \<le> length b \<Longrightarrow>
   writing b noAssert v (int p) (int w) m i b' = Inr (b', int (p + w))"
  by (auto simp: writing_def checkInt_def)

lemma offset_id: "p + w \<le> length b \<Longrightarrow> length b \<le> 2147483647 \<Longrightarrow> ToInt32 (int p) = int p"
  by (simp add: ToInt32_small)

lemmas writer_defs = writeUInt8_def writeUInt16LE_def writeUInt16BE_def writeUInt32LE_def writeUInt32BE_def
  writeInt8_def writeInt16LE_def writeInt16BE_def writeInt32LE_def writeInt32BE_def

lemmas acc_defs = acc_bytes_def acc_order_def acc_le_def acc_signed_def acc_min_def acc_max_def

lemma store_ok:
  assumes "p + acc_width a \<le> length b" "length b \<le> 2147483647"
    and "noAssert \<or> acc_min a \<le> v \<and> v \<le> acc_max a"
  shows "acc_write a typed b v (int p) noAssert = Inr (put b p (acc_bytes a v), int (p + acc_width a))"
proof -
  note w = writing_ok [where noAssert = noAssert and v = v and p = p and b = b]
  note facts = assms(1,3) offset_id [OF assms(1,2)]
    w [of 0 255 1] w [of 0 65535 2] w [of 0 4294967295 4] w [of "-128" 127 1] w [of "-32768" 32767 2]
    w [of "-2147483648" 2147483647 4]
  have "le_bytes 4 (if v < 0 then 4294967295 + v + 1 else v) = le_bytes 4 v"
    using le_bytes_wrap [of 4 v] by simp
  then show ?thesis
    using facts
    by (cases a; cases typed)
       (simp_all add: writer_defs Let_def acc_defs object_write16 object_write32 put_word u8_set_at
         shru_bytes le_bytes_unfold byte_256 list_update_swap)
qed

lemma reading_ok: "p + w \<le> length b \<Longrightarrow> reading b noAssert (int p) (int w) v = Inr v"
  by (simp add: reading_def checkOffset_def)

lemmas reader_defs = readUInt8_def readUInt16LE_def readUInt16BE_def readUInt32LE_def readUInt32BE_def
  readInt8_def readInt16LE_def readInt16BE_def readInt32LE_def readInt32BE_def

lemma u8_get_at:
  "p < length b \<Longrightarrow> u8_get b (int p) = Some (uint (b ! p))"
  "Suc p < length b \<Longrightarrow> u8_get b (int p + 1) = Some (uint (b ! Suc p))"
  "Suc (Suc p) < length b \<Longrightarrow> u8_get b (int p + 2) = Some (uint (b ! Suc (Suc p)))"
  "Suc (Suc (Suc p)) < length b \<Longrightarrow> u8_get b (int p + 3) = Some (uint (b ! Suc (Suc (Suc p))))"
  by (auto simp: u8_get_def nat_add_distrib Suc_nat_eq_nat_zadd1 eval_nat_numeral)

lemma take_drop_at:
  "p < length b \<Longrightarrow> take (Suc 0) (drop p b) = [b ! p]"
  "p + 2 \<le> length b \<Longrightarrow> take 2 (drop p b) = [b ! p, b ! Suc p]"
  "p + 4 \<le> length b \<Longrightarrow> take 4 (drop p b) = [b ! p, b ! Suc p, b ! Suc (Suc p), b ! Suc (Suc (Suc p))]"
  by (simp_all add: numeral_nat Cons_nth_drop_Suc [symmetric])

lemma le_val_top:
  "le_val [x] = uint x"
  "le_val [x, y, z] + 16777216 * uint w = le_val [x, y, z, w]"
  "16777216 * uint w + le_val [x, y, z] = le_val [x, y, z, w]"
  by (simp_all add: le_val.simps)

lemma extend_32: "signed_take_bit 31 (le_val [x, y, z, w]) = signed_val 4 (le_val [x, y, z, w])"
  using signed_val_bits [of 4 "le_val [x, y, z, w]"] le_val_bounds [of "[x, y, z, w]"] by simp

lemma fetch_ok:
  assumes "p + acc_width a \<le> length b"
  shows "acc_read a b (int p) noAssert = Inr (Some (acc_value a (take (acc_width a) (drop p b))))"
proof -
  note r = reading_ok [where noAssert = noAssert and p = p and b = b]
  show ?thesis
    using assms r [of 1] r [of 2] r [of 4]
    by (cases a)
       (simp_all add: reader_defs acc_value_def Let_def acc_defs u8_get_at take_drop_at num0_def num_lift2_def
         join_16 join_24 join_32 joins_be le_val_top extend_8 extend_16 extend_32)
qed

section \<open>The loops of the accessors of any width\<close>

lemma le_val_snoc: "le_val (xs @ [x]) = le_val xs + 256 ^ length xs * uint x"
  by (induction xs) (simp_all add: le_val.simps algebra_simps)

lemma read_le_loop_val:
  assumes "p + n \<le> length b" "i < n"
  shows "read_le_loop b (int p) (int n) (int i) (256 ^ i) (Some (le_val (take (Suc i) (drop p b))))
    = (Some (le_val (take n (drop p b))), 256 ^ (n - 1))"
  using assms
proof (induction "n - i" arbitrary: i)
  case 0
  then show ?case by simp
next
  case (Suc m)
  show ?case
  proof (cases "Suc i < n")
    case True
    have "take (Suc (Suc i)) (drop p b) = take (Suc i) (drop p b) @ [b ! (p + Suc i)]"
      using True Suc.prems by (simp add: take_Suc_conv_app_nth)
    then have "le_val (take (Suc (Suc i)) (drop p b))
        = le_val (take (Suc i) (drop p b)) + uint (b ! (p + Suc i)) * (256 ^ i * 256)"
      using True Suc.prems by (simp add: le_val_snoc)
    moreover have "u8_get b (int p + (int i + 1)) = Some (uint (b ! (p + Suc i)))"
      using u8_get_in [of "p + Suc i" b] True Suc.prems by (simp add: ac_simps)
    ultimately show ?thesis
      using Suc.hyps(1) [of "Suc i"] Suc.hyps(2) Suc.prems True
      by (subst read_le_loop.simps) (simp add: num_lift2_def add.commute mult.commute)
  next
    case False
    then have "Suc i = n" using Suc.prems by simp
    then show ?thesis by (subst read_le_loop.simps) auto
  qed
qed

lemma read_be_loop_val:
  assumes "p + n \<le> length b" "k < n"
  shows "read_be_loop b (int p) (int k) (256 ^ (n - 1 - k)) (Some (le_val (rev (drop k (take n (drop p b))))))
    = (Some (le_val (rev (take n (drop p b)))), 256 ^ (n - 1))"
  using assms
proof (induction k)
  case 0
  then show ?case by (subst read_be_loop.simps) simp
next
  case (Suc k)
  let ?t = "take n (drop p b)"
  have "drop k ?t = b ! (p + k) # drop (Suc k) ?t"
    using Cons_nth_drop_Suc [of k ?t] Suc.prems by simp
  then have "le_val (rev (drop k ?t)) = le_val (rev (drop (Suc k) ?t)) + uint (b ! (p + k)) * (256 ^ (n - 1 - Suc k) * 256)"
    using Suc.prems by (simp add: le_val_snoc Suc_diff_Suc flip: power_Suc2)
  moreover have "256 ^ (n - 1 - Suc k) * 256 = (256 :: int) ^ (n - 1 - k)"
    using Suc.prems by (simp flip: power_Suc2 add: Suc_diff_Suc)
  moreover have "u8_get b (int p + int k) = Some (uint (b ! (p + k)))"
    using u8_get_in [of "p + k" b] Suc.prems by simp
  ultimately show ?case
    using Suc by (subst read_be_loop.simps) (simp add: num_lift2_def)
qed

lemma js_quot_pos: "0 \<le> e \<Longrightarrow> 0 < f \<Longrightarrow> js_quot e f = e div f"
  by (cases "e = 0") (auto simp: js_quot_def)

lemma write_le_loop_puts:
  assumes "0 \<le> e" "p + n \<le> length b" "i < n"
  shows "write_le_loop b e (int p) (int n) (int i) (256 ^ i)
    = put b (p + Suc i) (le_bytes (n - Suc i) (e div 256 ^ Suc i))"
  using assms
proof (induction "n - i" arbitrary: i b)
  case 0
  then show ?case by simp
next
  case (Suc m)
  show ?case
  proof (cases "Suc i < n")
    case True
    have "u8_set b (int p + (int i + 1)) (band (js_quot e (256 ^ i * 256)) 255)
        = b[p + Suc i := of_int (e div 256 ^ Suc i)]"
      using u8_set_in [of "p + Suc i" b] True Suc.prems by (simp add: js_quot_pos ac_simps)
    moreover have "e div 256 ^ Suc i div 256 = e div 256 ^ Suc (Suc i)"
      by (simp add: zdiv_zmult2_eq [symmetric] mult.commute)
    moreover have "n - Suc i = Suc (n - Suc (Suc i))" using True by simp
    ultimately show ?thesis
      using Suc.hyps(1) [of "Suc i" "b[p + Suc i := of_int (e div 256 ^ Suc i)]"] Suc.hyps(2) Suc.prems True
      by (subst write_le_loop.simps) (simp add: put_Cons add.commute mult.commute)
  next
    case False
    then have "Suc i = n" using Suc.prems by simp
    then show ?thesis by (subst write_le_loop.simps) auto
  qed
qed

lemma write_be_loop_puts:
  assumes "0 \<le> e" "p + k \<le> length b"
  shows "write_be_loop b e (int p) (int k) (256 ^ i) = put b p (rev (le_bytes k (e div 256 ^ Suc i)))"
  using assms
proof (induction k arbitrary: i b)
  case 0
  then show ?case by (subst write_be_loop.simps) simp
next
  case (Suc k)
  have "u8_set b (int p + int k) (band (js_quot e (256 ^ i * 256)) 255) = b[p + k := of_int (e div 256 ^ Suc i)]"
    using u8_set_in [of "p + k" b] Suc.prems by (simp add: js_quot_pos mult.commute)
  moreover have "e div 256 ^ Suc i div 256 = e div 256 ^ Suc (Suc i)"
    by (simp add: zdiv_zmult2_eq [symmetric] mult.commute)
  ultimately show ?case
    using Suc.IH [of "b[p + k := of_int (e div 256 ^ Suc i)]" "Suc i"] Suc.prems
    by (subst write_be_loop.simps) (simp add: put_snoc mult.commute)
qed

lemma of_int_ToInt32 [simp]: "of_int (ToInt32 v) = (of_int v :: byte)"
  by (rule of_int_byte_eqI) (simp add: bit_ToInt32)

definition owes :: "int \<Rightarrow> nat \<Rightarrow> int" where
  "owes e i = (if e < 0 \<and> e mod 256 ^ i \<noteq> 0 then 1 else 0)"

lemma quot_minus_owes: "js_quot e (256 ^ i) - owes e i = e div 256 ^ i"
proof (cases "e < 0")
  case True
  have "256 ^ i \<noteq> e mod 256 ^ i" by (metis less_irrefl pos_mod_bound zero_less_numeral zero_less_power)
  then show ?thesis
    using True zdiv_zminus1_eq_if [of "256 ^ i" "- e"] by (simp add: js_quot_def owes_def zmod_zminus1_eq_if)
qed (simp add: js_quot_pos owes_def)

lemma borrow_owes:
  "below = Some (e div 256 ^ i mod 256) \<Longrightarrow> borrow e (owes e i) below = owes e (Suc i)"
proof -
  have "e mod (256 ^ i * 256) = 256 ^ i * (e div 256 ^ i mod 256) + e mod 256 ^ i"
    by (rule zmod_zmult2_eq) simp
  moreover have "0 \<le> e mod 256 ^ i" "0 \<le> 256 ^ i * (e div 256 ^ i mod 256)" by simp_all
  ultimately have "e mod 256 ^ Suc i = 0 \<longleftrightarrow> e mod 256 ^ i = 0 \<and> e div 256 ^ i mod 256 = 0"
    unfolding power_Suc2 by (metis add_nonneg_eq_0_iff mult_eq_0_iff power_not_zero zero_neq_numeral)
  then show "below = Some (e div 256 ^ i mod 256) \<Longrightarrow> borrow e (owes e i) below = owes e (Suc i)"
    by (auto simp: borrow_def owes_def)
qed

lemma int_byte:
  "of_int (band (ToInt32 (js_quot e (256 ^ i)) - owes e i) 255) = (of_int (e div 256 ^ i) :: byte)"
  using arg_cong [OF quot_minus_owes [of e i], of "of_int :: int \<Rightarrow> byte"] by simp

lemma write_int_le_loop_puts:
  assumes "p + n \<le> length b" "i < n" "b ! (p + i) = of_int (e div 256 ^ i)"
  shows "write_int_le_loop b e (int p) (int n) (int i) (256 ^ i) (owes e i)
    = put b (p + Suc i) (le_bytes (n - Suc i) (e div 256 ^ Suc i))"
  using assms
proof (induction "n - i" arbitrary: i b)
  case 0
  then show ?case by simp
next
  case (Suc m)
  show ?case
  proof (cases "Suc i < n")
    case True
    let ?b = "b[p + Suc i := of_int (e div 256 ^ Suc i)]"
    have "u8_get b (int p + (int i + 1) - 1) = Some (e div 256 ^ i mod 256)"
      using u8_get_in [of "p + i" b] Suc.prems by (simp add: uint_of_int_byte)
    then have u: "borrow e (owes e i) (u8_get b (int p + (int i + 1) - 1)) = owes e (Suc i)"
      by (rule borrow_owes)
    have "u8_set b (int p + (int i + 1)) (band (ToInt32 (js_quot e (256 ^ Suc i)) - owes e (Suc i)) 255) = ?b"
      using u8_set_in [of "p + Suc i" b] True Suc.prems int_byte [of e "Suc i"] by (simp add: ac_simps)
    moreover have "e div 256 ^ Suc i div 256 = e div 256 ^ Suc (Suc i)"
      by (simp add: zdiv_zmult2_eq [symmetric] mult.commute)
    moreover have "n - Suc i = Suc (n - Suc (Suc i))" using True by simp
    ultimately show ?thesis
      using Suc.hyps(1) [of "Suc i" ?b] Suc.hyps(2) Suc.prems True u
      by (subst write_int_le_loop.simps) (simp add: put_Cons add.commute mult.commute)
  next
    case False
    then have "Suc i = n" using Suc.prems by simp
    then show ?thesis by (subst write_int_le_loop.simps) auto
  qed
qed

lemma write_int_be_loop_puts:
  assumes "p + k < length b" "b ! (p + k) = of_int (e div 256 ^ i)"
  shows "write_int_be_loop b e (int p) (int k) (256 ^ i) (owes e i)
    = put b p (rev (le_bytes k (e div 256 ^ Suc i)))"
  using assms
proof (induction k arbitrary: i b)
  case 0
  then show ?case by (subst write_int_be_loop.simps) simp
next
  case (Suc k)
  let ?b = "b[p + k := of_int (e div 256 ^ Suc i)]"
  have "u8_get b (int p + int k + 1) = Some (e div 256 ^ i mod 256)"
    using u8_get_in [of "p + Suc k" b] Suc.prems by (simp add: uint_of_int_byte ac_simps)
  then have u: "borrow e (owes e i) (u8_get b (int p + int k + 1)) = owes e (Suc i)"
    by (rule borrow_owes)
  have "u8_set b (int p + int k) (band (ToInt32 (js_quot e (256 ^ Suc i)) - owes e (Suc i)) 255) = ?b"
    using u8_set_in [of "p + k" b] Suc.prems int_byte [of e "Suc i"] by simp
  moreover have "e div 256 ^ Suc i div 256 = e div 256 ^ Suc (Suc i)"
    by (simp add: zdiv_zmult2_eq [symmetric] mult.commute)
  ultimately show ?case
    using Suc.IH [of ?b "Suc i"] Suc.prems u
    by (subst write_int_be_loop.simps) (simp add: put_snoc mult.commute)
qed

section \<open>The contract of a pair of accessors\<close>

text \<open>Values written one after the other, each at the offset the previous write returned.\<close>

primrec write_each ::
  "(byte list \<Rightarrow> int \<Rightarrow> int \<Rightarrow> (byte list \<times> int) result) \<Rightarrow> byte list \<Rightarrow> int \<Rightarrow> int list \<Rightarrow> (byte list \<times> int) result" where
  "write_each wr b t [] = Inr (b, t)"
| "write_each wr b t (v # vs) = (case wr b v t of Inl err \<Rightarrow> Inl err | Inr (b', t') \<Rightarrow> write_each wr b' t' vs)"

locale slot_access =
  fixes wr :: "byte list \<Rightarrow> int \<Rightarrow> int \<Rightarrow> (byte list \<times> int) result"
    and rd :: "byte list \<Rightarrow> int \<Rightarrow> int option result"
    and width :: nat
    and fits_slot :: "int \<Rightarrow> bool"
    and enc :: "int \<Rightarrow> byte list"
    and dec :: "byte list \<Rightarrow> int"
  assumes wr_in: "fits_slot v \<Longrightarrow> p + width \<le> length b \<Longrightarrow> length b \<le> 2147483647 \<Longrightarrow>
      wr b v (int p) = Inr (put b p (enc v), int (p + width))"
    and rd_in: "p + width \<le> length b \<Longrightarrow> length b \<le> 2147483647 \<Longrightarrow>
      rd b (int p) = Inr (Some (dec (take width (drop p b))))"
    and length_enc: "length (enc v) = width"
    and dec_enc: "fits_slot v \<Longrightarrow> dec (enc v) = v"
begin

lemma read_back:
  assumes "fits_slot v" "p + width \<le> length b" "length b \<le> 2147483647"
  shows "rd (put b p (enc v)) (int p) = Inr (Some v)"
proof -
  have "take width (drop p (put b p (enc v))) = enc v"
    using assms(2) length_enc [of v] by (simp add: put_def)
  then show ?thesis using assms length_enc [of v] by (simp add: rd_in dec_enc)
qed

lemma read_elsewhere:
  assumes "q + width \<le> p \<or> p + width \<le> q" "p + width \<le> length b" "q + width \<le> length b"
    "length b \<le> 2147483647"
  shows "rd (put b p (enc v)) (int q) = rd b (int q)"
proof -
  have "take width (drop q (put b p (enc v))) = take width (drop q b)"
    by (rule nth_equalityI) (use assms length_enc [of v] in \<open>auto simp: nth_put\<close>)
  then show ?thesis using assms length_enc [of v] by (simp add: rd_in)
qed

lemma write_each_read:
  assumes "\<forall>v \<in> set vs. fits_slot v" "p + width * length vs \<le> length b" "length b \<le> 2147483647"
  shows "\<exists>b'. write_each wr b (int p) vs = Inr (b', int (p + width * length vs)) \<and> length b' = length b
    \<and> (\<forall>i < length vs. rd b' (int (p + width * i)) = Inr (Some (vs ! i)))
    \<and> (\<forall>q. q + width \<le> p \<longrightarrow> rd b' (int q) = rd b (int q))"
  using assms
proof (induction vs arbitrary: b p)
  case (Cons v vs)
  let ?b = "put b p (enc v)"
  have room: "p + width \<le> length b" using Cons.prems(2) by simp
  then have len: "length ?b = length b" using length_enc [of v] by simp
  have step: "wr b v (int p) = Inr (?b, int (p + width))"
    using Cons.prems room by (intro wr_in) auto
  obtain b' where b': "write_each wr ?b (int (p + width)) vs = Inr (b', int (p + width + width * length vs))"
    "length b' = length b" 
    "\<forall>i < length vs. rd b' (int (p + width + width * i)) = Inr (Some (vs ! i))"
    "\<forall>q. q + width \<le> p + width \<longrightarrow> rd b' (int q) = rd ?b (int q)"
    using Cons.IH [of "p + width" ?b] Cons.prems len by (auto simp: add.assoc)
  have "rd b' (int p) = Inr (Some v)"
    using b'(4) read_back [of v p b] Cons.prems room by simp
  then have "rd b' (int (p + width * i)) = Inr (Some ((v # vs) ! i))" if "i < length (v # vs)" for i
    using that b'(3) by (cases i) (auto simp: add.assoc)
  moreover have "rd b' (int q) = rd b (int q)" if "q + width \<le> p" for q
    using that b'(4) read_elsewhere [of q p b v] Cons.prems room by simp
  ultimately show ?case using step b'(1,2) by (auto simp: add.assoc)
qed simp

end

lemma acc_roundtrip: "acc_min a \<le> v \<Longrightarrow> v \<le> acc_max a \<Longrightarrow> acc_value a (acc_bytes a v) = v"
proof -
  assume v: "acc_min a \<le> v" "v \<le> acc_max a"
  have "acc_order a (acc_bytes a v) = le_bytes (acc_width a) v"
    by (simp add: acc_bytes_def acc_order_def)
  moreover have "signed_val (acc_width a) (v mod 256 ^ acc_width a) = v" if "acc_signed a"
    by (rule signed_val_mod) (use v that in \<open>auto simp: acc_min_def acc_max_def\<close>)
  moreover have "v mod 256 ^ acc_width a = v" if "\<not> acc_signed a"
    by (rule mod_pos_pos_trivial) (use v that in \<open>auto simp: acc_min_def acc_max_def power_mult\<close>)
  ultimately show ?thesis by (simp add: acc_value_def Let_def le_val_le_bytes)
qed

interpretation fixed: slot_access "\<lambda>b v t. acc_write a typed b v t False" "\<lambda>b t. acc_read a b t False"
  "acc_width a" "\<lambda>v. acc_min a \<le> v \<and> v \<le> acc_max a" "acc_bytes a" "acc_value a" for a typed
proof unfold_locales
  show "length (acc_bytes a v) = acc_width a" for v
    by (simp add: acc_bytes_def acc_order_def)
qed (use store_ok fetch_ok acc_roundtrip in blast)+


section \<open>Accessors of any width\<close>

fun any_write :: "bool \<Rightarrow> bool \<Rightarrow> byte list \<Rightarrow> int \<Rightarrow> int \<Rightarrow> int \<Rightarrow> bool \<Rightarrow> (byte list \<times> int) result" where
  "any_write False True = writeUIntLE"
| "any_write False False = writeUIntBE"
| "any_write True True = writeIntLE"
| "any_write True False = writeIntBE"

fun any_read :: "bool \<Rightarrow> bool \<Rightarrow> byte list \<Rightarrow> int \<Rightarrow> int \<Rightarrow> bool \<Rightarrow> int option result" where
  "any_read False True = readUIntLE"
| "any_read False False = readUIntBE"
| "any_read True True = readIntLE"
| "any_read True False = readIntBE"

definition any_range :: "bool \<Rightarrow> nat \<Rightarrow> int \<Rightarrow> bool" where
  "any_range sg n v =
     (if sg then - (2 ^ (8 * n - 1)) \<le> v \<and> v < 2 ^ (8 * n - 1) else 0 \<le> v \<and> v < 2 ^ (8 * n))"

definition any_bytes :: "bool \<Rightarrow> nat \<Rightarrow> int \<Rightarrow> byte list" where
  "any_bytes le n v = (if le then le_bytes n v else rev (le_bytes n v))"

definition any_value :: "bool \<Rightarrow> bool \<Rightarrow> nat \<Rightarrow> byte list \<Rightarrow> int" where
  "any_value sg le n bs =
     (let v = le_val (if le then bs else rev bs) in if sg then signed_val n v else v)"

lemma put_first: "p + n \<le> length b \<Longrightarrow> 0 < n \<Longrightarrow>
   put (b[p := of_int v]) (Suc p) (le_bytes (n - 1) (v div 256)) = put b p (le_bytes n v)"
  by (cases n) (simp_all add: put_Cons)

lemma put_last: "p + n \<le> length b \<Longrightarrow> 0 < n \<Longrightarrow>
   put (b[p + (n - 1) := of_int v]) p (rev (le_bytes (n - 1) (v div 256))) = put b p (rev (le_bytes n v))"
  by (cases n) (simp_all add: put_snoc)

lemma width_id: "n \<le> 6 \<Longrightarrow> ToInt32 (int n) = int n"
  by (simp add: ToInt32_small)

lemma any_loops:
  assumes "p + n \<le> length b" "0 < n"
  shows "0 \<le> v \<Longrightarrow> write_le_loop (u8_set b (int p) (band 255 v)) v (int p) (int n) 0 1 = put b p (le_bytes n v)"
    and "0 \<le> v \<Longrightarrow> write_be_loop (u8_set b (int p + (int n - 1)) (band 255 v)) v (int p) (int n - 1) 1
      = put b p (rev (le_bytes n v))"
    and "write_int_le_loop (u8_set b (int p) (band 255 v)) v (int p) (int n) 0 1 0 = put b p (le_bytes n v)"
    and "write_int_be_loop (u8_set b (int p + (int n - 1)) (band 255 v)) v (int p) (int n - 1) 1 0
      = put b p (rev (le_bytes n v))"
proof -
  have n: "int n - 1 = int (n - 1)" using assms(2) by simp
  have first: "u8_set b (int p) (band 255 v) = b[p := of_int v]"
    using assms by (simp add: u8_set_in)
  have last: "u8_set b (int p + (int n - 1)) (band 255 v) = b[p + (n - 1) := of_int v]"
    using u8_set_in [of "p + (n - 1)" b "band 255 v"] assms unfolding n by (simp add: add_diff_eq)
  have owes0: "owes v 0 = 0" by (simp add: owes_def)
  show "0 \<le> v \<Longrightarrow> write_le_loop (u8_set b (int p) (band 255 v)) v (int p) (int n) 0 1 = put b p (le_bytes n v)"
    using write_le_loop_puts [of v p n "b[p := of_int v]" 0] put_first [of p n b v] assms
    unfolding first by simp
  show "write_int_le_loop (u8_set b (int p) (band 255 v)) v (int p) (int n) 0 1 0 = put b p (le_bytes n v)"
    using write_int_le_loop_puts [of p n "b[p := of_int v]" 0 v] put_first [of p n b v] assms
    unfolding first owes0 by simp
  show "0 \<le> v \<Longrightarrow> write_be_loop (u8_set b (int p + (int n - 1)) (band 255 v)) v (int p) (int n - 1) 1
      = put b p (rev (le_bytes n v))"
    using write_be_loop_puts [of v p "n - 1" "b[p + (n - 1) := of_int v]" 0] put_last [of p n b v] assms
    unfolding last unfolding n by simp
  show "write_int_be_loop (u8_set b (int p + (int n - 1)) (band 255 v)) v (int p) (int n - 1) 1 0
      = put b p (rev (le_bytes n v))"
    using write_int_be_loop_puts [of p "n - 1" "b[p + (n - 1) := of_int v]" v 0] put_last [of p n b v] assms
    unfolding last owes0 unfolding n by simp
qed

lemma any_store_ok:
  assumes "p + n \<le> length b" "length b \<le> 2147483647" "0 < n" "n \<le> 6" "any_range sg n v"
  shows "any_write sg le b v (int p) (int n) False = Inr (put b p (any_bytes le n v), int (p + n))"
proof -
  have id: "ToInt32 (int p) = int p" "ToInt32 (int n) = int n"
    using assms offset_id width_id by blast+
  have "nat (8 * int n) = 8 * n" "nat (8 * int n - 1) = 8 * n - 1" by auto
  then show ?thesis
    using assms any_loops [of p n b v]
    by (cases sg; cases le)
       (simp_all add: writeUIntLE_def writeUIntBE_def writeIntLE_def writeIntBE_def id Let_def any_range_def
         any_bytes_def writing_ok)
qed

lemma any_fetch_ok:
  assumes "p + n \<le> length b" "length b \<le> 2147483647" "0 < n" "n \<le> 6"
  shows "any_read sg le b (int p) (int n) False = Inr (Some (any_value sg le n (take n (drop p b))))"
proof -
  have id: "ToInt32 (int p) = int p" "ToInt32 (int n) = int n"
    using assms offset_id width_id by blast+
  have n: "int n - 1 = int (n - 1)" "nat (8 * int n) = 8 * n" using assms(3) by auto
  have "u8_get b (int p) = Some (le_val (take (Suc 0) (drop p b)))"
    using assms by (simp add: u8_get_in take_drop_at le_val_top)
  then have le: "read_le_loop b (int p) (int n) 0 1 (u8_get b (int p)) = (Some (le_val (take n (drop p b))), 256 ^ (n - 1))"
    using read_le_loop_val [of p n b 0] assms by simp
  have "drop (n - 1) (take n (drop p b)) = [b ! (p + (n - 1))]"
    using Cons_nth_drop_Suc [of "n - 1" "take n (drop p b)"] assms by simp
  then have be: "read_be_loop b (int p) (int n - 1) 1 (u8_get b (int p + (int n - 1)))
      = (Some (le_val (rev (take n (drop p b)))), 256 ^ (n - 1))"
    using read_be_loop_val [of p n b "n - 1"] u8_get_in [of "p + (n - 1)" b] assms
    unfolding n(1) by (simp add: le_val_top add_diff_eq)
  have "(256 :: int) ^ (n - 1) * 128 = 2 ^ (8 * n - 1)"
  proof -
    have "(256 :: int) ^ (n - 1) = 2 ^ (8 * (n - 1))" by (simp add: power_mult)
    moreover have "8 * n - 1 = 8 * (n - 1) + 7" using assms(3) by simp
    ultimately show ?thesis by (simp add: power_add)
  qed
  then have sign: "sign_adjust (int n) (Some v, 256 ^ (n - 1)) = Some (signed_val n v)" for v
    by (simp add: sign_adjust_def signed_val_def n(2))
  show ?thesis
    using assms
    by (cases sg; cases le)
       (simp_all add: readUIntLE_def readUIntBE_def readIntLE_def readIntBE_def id Let_def any_value_def
         reading_ok le be sign del: One_nat_def)
qed

datatype any_width = W1 | W2 | W3 | W4 | W5 | W6

fun bytes_of :: "any_width \<Rightarrow> nat" where
  "bytes_of W1 = 1" | "bytes_of W2 = 2" | "bytes_of W3 = 3" | "bytes_of W4 = 4" | "bytes_of W5 = 5" | "bytes_of W6 = 6"

lemma bytes_of_range: "0 < bytes_of w" "bytes_of w \<le> 6"
  by (cases w; simp)+

lemma bytes_of_onto: "0 < n \<Longrightarrow> n \<le> 6 \<Longrightarrow> \<exists>w. n = bytes_of w"
  using bytes_of.simps by (metis One_nat_def Suc_leI le_SucE le_antisym numeral_nat)

lemma any_roundtrip:
  assumes "0 < n" "any_range sg n v"
  shows "any_value sg le n (any_bytes le n v) = v"
  using assms signed_val_mod [of n v]
  by (auto simp: any_value_def any_bytes_def any_range_def Let_def le_val_le_bytes power_mult)

interpretation any: slot_access "\<lambda>b v t. any_write sg le b v t (int (bytes_of w)) False"
  "\<lambda>b t. any_read sg le b t (int (bytes_of w)) False" "bytes_of w" "any_range sg (bytes_of w)"
  "any_bytes le (bytes_of w)" "any_value sg le (bytes_of w)" for sg le w
proof unfold_locales
  show "length (any_bytes le (bytes_of w) v) = bytes_of w" for v
    by (simp add: any_bytes_def)
qed (simp_all add: any_store_ok any_fetch_ok any_roundtrip bytes_of_range)

section \<open>Errors\<close>

lemma write_error:
  "acc_write a typed b v t False
     = (if v < acc_min a \<or> acc_max a < v then Inl (RangeError ''\"value\" argument is out of bounds'')
        else if ToInt32 t + int (acc_width a) > int (length b) then Inl (RangeError ''Index out of range'')
        else acc_write a typed b v t True)"
  by (cases a) (auto simp: writer_defs Let_def writing_def checkInt_def acc_min_def acc_max_def acc_signed_def)

lemma read_error:
  "acc_read a b t False
     = (if t < 0 then Inl (RangeError ''offset is not uint'')
        else if t + int (acc_width a) > int (length b)
        then Inl (RangeError ''Trying to access beyond buffer length'')
        else acc_read a b t True)"
  by (cases a) (auto simp: reader_defs Let_def reading_def checkOffset_def)

section \<open>Properties\<close>

text \<open>
  C22: for every fixed-width accessor and both storage paths, writing a sequence of values in the
  range of the type, each at the offset the previous write returned, succeeds, returns the offset
  behind the last one, and reading the slots returns the values; slots below are untouched.\<close>

theorem fixed_write_read:
  assumes "\<forall>v \<in> set vs. acc_min a \<le> v \<and> v \<le> acc_max a"
    and "p + acc_width a * length vs \<le> length b" "length b \<le> 2147483647"
  shows "\<exists>b'. write_each (\<lambda>b v t. acc_write a typed b v t False) b (int p) vs
        = Inr (b', int (p + acc_width a * length vs)) \<and> length b' = length b
    \<and> (\<forall>i < length vs. acc_read a b' (int (p + acc_width a * i)) False = Inr (Some (vs ! i)))
    \<and> (\<forall>q. q + acc_width a \<le> p \<longrightarrow> acc_read a b' (int q) False = acc_read a b (int q) False)"
  by (rule fixed.write_each_read [OF assms])

theorem fixed_write_read_witness:
  "\<exists>b'. write_each (\<lambda>b v t. acc_write Int16BE False b v t False) [1, 2, 3, 4, 5, 6] (int 2) [-2, 300]
        = Inr (b', int 6) \<and> length b' = length [1, 2, 3, 4, 5, 6 :: byte]
    \<and> (\<forall>i < length [-2, 300 :: int]. acc_read Int16BE b' (int (2 + 2 * i)) False = Inr (Some ([-2, 300] ! i)))
    \<and> (\<forall>q. q + 2 \<le> 2 \<longrightarrow> acc_read Int16BE b' (int q) False = acc_read Int16BE [1, 2, 3, 4, 5, 6] (int q) False)"
  using fixed_write_read [of "[-2, 300]" Int16BE 2 "[1, 2, 3, 4, 5, 6]" False]
  by (simp add: acc_min_def acc_max_def acc_signed_def)

text \<open>
  C21: the accessors of any width from 1 to 6 bytes, of both byte orders, signed (with the borrow of
  the truncating division) and unsigned: a value of the range is stored and read back, and reads
  of every slot apart from it are unchanged.\<close>

theorem any_width_write_read:
  assumes "0 < n" "n \<le> 6" "any_range sg n v" "p + n \<le> length b" "length b \<le> 2147483647"
  shows "\<exists>b'. any_write sg le b v (int p) (int n) False = Inr (b', int (p + n))
    \<and> any_read sg le b' (int p) (int n) False = Inr (Some v)
    \<and> (\<forall>q. q + n \<le> length b \<and> (q + n \<le> p \<or> p + n \<le> q) \<longrightarrow>
          any_read sg le b' (int q) (int n) False = any_read sg le b (int q) (int n) False)"
proof -
  obtain w where w: "n = bytes_of w" using bytes_of_onto assms(1,2) by blast
  show ?thesis
    using any.wr_in [of sg w v p b le] any.read_back [of sg w v p b le] any.read_elsewhere [of _ w p b sg le v] assms
    unfolding w by blast
qed

theorem any_width_write_read_witness:
  "\<exists>b'. any_write True True [0, 0, 0, 0, 9] (-70000) (int 1) (int 3) False = Inr (b', int 4)
    \<and> any_read True True b' (int 1) (int 3) False = Inr (Some (-70000))"
  using any_width_write_read [of 3 True "-70000" 1 "[0, 0, 0, 0, 9]" True] by (auto simp: any_range_def)

text \<open>
  C35: the checks of the fixed-width accessors, exactly. Without \<open>noAssert\<close> a write raises for a
  value outside the range of its type, then for an offset whose slot ends behind the buffer, and
  otherwise does what the unchecked write does; a read raises for a negative offset, then for a
  slot that ends behind the buffer, and otherwise does what the unchecked read does.\<close>

theorem accessor_checks:
  "acc_write a typed b v t False
     = (if v < acc_min a \<or> acc_max a < v then Inl (RangeError ''\"value\" argument is out of bounds'')
        else if ToInt32 t + int (acc_width a) > int (length b) then Inl (RangeError ''Index out of range'')
        else acc_write a typed b v t True)
   \<and> acc_read a b t False
     = (if t < 0 then Inl (RangeError ''offset is not uint'')
        else if t + int (acc_width a) > int (length b)
        then Inl (RangeError ''Trying to access beyond buffer length'')
        else acc_read a b t True)"
  using write_error read_error by blast

text \<open>
  The writers store the same bytes and return the same offset or error whether or not typed
  arrays are supported, for every value, at every offset whose slot is in the buffer.\<close>

lemma typed_paths_agree:
  assumes "p + acc_width a \<le> length b" "length b \<le> 2147483647"
  shows "acc_write a True b v (int p) noAssert = acc_write a False b v (int p) noAssert"
  using assms by (cases noAssert) (simp_all add: store_ok write_error)

lemma typed_paths_agree_witness:
  "acc_write Int32BE True [0, 0, 0, 0, 0] (-5) (int 1) False = acc_write Int32BE False [0, 0, 0, 0, 0] (-5) (int 1) False"
  by (rule typed_paths_agree) simp_all

text \<open>
  A negative offset passes the check of the writers, which report success and leave the buffer
  as it was, while the readers raise for it.\<close>

lemma negative_offset_accepted:
  assumes "b \<noteq> []"
  shows "writeUInt8 b 7 (-1) False = Inr (b, 0) \<and> readUInt8 b (-1) False = Inl (RangeError ''offset is not uint'')"
  using assms
  by (cases b) (auto simp: writeUInt8_def Let_def writing_def checkInt_def ToInt32_def u8_set_def
      readUInt8_def reading_def checkOffset_def)

lemma negative_offset_accepted_witness:
  "writeUInt8 [1, 2] 7 (-1) False = Inr ([1, 2], 0) \<and> readUInt8 [1, 2] (-1) False = Inl (RangeError ''offset is not uint'')"
  by (rule negative_offset_accepted) simp

end
