(* ===== verification/Docs_Theme.thy ===== *)
theory Docs_Theme
  imports Base64 Buffer_Utf8
begin

text \<open>
  The documentation theme (\<open>docs/.third_party/docs-theme\<close>): the HTML escaping its plugins share, the
  renderers that turn fenced code and \<open>+++ url\<close> lines into \<open>code-block\<close> elements, the renderer for
  ASCII diagrams, and the plugin that fills in the front matter and the title of a page.

  What the code calls outside the repository is a parameter: Node's \<open>Buffer.from(s).toString("base64")\<close>
  (\<open>toBase64\<close>), the file system (\<open>read_file\<close>), \<open>curl\<close>, the \<open>svgbob\<close> process, the markdown and front matter parsers, which may throw (\<open>None\<close>).
\<close>

section \<open>Escaping\<close>

definition HTML_REPLACEMENTS :: "code_unit \<rightharpoonup> jsstring" where
  "HTML_REPLACEMENTS =
     [38 \<mapsto> lit ''&amp;'', 60 \<mapsto> lit ''&lt;'', 62 \<mapsto> lit ''&gt;'', 34 \<mapsto> lit ''&quot;'']"

text \<open>Applied to the characters of \<open>/[&<>"]/\<close> only.\<close>

definition unsafe :: "code_unit \<Rightarrow> bool" where
  "unsafe c = (c = 38 \<or> c = 60 \<or> c = 62 \<or> c = 34)"

definition replaceUnsafeChar :: "code_unit \<Rightarrow> jsstring" where
  "replaceUnsafeChar ch = (case HTML_REPLACEMENTS ch of None \<Rightarrow> lit ''undefined'' | Some r \<Rightarrow> r)"

definition escapeHtml :: "jsstring \<Rightarrow> jsstring" where
  "escapeHtml str =
     (if list_ex unsafe str
      then concat (map (\<lambda>ch. if unsafe ch then replaceUnsafeChar ch else [ch]) str)
      else str)"

definition codeBlock :: "jsstring \<Rightarrow> jsstring \<Rightarrow> jsstring" where
  "codeBlock lang base64 =
     lit ''<code-block class=\"codeblock\" language=\"'' @ lang @ lit ''\" base64=\"'' @ base64 @
     lit ''\"></code-block>''"

section \<open>Fenced code (\<open>markdown-it-fcb.js\<close>)\<close>

record token =
  tok_type :: jsstring
  tok_tag :: jsstring
  tok_info :: jsstring
  tok_src :: jsstring
  tok_content :: jsstring

text \<open>\<open>read_file\<close> gives \<open>None\<close> where \<open>fs.existsSync\<close> is false. The token is updated in place.\<close>

definition fcb_fence :: "(jsstring \<Rightarrow> jsstring) \<Rightarrow> (jsstring \<rightharpoonup> jsstring) \<Rightarrow> token list \<Rightarrow> nat \<Rightarrow> token list \<times> jsstring" where
  "fcb_fence toBase64 read_file tokens idx =
     (let token = (case read_file (tok_src (tokens ! idx)) of
                     None \<Rightarrow> tokens ! idx | Some text \<Rightarrow> (tokens ! idx)\<lparr>tok_content := text\<rparr>);
          base64 = toBase64 (escapeHtml (tok_content token))
      in (tokens[idx := token],
          [10] @ lit ''    '' @ codeBlock (tok_info token) base64 @ [10] @ lit ''    ''))"

section \<open>Code from a URL (\<open>markdown-it-gh.js\<close>)\<close>

text \<open>\<open>s.replace(pat, rep)\<close> with a string pattern: the first occurrence.\<close>

fun replace_first :: "jsstring \<Rightarrow> jsstring \<Rightarrow> jsstring \<Rightarrow> jsstring" where
  "replace_first pat rep [] = (if pat = [] then rep else [])"
| "replace_first pat rep (c # s) =
     (if take (length pat) (c # s) = pat then rep @ drop (length pat) (c # s)
      else c # replace_first pat rep s)"

fun first_suffix :: "(jsstring \<Rightarrow> bool) \<Rightarrow> jsstring \<Rightarrow> jsstring option" where
  "first_suffix P [] = (if P [] then Some [] else None)"
| "first_suffix P (c # s) = (if P (c # s) then Some (c # s) else first_suffix P s)"

definition line_terminator :: "code_unit \<Rightarrow> bool" where
  "line_terminator c = (c = 10 \<or> c = 13 \<or> c = 8232 \<or> c = 8233)"

definition digit :: "code_unit \<Rightarrow> bool" where
  "digit c = (48 \<le> c \<and> c \<le> 57)"

definition dec_value :: "jsstring \<Rightarrow> nat" where
  "dec_value ds = foldl (\<lambda>n c. 10 * n + (unat c - 48)) 0 ds"

text \<open>The regular expressions of the renderer, on the rest of the string from a position on.\<close>

definition github_here :: "jsstring \<Rightarrow> bool" where
  "github_here s =
     (take 6 s = lit ''github'' \<and> length s \<ge> 10 \<and> \<not> line_terminator (s ! 6)
      \<and> take 3 (drop 7 s) = lit ''com'')"

definition line_ref :: "jsstring \<Rightarrow> bool" where
  "line_ref s =
     (let t = drop 2 s; r = dropWhile digit t
      in take 2 s = lit ''#L'' \<and> takeWhile digit t \<noteq> [] \<and> take 2 r = lit ''-L''
         \<and> drop 2 r \<noteq> [] \<and> list_all digit (drop 2 r))"

definition hash_tail :: "jsstring \<Rightarrow> bool" where
  "hash_tail s = (take 2 s = lit ''#L'' \<and> \<not> list_ex line_terminator (drop 2 s))"

definition is_golang :: "jsstring \<Rightarrow> bool" where
  "is_golang url =
     (let base = (case first_suffix hash_tail url of
                    None \<Rightarrow> url | Some t \<Rightarrow> take (length url - length t) url)
      in length base \<ge> 3 \<and> drop (length base - 3) base = lit ''.go'')"

text \<open>\<open>Array.prototype.slice\<close>: negative positions count from the end.\<close>

definition js_slice :: "'a list \<Rightarrow> int \<Rightarrow> int \<Rightarrow> 'a list" where
  "js_slice xs a b =
     (let n = int (length xs);
          i = (if a < 0 then max (n + a) 0 else min a n);
          j = (if b < 0 then max (n + b) 0 else min b n)
      in take (nat (j - i)) (drop (nat i) xs))"

definition pick_lines :: "jsstring \<Rightarrow> jsstring \<Rightarrow> jsstring" where
  "pick_lines url data =
     (case first_suffix line_ref url of
        None \<Rightarrow> data
      | Some m \<Rightarrow>
          (if data = [] then data
           else (case split_on 45 (filter (\<lambda>c. c \<noteq> 76) (filter (\<lambda>c. c \<noteq> 35) m)) of
                   lineStart # lineEnd # _ \<Rightarrow>
                     join_with 10 (js_slice (split_on 10 data) (int (dec_value lineStart) - 1)
                                            (int (dec_value lineEnd)))
                 | _ \<Rightarrow> data)))"

definition raw_url :: "jsstring \<Rightarrow> jsstring" where
  "raw_url u =
     (if first_suffix github_here u \<noteq> None
      then replace_first (lit ''/blob/'') (lit ''/'')
             (replace_first (lit ''github.com'') (lit ''raw.githubusercontent.com'') u)
      else u)"

definition gh_text :: "(jsstring \<Rightarrow> jsstring) \<Rightarrow> (jsstring \<Rightarrow> jsstring) \<Rightarrow> token list \<Rightarrow> nat \<Rightarrow> jsstring" where
  "gh_text toBase64 curl tokens idx =
     (case split_on 32 (tok_content (tokens ! idx)) of
        a0 # a1 # _ \<Rightarrow>
          (if a0 = lit ''+++'' \<and> a1 \<noteq> []
           then (let data = pick_lines a1 (curl (raw_url a1));
                     lang = (if is_golang a1 then lit ''go'' else lit ''false'')
                 in codeBlock lang (toBase64 (escapeHtml data)))
           else escapeHtml (tok_content (tokens ! idx)))
      | _ \<Rightarrow> escapeHtml (tok_content (tokens ! idx)))"

section \<open>ASCII diagrams (\<open>markdown-it-ascii.js\<close>)\<close>

definition blank :: "code_unit \<Rightarrow> bool" where
  "blank c = (9 \<le> c \<and> c \<le> 13 \<or> c = 32 \<or> c = 160 \<or> c = 5760 \<or> 8192 \<le> c \<and> c \<le> 8202
     \<or> c = 8232 \<or> c = 8233 \<or> c = 8239 \<or> c = 8287 \<or> c = 12288 \<or> c = 65279)"

definition lang_name :: "jsstring \<Rightarrow> jsstring" where
  "lang_name info = takeWhile (\<lambda>c. \<not> blank c) (dropWhile blank info)"

text \<open>
  \<open>svgbob\<close> is the output of the child process, \<open>None\<close> where it could not be run; the exception that
  \<open>Buffer.from(null)\<close> then throws is caught and the renderer returns \<open>undefined\<close>.
\<close>

definition ascii_fence ::
  "(jsstring \<Rightarrow> jsstring) \<Rightarrow> (jsstring \<Rightarrow> jsstring option) \<Rightarrow> (token list \<Rightarrow> nat \<Rightarrow> jsstring option) \<Rightarrow> token list \<Rightarrow> nat \<Rightarrow> jsstring option" where
  "ascii_fence toBase64 svgbob defaultFenceRenderer tokens idx =
     (if lang_name (tok_info (tokens ! idx)) = lit ''ascii''
      then (case svgbob (tok_content (tokens ! idx)) of
              None \<Rightarrow> None
            | Some svg \<Rightarrow> Some (lit ''<img src='' @ [39] @ lit ''data:image/svg+xml;base64,'' @ toBase64 svg @ [39] @ lit ''>''))
      else defaultFenceRenderer tokens idx)"

section \<open>Page data (\<open>plugin-frontmatter.js\<close>)\<close>

record page =
  page_content :: jsstring
  page_frontmatter :: "jsstring \<rightharpoonup> jsstring"
  page_title :: jsstring

text \<open>
  The callback of \<open>forEach\<close>: its \<open>return\<close> ends one call, not the iteration. A heading without a
  token behind it makes \<open>tokens[i + 1].content\<close> throw, which ends the iteration.
\<close>

fun title_loop :: "token list \<Rightarrow> jsstring \<Rightarrow> jsstring" where
  "title_loop [] title = title"
| "title_loop (t # ts) title =
     (if tok_type t = lit ''heading_open'' \<and> tok_tag t = lit ''h1''
      then (case ts of [] \<Rightarrow> title | u # _ \<Rightarrow> title_loop ts (tok_content u))
      else title_loop ts title)"

definition extendPageData ::
  "(jsstring \<Rightarrow> jsstring option) \<Rightarrow> (jsstring \<Rightarrow> (jsstring \<rightharpoonup> jsstring) option) \<Rightarrow> (jsstring \<Rightarrow> token list option)
   \<Rightarrow> page \<Rightarrow> page" where
  "extendPageData synopsis matter parse p =
     (let description = (case synopsis (page_content p) of None \<Rightarrow> [] | Some d \<Rightarrow> d);
          frontmatter = (case matter (page_content p) of None \<Rightarrow> Map.empty | Some m \<Rightarrow> m);
          p = p\<lparr>page_frontmatter := [lit ''description'' \<mapsto> description] ++ page_frontmatter p ++ frontmatter\<rparr>
      in (case parse (page_content p) of
            None \<Rightarrow> p
          | Some tokens \<Rightarrow> p\<lparr>page_title := title_loop tokens (page_title p)\<rparr>))"

section \<open>Escaped text\<close>

definition escape_unit :: "code_unit \<Rightarrow> jsstring" where
  "escape_unit ch = (if unsafe ch then replaceUnsafeChar ch else [ch])"

lemma escapeHtml_eq: "escapeHtml s = concat (map escape_unit s)"
proof (cases "list_ex unsafe s")
  case False
  then have "concat (map escape_unit s) = s" by (induction s) (auto simp: escape_unit_def)
  then show ?thesis using False by (simp add: escapeHtml_def)
qed (simp add: escapeHtml_def escape_unit_def [abs_def])

text \<open>What a reader of HTML makes of the four entities.\<close>

fun unescapeHtml :: "jsstring \<Rightarrow> jsstring" where
  "unescapeHtml [] = []"
| "unescapeHtml (c # s) =
     (if c = 38
      then (if take 4 s = lit ''amp;'' then 38 # unescapeHtml (drop 4 s)
            else if take 3 s = lit ''lt;'' then 60 # unescapeHtml (drop 3 s)
            else if take 3 s = lit ''gt;'' then 62 # unescapeHtml (drop 3 s)
            else if take 5 s = lit ''quot;'' then 34 # unescapeHtml (drop 5 s)
            else c # unescapeHtml s)
      else c # unescapeHtml s)"

lemma escape_unit_cases:
  "escape_unit 38 = lit ''&amp;''" "escape_unit 60 = lit ''&lt;''" "escape_unit 62 = lit ''&gt;''"
  "escape_unit 34 = lit ''&quot;''" "\<not> unsafe c \<Longrightarrow> escape_unit c = [c]"
  by (simp_all add: escape_unit_def unsafe_def replaceUnsafeChar_def HTML_REPLACEMENTS_def)

lemma unescape_unit: "unescapeHtml (escape_unit c @ s) = c # unescapeHtml s"
proof -
  consider "c = 38" | "c = 60" | "c = 62" | "c = 34" | "\<not> unsafe c" by (auto simp: unsafe_def)
  then show ?thesis
    by cases (simp_all add: escape_unit_cases lit_def unsafe_def)
qed

interpretation html: unit_escape escape_unit unescapeHtml
  by unfold_locales (simp_all add: unescape_unit)

lemma unescape_escape: "unescapeHtml (escapeHtml s) = s"
  unfolding escapeHtml_eq by (rule html.scan_escaped)

lemma escape_unit_safe: "c \<in> set (escape_unit d) \<Longrightarrow> c \<noteq> 60 \<and> c \<noteq> 62 \<and> c \<noteq> 34"
proof -
  assume c: "c \<in> set (escape_unit d)"
  consider "d = 38" | "d = 60" | "d = 62" | "d = 34" | "\<not> unsafe d" by (auto simp: unsafe_def)
  then show ?thesis
    by cases (use c in \<open>auto simp: escape_unit_cases lit_def unsafe_def\<close>)
qed

lemma surrogate_not_unsafe: "lead_unit c \<or> trail_unit c \<Longrightarrow> escape_unit c = [c]"
  by (rule escape_unit_cases) (auto simp: unsafe_def lead_unit_def trail_unit_def)

lemma escape_unit_plain:
  assumes "\<not> lead_unit c" "\<not> trail_unit c"
  shows "d \<in> set (escape_unit c) \<Longrightarrow> \<not> lead_unit d \<and> \<not> trail_unit d" "escape_unit c \<noteq> []"
proof -
  consider "c = 38" | "c = 60" | "c = 62" | "c = 34" | "\<not> unsafe c" by (auto simp: unsafe_def)
  then have "(\<forall>d \<in> set (escape_unit c). \<not> lead_unit d \<and> \<not> trail_unit d) \<and> escape_unit c \<noteq> []"
    by cases (use assms in \<open>auto simp: escape_unit_cases lit_def lead_unit_def trail_unit_def\<close>)
  then show "d \<in> set (escape_unit c) \<Longrightarrow> \<not> lead_unit d \<and> \<not> trail_unit d" "escape_unit c \<noteq> []" by auto
qed

lemma well_formed_prepend:
  assumes "\<forall>d \<in> set w. \<not> lead_unit d \<and> \<not> trail_unit d" "well_formed s"
  shows "well_formed (w @ s)"
  using assms
proof (induction w)
  case (Cons d w)
  then show ?case by (cases "w @ s") auto
qed simp

lemma well_formed_escape: "well_formed s \<Longrightarrow> well_formed (escapeHtml s)"
  unfolding escapeHtml_eq
proof (induction s rule: well_formed.induct)
  case (2 x)
  then have "well_formed (escape_unit x @ [])"
    using escape_unit_plain(1) [of x] by (intro well_formed_prepend) simp_all
  then show ?case by simp
next
  case (3 x y s)
  show ?case
  proof (cases "lead_unit x")
    case True
    then have y: "trail_unit y" "well_formed s" using 3(3) by simp_all
    have "escape_unit x = [x]" "escape_unit y = [y]" using True y surrogate_not_unsafe by blast+
    then show ?thesis using True y 3(1) [OF True] by simp
  next
    case False
    then have x: "\<not> trail_unit x" "well_formed (y # s)" using 3(3) by simp_all
    have "well_formed (escape_unit x @ concat (map escape_unit (y # s)))"
      by (rule well_formed_prepend) (use 3(2) [OF False x(2)] escape_unit_plain(1) [OF False x(1)] in blast)+
    then show ?thesis by (simp only: list.map concat.simps)
  qed
qed simp

section \<open>Line references\<close>

lemma first_suffix_skip:
  assumes "\<And>s. P s \<Longrightarrow> s \<noteq> [] \<and> hd s = h" "h \<notin> set u"
  shows "first_suffix P (u @ s) = first_suffix P s"
  using assms(2) by (induction u) (use assms(1) in force)+

lemma line_ref_hash: "line_ref s \<Longrightarrow> s \<noteq> [] \<and> hd s = 35"
  by (cases s) (auto simp: line_ref_def lit_def Let_def)

lemma hash_tail_hash: "hash_tail s \<Longrightarrow> s \<noteq> [] \<and> hd s = 35"
  by (cases s) (auto simp: hash_tail_def lit_def)

lemma digit_facts: "digit c \<Longrightarrow> c \<noteq> 32 \<and> c \<noteq> 35 \<and> c \<noteq> 45 \<and> c \<noteq> 76 \<and> \<not> line_terminator c"
  by (auto simp: digit_def line_terminator_def)

definition line_anchor :: "jsstring \<Rightarrow> jsstring \<Rightarrow> jsstring" where
  "line_anchor d1 d2 = lit ''#L'' @ d1 @ lit ''-L'' @ d2"

lemma line_anchor_matches:
  assumes "list_all digit d1" "d1 \<noteq> []" "list_all digit d2" "d2 \<noteq> []"
  shows "line_ref (line_anchor d1 d2)" "hash_tail (line_anchor d1 d2)"
    and "split_on 45 (filter (\<lambda>c. c \<noteq> 76) (filter (\<lambda>c. c \<noteq> 35) (line_anchor d1 d2))) = [d1, d2]"
proof -
  have t: "takeWhile digit (d1 @ 45 # s) = d1" "dropWhile digit (d1 @ 45 # s) = 45 # s" for s
    using assms(1) by (simp_all add: list_all_iff takeWhile_append2 dropWhile_append2 digit_def)
  show "line_ref (line_anchor d1 d2)"
    using assms by (simp add: line_ref_def line_anchor_def lit_def Let_def t)
  show "hash_tail (line_anchor d1 d2)"
    using assms digit_facts by (auto simp: hash_tail_def line_anchor_def lit_def list_ex_iff list_all_iff line_terminator_def)
  have "filter (\<lambda>c. c \<noteq> 76) (filter (\<lambda>c. c \<noteq> 35) d) = d" if "list_all digit d" for d
    using that digit_facts by (auto simp: list_all_iff intro!: filter_True)
  moreover have "45 \<notin> set d1" "45 \<notin> set d2" using assms digit_facts by (auto simp: list_all_iff)
  ultimately show "split_on 45 (filter (\<lambda>c. c \<noteq> 76) (filter (\<lambda>c. c \<noteq> 35) (line_anchor d1 d2))) = [d1, d2]"
    using assms by (simp add: line_anchor_def lit_def split_on_sep split_on_none del: filter_filter)
qed

lemma first_suffix_hit: "P s \<Longrightarrow> first_suffix P s = Some s"
  by (cases s) auto


lemma lit_unit_sets: "set (line_anchor d1 d2) = {35, 76, 45} \<union> set d1 \<union> set d2"
  by (auto simp: line_anchor_def lit_def)

lemma pick_lines_anchor:
  assumes "list_all digit d1" "d1 \<noteq> []" "list_all digit d2" "d2 \<noteq> []" "35 \<notin> set u" "0 < dec_value d1"
  shows "pick_lines (u @ line_anchor d1 d2) data
    = join_with 10 (take (dec_value d2 - (dec_value d1 - 1)) (drop (dec_value d1 - 1) (split_on 10 data)))"
proof -
  have m: "first_suffix line_ref (u @ line_anchor d1 d2) = Some (line_anchor d1 d2)"
    using first_suffix_skip [OF line_ref_hash assms(5)] line_anchor_matches(1) [OF assms(1-4)] first_suffix_hit by simp
  have slice: "js_slice xs (int (dec_value d1) - 1) (int (dec_value d2))
      = take (dec_value d2 - (dec_value d1 - 1)) (drop (dec_value d1 - 1) xs)" for xs :: "jsstring list"
  proof -
    obtain k where "dec_value d1 = Suc k" using assms(6) gr0_implies_Suc by blast
    then show ?thesis by (auto simp: js_slice_def Let_def min_def nat_minus_as_int)
  qed
  show ?thesis
  proof (cases "data = []")
    case True
    have "join_with 10 (take i (drop j [[]])) = []" for i j by (cases i; cases j) auto
    then show ?thesis using True m by (simp add: pick_lines_def)
  qed (simp add: pick_lines_def m line_anchor_matches(3) [OF assms(1-4)] slice del: filter_filter One_nat_def)
qed

lemma is_golang_anchor:
  assumes "list_all digit d1" "d1 \<noteq> []" "list_all digit d2" "d2 \<noteq> []" "35 \<notin> set u"
  shows "is_golang (u @ line_anchor d1 d2) \<longleftrightarrow> (\<exists>v. u = v @ lit ''.go'')"
proof -
  have "first_suffix hash_tail (u @ line_anchor d1 d2) = Some (line_anchor d1 d2)"
    using first_suffix_skip [OF hash_tail_hash assms(5)] line_anchor_matches(2) [OF assms(1-4)] first_suffix_hit by simp
  then have "is_golang (u @ line_anchor d1 d2) \<longleftrightarrow> length u \<ge> 3 \<and> drop (length u - 3) u = lit ''.go''"
    by (simp add: is_golang_def)
  also have "\<dots> \<longleftrightarrow> (\<exists>v. u = v @ lit ''.go'')"
  proof
    assume "length u \<ge> 3 \<and> drop (length u - 3) u = lit ''.go''"
    then show "\<exists>v. u = v @ lit ''.go''" by (metis append_take_drop_id)
  qed auto
  finally show ?thesis .
qed

lemma title_loop_last:
  assumes "tok_type h = lit ''heading_open''" "tok_tag h = lit ''h1''"
    and "\<forall>t \<in> set (u # ys). \<not> (tok_type t = lit ''heading_open'' \<and> tok_tag t = lit ''h1'')"
  shows "title_loop (xs @ h # u # ys) title = tok_content u"
proof -
  have "title_loop ts t = t" if "\<forall>t \<in> set ts. \<not> (tok_type t = lit ''heading_open'' \<and> tok_tag t = lit ''h1'')" for ts t
    using that by (induction ts) auto
  then have base: "title_loop (h # u # ys) t = tok_content u" for t using assms by auto
  show ?thesis
  proof (induction xs arbitrary: title)
    case (Cons x xs)
    then show ?case by (cases "xs @ h # u # ys") auto
  qed (simp only: append_Nil base)
qed

definition heading :: token where
  "heading = \<lparr>tok_type = lit ''heading_open'', tok_tag = lit ''h1'', tok_info = [], tok_src = [], tok_content = []\<rparr>"

definition inline_text :: "jsstring \<Rightarrow> token" where
  "inline_text s = \<lparr>tok_type = lit ''inline'', tok_tag = [], tok_info = [], tok_src = [], tok_content = s\<rparr>"

section \<open>Properties\<close>


text \<open>The base64 form of UTF-8 bytes is such a \<open>toBase64\<close>.\<close>

definition base64_text :: "jsstring \<Rightarrow> jsstring" where
  "base64_text s = base64_spec (concat (map utf8_of (usv s)))"

definition base64_source :: "jsstring \<Rightarrow> jsstring" where
  "base64_source t = (case toByteArray t of Inl _ \<Rightarrow> [] | Inr b \<Rightarrow> utf8Slice b 0 (length b))"

lemma base64_text_source:
  assumes "well_formed s"
  shows "base64_source (base64_text s) = s"
proof -
  have "toByteArray (base64_text s) = Inr (concat (map utf8_of (usv s)))"
    using toByteArray_fromByteArray unfolding fromByteArray_spec base64_text_def by blast
  then show ?thesis
    using utf8Slice_text [OF usv_scalar, of s] usv_well_formed [OF assms] by (simp add: base64_source_def)
qed

lemma alphabet_no_quote: "i < 64 \<Longrightarrow> alphabet ! i \<noteq> 34"
proof -
  assume "i < 64"
  then have "alphabet ! i \<in> set alphabet" by simp
  moreover have "34 \<notin> set alphabet" by (simp add: alphabet_def lit_def)
  ultimately show ?thesis by metis
qed

lemma base64_spec_no_quote: "34 \<notin> set (base64_spec b)"
proof (induction b rule: base64_spec.induct)
  case (2 a)
  then show ?case using alphabet_no_quote [of "unat a * 16 div 64"] alphabet_no_quote [of "unat a * 16 mod 64"] unat_byte [of a]
    by (auto simp: Let_def lit_def)
next
  case (3 a b)
  let ?v = "(unat a * 256 + unat b) * 4"
  have "?v div 4096 < 64" using unat_byte [of a] unat_byte [of b] by simp
  then show ?case using alphabet_no_quote [of "?v div 4096"] alphabet_no_quote [of "?v div 64 mod 64"] alphabet_no_quote [of "?v mod 64"]
    by (auto simp: Let_def lit_def)
next
  case (4 a b c r)
  let ?v = "unat a * 65536 + unat b * 256 + unat c"
  have "?v div 262144 < 64" using unat_byte [of a] unat_byte [of b] unat_byte [of c] by simp
  then show ?case using 4 alphabet_no_quote [of "?v div 262144"] alphabet_no_quote [of "?v div 4096 mod 64"]
    alphabet_no_quote [of "?v div 64 mod 64"] alphabet_no_quote [of "?v mod 64"]
    by (auto simp: Let_def)
qed simp

lemma base64_no_quote: "34 \<notin> set (base64_text s)"
  by (simp add: base64_text_def base64_spec_no_quote)


text \<open>
  C37: a line \<open>+++ url#La-Lb\<close> (with \<open>a\<close> at least 1) includes exactly the lines \<open>a\<close> to \<open>b\<close> of what \<open>curl\<close>
  returns for the raw URL, and the block is marked as Go exactly when the path ends in \<open>.go\<close>; any
  other block gets the language \<open>false\<close>.\<close>

theorem gh_includes_lines:
  assumes "tok_content (tokens ! idx) = lit ''+++ '' @ url" "url = u @ line_anchor d1 d2"
    and "32 \<notin> set u" "35 \<notin> set u" "list_all digit d1" "d1 \<noteq> []" "list_all digit d2" "d2 \<noteq> []" "0 < dec_value d1"
  shows "gh_text toBase64 curl tokens idx =
    codeBlock (if \<exists>v. u = v @ lit ''.go'' then lit ''go'' else lit ''false'')
      (toBase64 (escapeHtml (join_with 10
        (take (dec_value d2 - (dec_value d1 - 1)) (drop (dec_value d1 - 1) (split_on 10 (curl (raw_url url))))))))"
proof -
  have "32 \<notin> set url" "url \<noteq> []"
    using assms digit_facts by (auto simp: lit_unit_sets list_all_iff line_anchor_def lit_def)
  then have "split_on 32 (lit ''+++ '' @ url) = [lit ''+++'', url]"
    using split_on_sep [of 32 "lit ''+++''" url] split_on_none [of 32 url] by (simp add: lit_def)
  then show ?thesis
    using pick_lines_anchor is_golang_anchor assms \<open>url \<noteq> []\<close> by (simp add: gh_text_def Let_def)
qed

theorem gh_includes_lines_witness:
  "gh_text base64_text (\<lambda>_. lit ''package x'') [\<lparr>tok_type = [], tok_tag = [], tok_info = [], tok_src = [],
      tok_content = lit ''+++ '' @ (lit ''h/x.go'' @ line_anchor (lit ''1'') (lit ''1''))\<rparr>] 0 =
    codeBlock (if \<exists>v. lit ''h/x.go'' = v @ lit ''.go'' then lit ''go'' else lit ''false'')
      (base64_text (escapeHtml (join_with 10
        (take (dec_value (lit ''1'') - (dec_value (lit ''1'') - 1)) (drop (dec_value (lit ''1'') - 1)
           (split_on 10 (lit ''package x'')))))))"
  by (rule gh_includes_lines) (simp_all add: lit_def digit_def dec_value_def)

text \<open>
  The page plugin: the front matter of the source wins over the data the page had, which wins over
  the synopsis as \<open>description\<close>; and the title is the text after the \<^emph>\<open>last\<close> first-level heading, because
  the \<open>return\<close> in the callback of \<open>forEach\<close> does not end the iteration.\<close>

lemma page_data:
  assumes "synopsis (page_content p) = Some d" "matter (page_content p) = Some m"
    and "parse (page_content p) = Some (xs @ h # u # ys)"
    and "tok_type h = lit ''heading_open''" "tok_tag h = lit ''h1''"
    and "\<forall>t \<in> set (u # ys). \<not> (tok_type t = lit ''heading_open'' \<and> tok_tag t = lit ''h1'')"
  shows "page_title (extendPageData synopsis matter parse p) = tok_content u
    \<and> page_frontmatter (extendPageData synopsis matter parse p) k =
       (case m k of Some v \<Rightarrow> Some v
        | None \<Rightarrow> (case page_frontmatter p k of Some v \<Rightarrow> Some v
                  | None \<Rightarrow> if k = lit ''description'' then Some d else None))"
  using assms(1-3) title_loop_last [OF assms(4-6)]
  by (auto simp: extendPageData_def Let_def map_add_def split: option.split)

lemma page_data_witness:
  "page_title (extendPageData (\<lambda>_. Some [1]) (\<lambda>_. Some [[7] \<mapsto> [8]]) (\<lambda>_. Some ([heading, inline_text [65]] @ heading # inline_text [66] # []))
      \<lparr>page_content = [], page_frontmatter = Map.empty, page_title = []\<rparr>) = tok_content (inline_text [66])
    \<and> page_frontmatter (extendPageData (\<lambda>_. Some [1]) (\<lambda>_. Some [[7] \<mapsto> [8]])
        (\<lambda>_. Some ([heading, inline_text [65]] @ heading # inline_text [66] # []))
        \<lparr>page_content = [], page_frontmatter = Map.empty, page_title = []\<rparr>) [7] =
       (case [[7] \<mapsto> [8]] ([7] :: jsstring) of Some v \<Rightarrow> Some v
        | None \<Rightarrow> (case page_frontmatter \<lparr>page_content = [], page_frontmatter = Map.empty, page_title = []\<rparr> [7] of
                     Some v \<Rightarrow> Some v | None \<Rightarrow> if [7] = lit ''description'' then Some [1] else None))"
  by (rule page_data [where m = "[[7] \<mapsto> [8]]" and xs = "[heading, inline_text [65]]" and h = heading and u = "inline_text [66]"
      and ys = "[]" and d = "[1]"]) (simp_all add: heading_def inline_text_def lit_def)

end
