(* ===== verification/Markdown_Text.thy ===== *)
theory Markdown_Text
  imports Entity_Table Buffer_Utf8
begin

text \<open>
  The text utilities of the bundled markdown renderer (Remarkable): recognising and replacing HTML
  entities, escaping HTML, and removing backslash escapes. The regular expressions are scanners over
  code units; both have the flag \<open>g\<close>, so scanning goes on behind each match.
\<close>

section \<open>Entities\<close>

text \<open>\<open>hasOwnProperty\<close> on the table: only the names it lists.\<close>

definition named_entity :: "jsstring \<rightharpoonup> jsstring" where
  "named_entity = map_of (map (\<lambda>(k, v). (lit k, v)) entities)"

definition isValidEntityCode :: "int \<Rightarrow> bool" where
  "isValidEntityCode e =
     (\<not> (e \<ge> 55296 \<and> e \<le> 57343) \<and> \<not> (e \<ge> 64976 \<and> e \<le> 65007)
      \<and> band 65535 e \<noteq> 65535 \<and> band 65535 e \<noteq> 65534
      \<and> \<not> (e \<ge> 0 \<and> e \<le> 8) \<and> e \<noteq> 11 \<and> \<not> (e \<ge> 14 \<and> e \<le> 31) \<and> \<not> (e \<ge> 127 \<and> e \<le> 159)
      \<and> \<not> (e > 1114111))"

definition fromCodePoint :: "int \<Rightarrow> jsstring" where
  "fromCodePoint e =
     (if e > 65535
      then [of_int (55296 + (e - 65536) div 1024), of_int (56320 + band 1023 (e - 65536))]
      else [of_int e])"

definition letter_unit :: "code_unit \<Rightarrow> bool" where
  "letter_unit c = (65 \<le> c \<and> c \<le> 90 \<or> 97 \<le> c \<and> c \<le> 122)"

definition digit_unit :: "code_unit \<Rightarrow> bool" where
  "digit_unit c = (48 \<le> c \<and> c \<le> 57)"

text \<open>\<open>/^#((?:x[a-f0-9]{1,8}|[0-9]{1,8}))/i\<close>: not anchored at the end.\<close>

definition numeric_test :: "jsstring \<Rightarrow> bool" where
  "numeric_test t =
     (case t of
        h # c # r \<Rightarrow> h = 35 \<and> ((c = 120 \<or> c = 88) \<and> r \<noteq> [] \<and> hex_digit (hd r) \<noteq> None \<or> digit_unit c)
      | _ \<Rightarrow> False)"

text \<open>\<open>parseInt(s, 10)\<close> of a string that begins with a digit.\<close>

definition parseInt10 :: "jsstring \<Rightarrow> int" where
  "parseInt10 s = foldl (\<lambda>n c. 10 * n + (uint c - 48)) 0 (takeWhile digit_unit s)"

definition numeric_value :: "jsstring \<Rightarrow> int" where
  "numeric_value t =
     (if t ! 1 = 120 \<or> t ! 1 = 88
      then (case parseInt16 (drop 2 t) of None \<Rightarrow> 0 | Some n \<Rightarrow> n) else parseInt10 (drop 1 t))"

text \<open>\<open>f(e, t)\<close>: what a match \<open>e\<close> with name \<open>t\<close> is replaced by.\<close>

definition replaceEntity :: "jsstring \<Rightarrow> jsstring \<Rightarrow> jsstring" where
  "replaceEntity e t =
     (case named_entity t of
        Some v \<Rightarrow> v
      | None \<Rightarrow> (if t \<noteq> [] \<and> hd t = 35 \<and> numeric_test t \<and> isValidEntityCode (numeric_value t)
                 then fromCodePoint (numeric_value t) else e))"

text \<open>
  \<open>/&([a-z#][a-z0-9]{1,31});/gi\<close> at an ampersand: as \<open>;\<close> is in neither class, the run of letters and
  digits behind the first character has to be the longest one.
\<close>

definition entity_match :: "jsstring \<Rightarrow> (jsstring \<times> jsstring) option" where
  "entity_match s =
     (case s of [] \<Rightarrow> None
      | c # r \<Rightarrow>
          (let run = takeWhile (\<lambda>d. letter_unit d \<or> digit_unit d) r;
               rest = dropWhile (\<lambda>d. letter_unit d \<or> digit_unit d) r
           in if (letter_unit c \<or> c = 35) \<and> 1 \<le> length run \<and> length run \<le> 31 \<and> rest \<noteq> [] \<and> hd rest = 59
              then Some (c # run, tl rest) else None))"

function entity_scan :: "jsstring \<Rightarrow> jsstring" where
  "entity_scan [] = []"
| "entity_scan (c # s) =
     (if c = 38
      then (case entity_match s of
              None \<Rightarrow> c # entity_scan s
            | Some (t, rest) \<Rightarrow> replaceEntity (38 # t @ [59]) t @ entity_scan rest)
      else c # entity_scan s)"
  by pat_completeness auto
termination
proof (relation "measure length")
  fix c :: code_unit and s x t rest
  assume "entity_match s = Some x" "(t, rest) = x"
  then have m: "entity_match s = Some (t, rest)" by simp
  show "(rest, c # s) \<in> measure length"
  proof (cases s)
    case (Cons d r)
    have "rest = tl (dropWhile (\<lambda>d. letter_unit d \<or> digit_unit d) r)"
      using m Cons by (simp add: entity_match_def Let_def split: if_splits)
    moreover have "length (dropWhile (\<lambda>d. letter_unit d \<or> digit_unit d) r) \<le> length r" by (rule length_dropWhile_le)
    ultimately show ?thesis using Cons by simp
  qed (use m in \<open>simp add: entity_match_def\<close>)
qed simp_all

declare entity_scan.simps(2) [simp del]

definition replaceEntities :: "jsstring \<Rightarrow> jsstring" where
  "replaceEntities e = (if 38 \<notin> set e then e else entity_scan e)"

section \<open>HTML and backslashes\<close>

definition html_replacement :: "code_unit \<Rightarrow> jsstring" where
  "html_replacement c =
     (if c = 38 then lit ''&amp;'' else if c = 60 then lit ''&lt;'' else if c = 62 then lit ''&gt;''
      else lit ''&quot;'')"

definition html_unsafe :: "code_unit \<Rightarrow> bool" where
  "html_unsafe c = (c \<in> {38, 60, 62, 34})"

definition md_escapeHtml :: "jsstring \<Rightarrow> jsstring" where
  "md_escapeHtml e =
     (if list_ex html_unsafe e
      then concat (map (\<lambda>c. if html_unsafe c then html_replacement c else [c]) e) else e)"

definition escapable :: "code_unit \<Rightarrow> bool" where
  "escapable c = (c \<in> set (lit ''!\"#$%&()*+,./:;<=>?@[]^_`{|}~-'') \<or> c = 39 \<or> c = 92)"

text \<open>\<open>e.replace(/\\([...])/g, "$1")\<close>: a backslash before a punctuation character goes.\<close>

fun md_scan :: "jsstring \<Rightarrow> jsstring" where
  "md_scan [] = []"
| "md_scan [c] = [c]"
| "md_scan (c # d # s) = (if c = 92 \<and> escapable d then d # md_scan s else c # md_scan (d # s))"

definition unescapeMd :: "jsstring \<Rightarrow> jsstring" where
  "unescapeMd e = (if 92 \<notin> set e then e else md_scan e)"

section \<open>Matches\<close>

lemma unat_lit_char: "unat (of_nat (of_char c) :: code_unit) = of_char c"
  by (simp add: unat_of_nat less_trans [OF nat_of_char_less_256])

lemma lit_inj: "lit s = lit t \<longleftrightarrow> s = t"
proof -
  have "inj (\<lambda>c. of_nat (of_char c) :: code_unit)"
  proof (rule injI)
    fix c d :: char
    assume "of_nat (of_char c) = (of_nat (of_char d) :: code_unit)"
    then have "(of_char c :: nat) = of_char d" by (metis unat_lit_char)
    then show "c = d" by (rule of_char_eq_iff [THEN iffD1])
  qed
  then show ?thesis by (simp add: lit_def inj_map_eq_map)
qed

lemma named_entity_lit: "named_entity (lit k) = map_of entities k"
proof -
  have "map_of (map (\<lambda>(k, v). (lit k, v)) xs) (lit k) = map_of xs k" for xs :: "(string \<times> jsstring) list"
    by (induction xs) (auto simp: lit_inj)
  then show ?thesis by (simp add: named_entity_def)
qed

definition run_unit :: "code_unit \<Rightarrow> bool" where
  "run_unit d \<longleftrightarrow> letter_unit d \<or> digit_unit d"

lemma entity_match_run:
  assumes "letter_unit c \<or> c = 35" "list_all run_unit r" "r \<noteq> []" "length r \<le> 31"
  shows "entity_match (c # r @ 59 # s) = Some (c # r, s)"
proof -
  have "\<not> (letter_unit 59 \<or> digit_unit 59)" by (simp add: letter_unit_def digit_unit_def)
  then have "takeWhile (\<lambda>d. letter_unit d \<or> digit_unit d) (r @ 59 # s) = r"
    "dropWhile (\<lambda>d. letter_unit d \<or> digit_unit d) (r @ 59 # s) = 59 # s"
    using assms(2) by (simp_all add: run_unit_def list_all_iff takeWhile_append2 dropWhile_append2)
  moreover have "1 \<le> length r" using assms(3) by (cases r) simp_all
  ultimately show ?thesis
    using assms(1,4) \<open>\<not> (letter_unit 59 \<or> digit_unit 59)\<close> by (simp add: entity_match_def Let_def)
qed

lemma entity_scan_match:
  assumes "letter_unit c \<or> c = 35" "list_all run_unit r" "r \<noteq> []" "length r \<le> 31"
  shows "entity_scan (38 # c # r @ 59 # s) = replaceEntity (38 # (c # r) @ [59]) (c # r) @ entity_scan s"
  using entity_match_run [OF assms] by (simp add: entity_scan.simps(2))

lemma letter_char_unit: "letter_char c \<Longrightarrow> letter_unit (of_nat (of_char c))"
  and digit_char_unit: "digit_char c \<Longrightarrow> digit_unit (of_nat (of_char c))"
  by (simp_all add: letter_char_code digit_char_code letter_unit_def digit_unit_def word_le_nat_alt unat_lit_char)

lemma entity_scan_named:
  assumes "map_of entities k = Some v"
  shows "entity_scan (38 # lit k @ 59 # s) = v @ entity_scan s"
proof -
  have "plain_name k" using entities_plain [OF map_of_SomeD [OF assms]] by simp
  then obtain c r where k: "k = c # r" "letter_char c" "r \<noteq> []" "length r \<le> 31"
    "list_all (\<lambda>c. letter_char c \<or> digit_char c) r"
    using plain_name_shape by blast
  let ?c = "of_nat (of_char c) :: code_unit"
  have lit: "lit k = ?c # lit r" by (simp add: k(1) lit_def)
  have "list_all run_unit (lit r)"
    using k(5) letter_char_unit digit_char_unit by (auto simp: lit_def list_all_iff run_unit_def)
  moreover have "lit r \<noteq> []" "length (lit r) \<le> 31" using k(3,4) by (simp_all add: lit_def)
  ultimately have "entity_scan (38 # ?c # lit r @ 59 # s)
      = replaceEntity (38 # (?c # lit r) @ [59]) (?c # lit r) @ entity_scan s"
    using letter_char_unit [OF k(2)] by (intro entity_scan_match) simp_all
  moreover have "replaceEntity x (?c # lit r) = v" for x
    using assms named_entity_lit [of k] by (simp add: replaceEntity_def flip: lit)
  ultimately show ?thesis by (simp add: lit)
qed

section \<open>Escaping\<close>

definition html_unit :: "code_unit \<Rightarrow> jsstring" where
  "html_unit c = (if html_unsafe c then html_replacement c else [c])"

lemma md_escapeHtml_eq: "md_escapeHtml s = concat (map html_unit s)"
proof (cases "list_ex html_unsafe s")
  case False
  then have "concat (map html_unit s) = s" by (induction s) (auto simp: html_unit_def)
  then show ?thesis using False by (simp add: md_escapeHtml_def)
qed (simp add: md_escapeHtml_def html_unit_def [abs_def])

lemma html_unit_cases:
  "html_unit 38 = 38 # lit ''amp'' @ [59]" "html_unit 60 = 38 # lit ''lt'' @ [59]"
  "html_unit 62 = 38 # lit ''gt'' @ [59]" "html_unit 34 = 38 # lit ''quot'' @ [59]"
  by (simp_all add: html_unit_def html_unsafe_def html_replacement_def lit_def)

interpretation entities: unit_escape html_unit entity_scan
proof unfold_locales
  fix c s
  consider "c = 38" | "c = 60" | "c = 62" | "c = 34" | "\<not> html_unsafe c" by (auto simp: html_unsafe_def)
  then show "entity_scan (html_unit c @ s) = c # entity_scan s"
  proof cases
    case 5
    then show ?thesis by (simp add: html_unit_def html_unsafe_def entity_scan.simps(2))
  qed (simp_all add: html_unit_cases entity_scan_named amp_entity lt_entity gt_entity quot_entity)
qed simp

lemma entity_scan_plain: "38 \<notin> set s \<Longrightarrow> entity_scan s = s"
  by (induction s) (auto simp: entity_scan.simps(2))

lemma replaceEntities_eq: "replaceEntities s = entity_scan s"
  by (simp add: replaceEntities_def entity_scan_plain)

text \<open>Writing every punctuation character with a backslash.\<close>

definition md_unit :: "code_unit \<Rightarrow> jsstring" where
  "md_unit c = (if escapable c then [92, c] else [c])"

interpretation backslash: unit_escape md_unit md_scan
proof unfold_locales
  fix c s
  have "escapable 92" by (simp add: escapable_def)
  then show "md_scan (md_unit c @ s) = c # md_scan s"
    by (cases s) (auto simp: md_unit_def)
qed simp

lemma md_scan_plain: "92 \<notin> set s \<Longrightarrow> md_scan s = s"
  by (induction s rule: md_scan.induct) auto

lemma unescapeMd_eq: "unescapeMd s = md_scan s"
  by (simp add: unescapeMd_def md_scan_plain)

section \<open>Numeric entities\<close>

lemma digit_unit_facts: "digit_unit c \<Longrightarrow> run_unit c \<and> c \<noteq> 120 \<and> c \<noteq> 88"
  by (auto simp: digit_unit_def run_unit_def)

lemma lit_no_hash: "named_entity (35 # t) = None"
proof (rule ccontr)
  assume "named_entity (35 # t) \<noteq> None"
  then obtain v where "named_entity (35 # t) = Some v" by blast
  then have "(35 # t, v) \<in> (\<lambda>(k, v). (lit k, v)) ` set entities"
    unfolding named_entity_def using map_of_SomeD by fastforce
  then obtain k where k: "lit k = 35 # t" "(k, v) \<in> set entities" by force
  then have "plain_name k" using entities_plain by force
  then obtain c r where "k = c # r" "letter_char c" using plain_name_shape by blast
  then have "letter_unit 35" using k(1) letter_char_unit [of c] by (simp add: lit_def)
  then show False by (simp add: letter_unit_def)
qed

lemma replaceEntity_decimal:
  assumes "list_all digit_unit ds" "ds \<noteq> []" "j = [] \<or> \<not> digit_unit (hd j)"
  shows "replaceEntity e (35 # ds @ j)
    = (if isValidEntityCode (parseInt10 ds) then fromCodePoint (parseInt10 ds) else e)"
proof -
  obtain d r where ds: "ds = d # r" using assms(2) by (cases ds) auto
  have d: "digit_unit d" "d \<noteq> 120" "d \<noteq> 88" using assms(1) ds digit_unit_facts by auto
  have "takeWhile digit_unit (ds @ j) = ds" "takeWhile digit_unit ds = ds"
    using assms by (cases j; simp add: list_all_iff takeWhile_append2 takeWhile_eq_all_conv)+
  then have "parseInt10 (ds @ j) = parseInt10 ds" by (simp only: parseInt10_def)
  then have "numeric_value (35 # ds @ j) = parseInt10 ds" "numeric_test (35 # ds @ j)"
    using d by (simp_all add: numeric_value_def numeric_test_def ds)
  then show ?thesis by (simp add: replaceEntity_def lit_no_hash)
qed

section \<open>Properties\<close>

text \<open>C31: replacing entities undoes the escaping of HTML, for every string.\<close>

theorem entities_undo_escape: "replaceEntities (md_escapeHtml s) = s"
  unfolding replaceEntities_eq md_escapeHtml_eq by (rule entities.scan_escaped)

text \<open>
  Each of the 2125 names of the table is recognised: \<open>&name;\<close> becomes the characters the table gives,
  and scanning continues behind the semicolon.\<close>

lemma named_entities_recognised:
  assumes "map_of entities k = Some v"
  shows "replaceEntities (lit ''&'' @ lit k @ lit '';'' @ s) = v @ replaceEntities s"
  using entity_scan_named [OF assms] unfolding replaceEntities_eq by (simp add: lit_def)

lemma named_entities_recognised_witness:
  "replaceEntities (lit ''&'' @ lit ''lt'' @ lit '';'' @ [65]) = [60] @ replaceEntities [65]"
  by (rule named_entities_recognised [OF lt_entity])

text \<open>
  A decimal reference \<open>&#n;\<close> becomes the character with that code if the code is valid, and stays as
  it is otherwise. Letters and digits that follow the digits are ignored: \<open>&#65xyz;\<close> is \<open>A\<close>.\<close>

lemma decimal_entities:
  assumes "list_all digit_unit ds" "ds \<noteq> []" "list_all run_unit j" "j = [] \<or> letter_unit (hd j)" "length (ds @ j) \<le> 31"
  shows "replaceEntities (38 # 35 # ds @ j @ 59 # s) =
    (if isValidEntityCode (parseInt10 ds) then fromCodePoint (parseInt10 ds) else 38 # 35 # ds @ j @ [59])
    @ replaceEntities s"
proof -
  have "list_all run_unit (ds @ j)" using assms(1,3) digit_unit_facts by (auto simp: list_all_iff)
  moreover have "j = [] \<or> \<not> digit_unit (hd j)" using assms(4) by (auto simp: letter_unit_def digit_unit_def word_le_nat_alt)
  ultimately show ?thesis
    using entity_scan_match [of 35 "ds @ j" s] replaceEntity_decimal [OF assms(1,2), of j] assms(2,5)
    unfolding replaceEntities_eq by simp
qed

lemma decimal_entities_witness:
  "replaceEntities (38 # 35 # lit ''65'' @ lit ''xyz'' @ 59 # []) =
    (if isValidEntityCode (parseInt10 (lit ''65'')) then fromCodePoint (parseInt10 (lit ''65''))
     else 38 # 35 # lit ''65'' @ lit ''xyz'' @ [59]) @ replaceEntities []"
  by (rule decimal_entities) (simp_all add: lit_def digit_unit_def run_unit_def letter_unit_def)

text \<open>Text in which every punctuation character has a backslash is read back by \<open>unescapeMd\<close>.\<close>

lemma unescapeMd_undoes: "unescapeMd (concat (map md_unit s)) = s"
  unfolding unescapeMd_eq by (rule backslash.scan_escaped)

end
