(* ===== verification/Buffer_Store.thy ===== *)
theory Buffer_Store
  imports Buffer_Text
begin

text \<open>
  Buffers that share memory. A buffer object is a view of an \<open>ArrayBuffer\<close>; \<open>slice\<close> makes a new object
  on the same memory where typed arrays are supported, and \<open>copy\<close> moves bytes between two objects
  whose views may overlap. The store holds the memory blocks and the views by address; object
  identity (\<open>===\<close>) is equality of addresses.

  The operations that do not depend on sharing (\<open>compare\<close>, \<open>concat\<close>, \<open>swap\<close>, \<open>indexOf\<close>) work on the list of
  bytes of a buffer. Numbers are integral; a missing argument is \<open>None\<close>.
\<close>

section \<open>Memory and views\<close>

record view =
  v_buf :: nat
  v_off :: nat
  v_len :: nat

record store =
  blocks :: "byte list list"
  views :: "view list"

definition block_of :: "store \<Rightarrow> nat \<Rightarrow> byte list" where
  "block_of s a = blocks s ! v_buf (views s ! a)"

definition buffer_bytes :: "store \<Rightarrow> nat \<Rightarrow> byte list" where
  "buffer_bytes s a = take (v_len (views s ! a)) (drop (v_off (views s ! a)) (block_of s a))"

definition buffer_length :: "store \<Rightarrow> nat \<Rightarrow> int" where
  "buffer_length s a = int (v_len (views s ! a))"

text \<open>\<open>b[i]\<close> and \<open>b[i] = v\<close> for an index within the view.\<close>

definition read_at :: "store \<Rightarrow> nat \<Rightarrow> nat \<Rightarrow> byte" where
  "read_at s a i = block_of s a ! (v_off (views s ! a) + i)"

definition write_at :: "store \<Rightarrow> nat \<Rightarrow> nat \<Rightarrow> byte \<Rightarrow> store" where
  "write_at s a i v =
     s\<lparr>blocks := (blocks s)[v_buf (views s ! a) := (block_of s a)[v_off (views s ! a) + i := v]]\<rparr>"

definition new_buffer :: "store \<Rightarrow> byte list \<Rightarrow> store \<times> nat" where
  "new_buffer s bs =
     (s\<lparr>blocks := blocks s @ [bs],
        views := views s @ [\<lparr>v_buf = length (blocks s), v_off = 0, v_len = length bs\<rparr>]\<rparr>,
      length (views s))"

section \<open>\<open>slice\<close> and \<open>copy\<close>\<close>

text \<open>\<open>~~e\<close>, then counted from the end if negative and clamped to the length.\<close>

definition clamp :: "int \<Rightarrow> int \<Rightarrow> int" where
  "clamp r e =
     (let e = ToInt32 e
      in if e < 0 then (if e + r < 0 then 0 else e + r) else if e > r then r else e)"

definition slice :: "bool \<Rightarrow> store \<Rightarrow> nat \<Rightarrow> int option \<Rightarrow> int option \<Rightarrow> store \<times> nat" where
  "slice typed s a e t =
     (let r = buffer_length s a;
          e = (case e of None \<Rightarrow> 0 | Some e \<Rightarrow> clamp r e);
          t = (case t of None \<Rightarrow> r | Some t \<Rightarrow> clamp r t);
          t = (if t < e then e else t)
      in if typed
         then (s\<lparr>views := views s @ [(views s ! a)\<lparr>v_off := v_off (views s ! a) + nat e, v_len := nat (t - e)\<rparr>]\<rparr>,
               length (views s))
         else new_buffer s (map (\<lambda>i. read_at s a (i + nat e)) [0..<nat (t - e)]))"

fun copy_up :: "store \<Rightarrow> nat \<Rightarrow> nat \<Rightarrow> nat \<Rightarrow> nat \<Rightarrow> nat list \<Rightarrow> store" where
  "copy_up s this e t n [] = s"
| "copy_up s this e t n (k # ks) = copy_up (write_at s e (k + t) (read_at s this (k + n))) this e t n ks"

text \<open>\<open>Uint8Array.prototype.set\<close>: as if the source were copied first.\<close>

definition typed_set :: "store \<Rightarrow> nat \<Rightarrow> byte list \<Rightarrow> nat \<Rightarrow> store" where
  "typed_set s e bs t = foldl (\<lambda>s k. write_at s e (k + t) (bs ! k)) s [0..<length bs]"

definition copy :: "bool \<Rightarrow> store \<Rightarrow> nat \<Rightarrow> nat \<Rightarrow> int option \<Rightarrow> int option \<Rightarrow> int option \<Rightarrow> (store \<times> int) result" where
  "copy typed s this e t n r =
     (let len = buffer_length s this; elen = buffer_length s e;
          n = (case n of None \<Rightarrow> 0 | Some n \<Rightarrow> n);
          r = (case r of None \<Rightarrow> len | Some r \<Rightarrow> r);
          t = (case t of None \<Rightarrow> 0 | Some t \<Rightarrow> if t \<ge> elen then elen else t);
          r = (if r > 0 \<and> r < n then n else r)
      in if r = n then Inr (s, 0)
         else if elen = 0 \<or> len = 0 then Inr (s, 0)
         else if t < 0 then Inl (RangeError ''targetStart out of bounds'')
         else if n < 0 \<or> n \<ge> len then Inl (RangeError ''sourceStart out of bounds'')
         else if r < 0 then Inl (RangeError ''sourceEnd out of bounds'')
         else (let r = (if r > len then len else r);
                   r = (if elen - t < r - n then elen - t + n else r);
                   i = r - n
               in Inr (if this = e \<and> n < t \<and> t < r
                       then copy_up s this e (nat t) (nat n) (rev [0..<nat i])
                       else if i < 1000 \<or> \<not> typed
                       then copy_up s this e (nat t) (nat n) [0..<nat i]
                       else typed_set s e (take (nat i) (drop (nat n) (buffer_bytes s this))) (nat t),
                       i)))"

section \<open>Allocation and \<open>fill\<close>\<close>

definition assertSize :: "int \<Rightarrow> unit result" where
  "assertSize e = (if e < 0 then Inl (RangeError ''\"size\" argument must not be negative'') else Inr ())"

definition checked :: "bool \<Rightarrow> int \<Rightarrow> nat result" where
  "checked typed e =
     (if e \<ge> kMaxLength typed
      then Inl (RangeError ''Attempt to allocate Buffer larger than maximum size'') else Inr (nat (ToInt32 e)))"

definition allocUnsafe :: "bool \<Rightarrow> int \<Rightarrow> byte list result" where
  "allocUnsafe typed t =
     (case assertSize t of Inl err \<Rightarrow> Inl err
      | Inr _ \<Rightarrow> (case checked typed t of Inl err \<Rightarrow> Inl err | Inr n \<Rightarrow> createBuffer typed n))"

definition fromArrayLike :: "bool \<Rightarrow> int list \<Rightarrow> byte list result" where
  "fromArrayLike typed t =
     (case checked typed (int (length t)) of Inl err \<Rightarrow> Inl err
      | Inr n \<Rightarrow> (case createBuffer typed n of Inl err \<Rightarrow> Inl err
                  | Inr e \<Rightarrow> Inr (foldl (\<lambda>e r. u8_set e (int r) (band 255 (t ! r))) e [0..<n])))"

datatype fill_value = FillStr jsstring | FillNum int | FillBytes "byte list"

text \<open>
  The arguments of \<open>fill\<close>: value, start, end and encoding. A string (other than of digits) in place of
  the start is \<open>NaN\<close>, which no comparison rejects; in place of the end it is \<open>NaN >>> 0\<close>, that is 0.
\<close>

definition num_arg :: "arg \<Rightarrow> int option" where
  "num_arg a = (case a of Num k \<Rightarrow> Some k | _ \<Rightarrow> None)"

definition end_arg :: "arg \<Rightarrow> int option" where
  "end_arg a = (case a of Num k \<Rightarrow> Some k | Str _ \<Rightarrow> Some 0 | Undefined \<Rightarrow> None)"

definition fill_args ::
  "byte list \<Rightarrow> fill_value \<Rightarrow> arg \<Rightarrow> arg \<Rightarrow> jsstring option
   \<Rightarrow> (fill_value \<times> int option \<times> int option \<times> jsstring option) result" where
  "fill_args b e t n r =
     (case e of
        FillStr s \<Rightarrow>
          (let (t, n, r) = (case t of
                 Str name \<Rightarrow> (Some 0, Some (int (length b)), Some name)
               | _ \<Rightarrow> (case n of Str name \<Rightarrow> (num_arg t, Some (int (length b)), Some name)
                      | _ \<Rightarrow> (num_arg t, num_arg n, r)));
               e = (if length s = 1 \<and> hd s < 256 then FillNum (uint (hd s)) else e)
           in if r \<noteq> None \<and> \<not> isEncoding (the r) then Inl (TypeError ''Unknown encoding'')
              else Inr (e, t, n, r))
      | FillNum v \<Rightarrow> Inr (FillNum (band 255 v), num_arg t, end_arg n, r)
      | FillBytes a \<Rightarrow> Inr (e, num_arg t, end_arg n, r))"

text \<open>The bytes of a string pattern: decoded from its encoding, shown as UTF-8 text, encoded as UTF-8.\<close>

definition fill_pattern :: "bool \<Rightarrow> fill_value \<Rightarrow> jsstring option \<Rightarrow> byte list result" where
  "fill_pattern typed e r =
     (case e of
        FillBytes a \<Rightarrow> Inr a
      | FillNum v \<Rightarrow> Inr [of_int v]
      | FillStr s \<Rightarrow>
          (if s = [] then Inr [0]
           else (case fromString typed s r of Inl err \<Rightarrow> Inl err
                 | Inr b \<Rightarrow> (case toString b None None None of Inl err \<Rightarrow> Inl err
                            | Inr text \<Rightarrow> utf8ToBytes text None))))"

definition fill_loop :: "byte list \<Rightarrow> byte list \<Rightarrow> nat \<Rightarrow> nat \<Rightarrow> byte list" where
  "fill_loop b a t n =
     foldl (\<lambda>b i. b[i + t := (if a = [] then 0 else a ! (i mod length a))]) b [0..<n - t]"

definition fill :: "bool \<Rightarrow> byte list \<Rightarrow> fill_value \<Rightarrow> arg \<Rightarrow> arg \<Rightarrow> jsstring option \<Rightarrow> byte list result" where
  "fill typed b e t n r =
     (case fill_args b e t n r of Inl err \<Rightarrow> Inl err
      | Inr (e, t, n, r) \<Rightarrow>
          (let len = int (length b)
           in if (t \<noteq> None \<and> (the t < 0 \<or> len < the t)) \<or> (n \<noteq> None \<and> len < the n)
              then Inl (RangeError ''Out of range index'')
              else if t \<noteq> None \<and> n \<noteq> None \<and> the n \<le> the t then Inr b
              else (case fill_pattern typed e r of Inl err \<Rightarrow> Inl err
                    | Inr a \<Rightarrow> Inr (fill_loop b a (case t of None \<Rightarrow> 0 | Some t \<Rightarrow> nat (ToUint32 t))
                                      (case n of None \<Rightarrow> length b | Some n \<Rightarrow> nat (ToUint32 n))))))"

definition alloc :: "bool \<Rightarrow> int \<Rightarrow> fill_value option \<Rightarrow> jsstring option \<Rightarrow> byte list result" where
  "alloc typed t v enc =
     (case assertSize t of Inl err \<Rightarrow> Inl err
      | Inr _ \<Rightarrow>
          (case createBuffer typed (nat t) of Inl err \<Rightarrow> Inl err
           | Inr b \<Rightarrow> (if t \<le> 0 then Inr b
                      else (case v of None \<Rightarrow> Inr b
                            | Some v \<Rightarrow> (case enc of Some name \<Rightarrow> fill typed b v (Str name) Undefined None
                                        | None \<Rightarrow> fill typed b v Undefined Undefined None)))))"

section \<open>\<open>compare\<close>, \<open>equals\<close>, \<open>concat\<close>\<close>

fun compare_loop :: "byte list \<Rightarrow> byte list \<Rightarrow> int \<Rightarrow> int \<Rightarrow> int \<times> int" where
  "compare_loop (x # xs) (y # ys) n r = (if x \<noteq> y then (uint x, uint y) else compare_loop xs ys n r)"
| "compare_loop _ _ n r = (n, r)"

definition sign_of :: "int \<times> int \<Rightarrow> int" where
  "sign_of = (\<lambda>(n, r). if n < r then -1 else if r < n then 1 else 0)"

text \<open>\<open>Buffer.compare\<close>; the shortcut for one and the same object gives 0 as well.\<close>

definition bufferCompare :: "byte list \<Rightarrow> byte list \<Rightarrow> int" where
  "bufferCompare e t = sign_of (compare_loop e t (int (length e)) (int (length t)))"

definition equals :: "byte list \<Rightarrow> byte list \<Rightarrow> bool" where
  "equals b e = (bufferCompare b e = 0)"

text \<open>\<open>Buffer.prototype.compare\<close> with ranges; \<open>same\<close> tells whether both are one object.\<close>

definition compareRange ::
  "byte list \<Rightarrow> byte list \<Rightarrow> bool \<Rightarrow> int option \<Rightarrow> int option \<Rightarrow> int option \<Rightarrow> int option \<Rightarrow> int result" where
  "compareRange b e same t n r o' =
     (let t = (case t of None \<Rightarrow> 0 | Some t \<Rightarrow> t);
          n = (case n of None \<Rightarrow> int (length e) | Some n \<Rightarrow> n);
          r = (case r of None \<Rightarrow> 0 | Some r \<Rightarrow> r);
          o' = (case o' of None \<Rightarrow> int (length b) | Some x \<Rightarrow> x)
      in if t < 0 \<or> n > int (length e) \<or> r < 0 \<or> o' > int (length b) then Inl (RangeError ''out of range index'')
         else if r \<ge> o' \<and> t \<ge> n then Inr 0
         else if r \<ge> o' then Inr (-1)
         else if t \<ge> n then Inr 1
         else if same then Inr 0
         else Inr (sign_of (compare_loop (take (nat (o' - r)) (drop (nat r) b)) (take (nat (n - t)) (drop (nat t) e))
                              (o' - r) (n - t))))"

text \<open>\<open>a.copy(r, o)\<close> of a part of \<open>concat\<close>: into the fresh buffer, as much as fits.\<close>

definition copy_into :: "byte list \<Rightarrow> byte list \<Rightarrow> nat \<Rightarrow> byte list" where
  "copy_into a r o' = (if o' \<ge> length r then r else put r o' (take (length r - o') a))"

fun concat_loop :: "byte list list \<Rightarrow> byte list \<Rightarrow> nat \<Rightarrow> byte list" where
  "concat_loop [] r o' = r"
| "concat_loop (a # as) r o' = concat_loop as (copy_into a r o') (o' + length a)"

definition bufferConcat :: "bool \<Rightarrow> byte list list \<Rightarrow> nat option \<Rightarrow> byte list result" where
  "bufferConcat typed e t =
     (if e = [] then Inr []
      else (let t = (case t of None \<Rightarrow> sum_list (map length e) | Some t \<Rightarrow> t);
                k = (if typed then 2147483647 else 1073741823)
            in if t \<ge> k then Inl (RangeError ''Attempt to allocate Buffer larger than maximum size'')
               else Inr (concat_loop e (replicate t 0) 0)))"

section \<open>\<open>swap16\<close>, \<open>swap32\<close>, \<open>swap64\<close>\<close>

definition swap :: "byte list \<Rightarrow> nat \<Rightarrow> nat \<Rightarrow> byte list" where
  "swap e t n = e[t := e ! n, n := e ! t]"

fun swap_pairs :: "byte list \<Rightarrow> nat \<Rightarrow> (nat \<times> nat) list \<Rightarrow> byte list" where
  "swap_pairs e t [] = e"
| "swap_pairs e t ((i, j) # ps) = swap_pairs (swap e (t + i) (t + j)) t ps"

definition swap_loop :: "byte list \<Rightarrow> nat \<Rightarrow> (nat \<times> nat) list \<Rightarrow> byte list" where
  "swap_loop e w ps = foldl (\<lambda>e k. swap_pairs e (w * k) ps) e [0..<length e div w]"

definition swap16 :: "byte list \<Rightarrow> byte list result" where
  "swap16 e = (if length e mod 2 \<noteq> 0 then Inl (RangeError ''Buffer size must be a multiple of 16-bits'')
     else Inr (swap_loop e 2 [(0, 1)]))"

definition swap32 :: "byte list \<Rightarrow> byte list result" where
  "swap32 e = (if length e mod 4 \<noteq> 0 then Inl (RangeError ''Buffer size must be a multiple of 32-bits'')
     else Inr (swap_loop e 4 [(0, 3), (1, 2)]))"

definition swap64 :: "byte list \<Rightarrow> byte list result" where
  "swap64 e = (if length e mod 8 \<noteq> 0 then Inl (RangeError ''Buffer size must be a multiple of 64-bits'')
     else Inr (swap_loop e 8 [(0, 7), (1, 6), (2, 5), (3, 4)]))"

section \<open>\<open>indexOf\<close> and \<open>lastIndexOf\<close>\<close>

text \<open>
  \<open>arrayIndexOf\<close> (\<open>g\<close>) forward: \<open>c\<close> is the start of the current candidate, \<open>-1\<close> for none. A mismatch
  sets \<open>i\<close> back to the start, and the loop goes on behind it. The first condition states what holds
  of \<open>i\<close> and \<open>c\<close> in every iteration beside the loop's own \<open>i < u\<close>.
\<close>

function search_up :: "'a list \<Rightarrow> 'a list \<Rightarrow> int \<Rightarrow> int \<Rightarrow> int" where
  "search_up e t i c =
     (if i < int (length e) \<and> (0 \<le> i \<and> t \<noteq> [] \<and> (c = -1 \<or> 0 \<le> c \<and> c \<le> i \<and> i - c < int (length t)))
      then (if e ! nat i = t ! nat (if c = -1 then 0 else i - c)
            then (let c' = (if c = -1 then i else c)
                  in if i - c' + 1 = int (length t) then c' else search_up e t (i + 1) c')
            else (let i' = (if c \<noteq> -1 then i - (i - c) else i) in search_up e t (i' + 1) (-1)))
      else -1)"
  by pat_completeness auto
termination
  by (relation "measures [\<lambda>(e, t, i, c). nat (int (length e) - (if c = -1 then i else c)),
        \<lambda>(e, t, i, c). (if c = -1 then 1 else 0), \<lambda>(e, t, i, c). nat (int (length e) - i)]")
     (auto simp: Let_def)

declare search_up.simps [simp del]

definition matches_at :: "'a list \<Rightarrow> 'a list \<Rightarrow> nat \<Rightarrow> bool" where
  "matches_at e t i = list_all (\<lambda>p. item_at e (i + p) = item_at t p) [0..<length t]"

function search_down :: "'a list \<Rightarrow> 'a list \<Rightarrow> int \<Rightarrow> int" where
  "search_down e t i =
     (if i \<ge> 0 then (if matches_at e t (nat i) then i else search_down e t (i - 1)) else -1)"
  by pat_completeness auto
termination
  by (relation "measure (\<lambda>(e, t, i). nat (i + 1))") auto

declare search_down.simps [simp del]

text \<open>
  The elements compared: bytes (\<open>a = 1\<close>), or 16 bit units for the UTF-16 encodings (\<open>a = 2\<close>; the lengths
  and the offset are even). The forward search returns \<open>c * a\<close>, the backward search returns \<open>i\<close>.
\<close>

fun units16 :: "byte list \<Rightarrow> nat list" where
  "units16 (x # y # r) = (256 * unat x + unat y) # units16 r"
| "units16 _ = []"

definition arrayIndexOf :: "byte list \<Rightarrow> byte list \<Rightarrow> int \<Rightarrow> bool \<Rightarrow> bool \<Rightarrow> int" where
  "arrayIndexOf e t n ucs2 dir =
     (if ucs2
      then (if length e < 2 \<or> length t < 2 then -1
            else (let e = units16 e; t = units16 t; n = n div 2
                  in if dir then (let c = search_up e t n (-1) in if c = -1 then -1 else c * 2)
                     else search_down e t (min n (int (length e) - int (length t)))))
      else if dir then search_up e t n (-1)
      else search_down e t (min n (int (length e) - int (length t))))"

text \<open>\<open>bidirectionalIndexOf\<close> (\<open>m\<close>) of a buffer; a missing offset is \<open>NaN\<close>.\<close>

definition start_offset :: "nat \<Rightarrow> int option \<Rightarrow> bool \<Rightarrow> int option" where
  "start_offset len n dir =
     (let n = (case n of None \<Rightarrow> (if dir then 0 else int len - 1)
               | Some n \<Rightarrow> if n > 2147483647 then 2147483647 else if n < -2147483648 then -2147483648 else n);
          n = (if n < 0 then int len + n else n)
      in if n \<ge> int len then (if dir then None else Some (int len - 1))
         else if n < 0 then (if dir then Some 0 else None)
         else Some n)"

definition bidirectionalIndexOf :: "byte list \<Rightarrow> byte list \<Rightarrow> int option \<Rightarrow> bool \<Rightarrow> bool \<Rightarrow> int" where
  "bidirectionalIndexOf e t n ucs2 dir =
     (if e = [] then -1
      else (case start_offset (length e) n dir of
              None \<Rightarrow> -1
            | Some n \<Rightarrow> if t = [] then -1 else arrayIndexOf e t n ucs2 dir))"

definition indexOf :: "byte list \<Rightarrow> byte list \<Rightarrow> int option \<Rightarrow> bool \<Rightarrow> int" where
  "indexOf b e t ucs2 = bidirectionalIndexOf b e t ucs2 True"

definition lastIndexOf :: "byte list \<Rightarrow> byte list \<Rightarrow> int option \<Rightarrow> bool \<Rightarrow> int" where
  "lastIndexOf b e t ucs2 = bidirectionalIndexOf b e t ucs2 False"

definition buffer_includes :: "byte list \<Rightarrow> byte list \<Rightarrow> int option \<Rightarrow> bool \<Rightarrow> bool" where
  "buffer_includes b e t ucs2 = (indexOf b e t ucs2 \<noteq> -1)"

section \<open>Searching\<close>

definition occurs :: "'a list \<Rightarrow> 'a list \<Rightarrow> nat \<Rightarrow> bool" where
  "occurs e t i \<longleftrightarrow> i + length t \<le> length e \<and> (\<forall>k < length t. e ! (i + k) = t ! k)"

text \<open>The result of a search from \<open>i\<close> upwards.\<close>

definition first_from :: "'a list \<Rightarrow> 'a list \<Rightarrow> int \<Rightarrow> int \<Rightarrow> bool" where
  "first_from e t i r \<longleftrightarrow>
     (if r = -1 then \<forall>j. i \<le> int j \<longrightarrow> \<not> occurs e t j
      else i \<le> r \<and> occurs e t (nat r) \<and> (\<forall>j. i \<le> int j \<and> int j < r \<longrightarrow> \<not> occurs e t j))"

lemma first_from_skip: "\<not> occurs e t (nat i) \<Longrightarrow> 0 \<le> i \<Longrightarrow> first_from e t (i + 1) r \<Longrightarrow> first_from e t i r"
  unfolding first_from_def by (smt (verit) nat_int)

text \<open>What holds of the loop variables: the candidate agrees with the pattern so far.\<close>

definition candidate :: "'a list \<Rightarrow> 'a list \<Rightarrow> int \<Rightarrow> int \<Rightarrow> bool" where
  "candidate e t i c \<longleftrightarrow> t \<noteq> [] \<and> 0 \<le> i \<and>
     (c = -1 \<or> 0 \<le> c \<and> c < i \<and> i - c < int (length t) \<and> (\<forall>k. int k < i - c \<longrightarrow> e ! (nat c + k) = t ! k))"

definition start :: "int \<Rightarrow> int \<Rightarrow> int" where
  "start i c = (if c = -1 then i else c)"

lemma search_up_steps:
  assumes "candidate e t i c" "i < int (length e)"
  shows "e ! nat i = t ! nat (i - start i c) \<Longrightarrow> i - start i c + 1 = int (length t) \<Longrightarrow> search_up e t i c = start i c"
    and "e ! nat i = t ! nat (i - start i c) \<Longrightarrow> i - start i c + 1 \<noteq> int (length t) \<Longrightarrow>
      search_up e t i c = search_up e t (i + 1) (start i c)"
    and "e ! nat i \<noteq> t ! nat (i - start i c) \<Longrightarrow> search_up e t i c = search_up e t (start i c + 1) (-1)"
proof -
  have g: "i < int (length e) \<and> (0 \<le> i \<and> t \<noteq> [] \<and> (c = -1 \<or> 0 \<le> c \<and> c \<le> i \<and> i - c < int (length t)))"
    using assms by (auto simp: candidate_def)
  have pos: "(if c = -1 then 0 else i - c) = i - start i c" "(if c \<noteq> -1 then i - (i - c) else i) = start i c"
    by (simp_all add: start_def)
  show "e ! nat i = t ! nat (i - start i c) \<Longrightarrow> i - start i c + 1 = int (length t) \<Longrightarrow> search_up e t i c = start i c"
    "e ! nat i = t ! nat (i - start i c) \<Longrightarrow> i - start i c + 1 \<noteq> int (length t) \<Longrightarrow>
      search_up e t i c = search_up e t (i + 1) (start i c)"
    "e ! nat i \<noteq> t ! nat (i - start i c) \<Longrightarrow> search_up e t i c = search_up e t (start i c + 1) (-1)"
    using g by (subst search_up.simps; simp only: Let_def pos start_def [symmetric] simp_thms if_True if_False)+
qed

lemma candidate_start: "candidate e t i c \<Longrightarrow> 0 \<le> start i c \<and> start i c \<le> i \<and> i - start i c < int (length t)"
  by (auto simp: candidate_def start_def)

lemma candidate_match:
  assumes "candidate e t i c" "e ! nat i = t ! nat (i - start i c)" "int k < i - start i c + 1"
  shows "e ! (nat (start i c) + k) = t ! k"
proof (cases "int k = i - start i c")
  case True
  then have "nat (start i c) + k = nat i" "k = nat (i - start i c)" using candidate_start [OF assms(1)] by auto
  then show ?thesis using assms(2) by simp
qed (use assms in \<open>auto simp: candidate_def start_def split: if_splits\<close>)

lemma candidate_mismatch:
  assumes "candidate e t i c" "e ! nat i \<noteq> t ! nat (i - start i c)"
  shows "\<not> occurs e t (nat (start i c))"
proof
  assume "occurs e t (nat (start i c))"
  moreover have "nat (i - start i c) < length t" "nat (start i c) + nat (i - start i c) = nat i"
    using candidate_start [OF assms(1)] by auto
  ultimately show False using assms(2) by (auto simp: occurs_def)
qed

lemma candidate_over:
  assumes "candidate e t i c" "\<not> i < int (length e)" "start i c \<le> int j"
  shows "\<not> occurs e t j"
  using assms candidate_start [OF assms(1)] by (auto simp: occurs_def)

lemma search_up_first:
  "candidate e t i c \<Longrightarrow> first_from e t (start i c) (search_up e t i c)"
proof (induction e t i c rule: search_up.induct)
  case (1 e t i c)
  note cand = "1.prems" and s = candidate_start [OF "1.prems"]
  have g: "i < int (length e) \<Longrightarrow>
      i < int (length e) \<and> (0 \<le> i \<and> t \<noteq> [] \<and> (c = -1 \<or> 0 \<le> c \<and> c \<le> i \<and> i - c < int (length t)))"
    using cand by (auto simp: candidate_def)
  consider (over) "\<not> i < int (length e)"
    | (found) "i < int (length e)" "e ! nat i = t ! nat (i - start i c)" "i - start i c + 1 = int (length t)"
    | (more) "i < int (length e)" "e ! nat i = t ! nat (i - start i c)" "i - start i c + 1 \<noteq> int (length t)"
    | (ne) "i < int (length e)" "e ! nat i \<noteq> t ! nat (i - start i c)" by blast
  then show ?case
  proof cases
    case over
    then have "search_up e t i c = -1" by (simp add: search_up.simps)
    then show ?thesis using candidate_over [OF cand over] by (simp add: first_from_def)
  next
    case found
    then have "occurs e t (nat (start i c))" using candidate_match [OF cand found(2)] s by (auto simp: occurs_def)
    then show ?thesis using search_up_steps(1) [OF cand found] s by (auto simp: first_from_def)
  next
    case more
    have "candidate e t (i + 1) (start i c)"
      using candidate_match [OF cand more(2)] s more(3) cand by (auto simp: candidate_def)
    then have "first_from e t (start (i + 1) (start i c)) (search_up e t (i + 1) (start i c))"
      using "1.IH"(1) [OF g] more s by (auto simp: start_def split: if_splits)
    then show ?thesis using search_up_steps(2) [OF cand more] s by (simp add: start_def split: if_splits)
  next
    case ne
    have "candidate e t (start i c + 1) (-1)" using s cand by (auto simp: candidate_def)
    then have "first_from e t (start i c + 1) (search_up e t (start i c + 1) (-1))"
      using "1.IH"(2) [OF g] ne s by (auto simp: start_def split: if_splits)
    then show ?thesis
      using search_up_steps(3) [OF cand ne] first_from_skip candidate_mismatch [OF cand ne(2)] s by metis
  qed
qed

lemma matches_at_occurs:
  assumes "i + length t \<le> length e"
  shows "matches_at e t i \<longleftrightarrow> occurs e t i"
  using assms by (auto simp: matches_at_def occurs_def list_all_iff)

lemma search_down_last:
  assumes "i + int (length t) \<le> int (length e)"
  shows "(let r = search_down e t i in
     if r = -1 then \<forall>j. int j \<le> i \<longrightarrow> \<not> occurs e t j
     else 0 \<le> r \<and> r \<le> i \<and> occurs e t (nat r) \<and> (\<forall>j. r < int j \<and> int j \<le> i \<longrightarrow> \<not> occurs e t j))"
  using assms
proof (induction e t i rule: search_down.induct)
  case (1 e t i)
  consider "i < 0" | "0 \<le> i" "occurs e t (nat i)" | "0 \<le> i" "\<not> occurs e t (nat i)" by linarith
  then show ?case
  proof cases
    case 1
    then show ?thesis by (auto simp: search_down.simps [of e t i])
  next
    case 2
    then show ?thesis using matches_at_occurs [of "nat i" t e] "1.prems" by (auto simp: search_down.simps [of e t i] Let_def)
  next
    case 3
    then have m: "\<not> matches_at e t (nat i)" using matches_at_occurs [of "nat i" t e] "1.prems" by auto
    then have r: "search_down e t i = search_down e t (i - 1)" using 3 by (simp add: search_down.simps [of e t i])
    have "int j \<le> i \<Longrightarrow> int j \<le> i - 1 \<or> j = nat i" for j by auto
    then show ?thesis
      using "1.IH" [OF 3(1) m] "1.prems" 3 unfolding r Let_def by (auto split: if_splits)
  qed
qed

section \<open>Comparing and joining\<close>

lemma sign_compare:
  assumes "n - int (length e) = r - int (length t)"
  shows "sign_of (compare_loop e t n r) =
    (if (e, t) \<in> lexord {(x, y). x < y} then -1 else if e = t then 0 else 1)"
  using assms
proof (induction e arbitrary: t)
  case Nil
  then show ?case by (cases t) (auto simp: sign_of_def)
next
  case (Cons x xs)
  show ?case
  proof (cases t)
    case (Cons y ys)
    then show ?thesis using Cons.IH Cons.prems
      by (cases x y rule: linorder_cases) (auto simp: sign_of_def word_less_def)
  qed (use Cons.prems in \<open>auto simp: sign_of_def\<close>)
qed

lemma copy_into_room: "o' + length a \<le> length r \<Longrightarrow> copy_into a r o' = put r o' a"
  by (cases "o' = length r") (auto simp: copy_into_def)

lemma concat_loop_eq:
  assumes "length done + length (concat as) = n"
  shows "concat_loop as (done @ replicate (n - length done) 0) (length done) = done @ concat as"
  using assms
proof (induction as arbitrary: "done")
  case (Cons a as)
  let ?r = "done @ replicate (n - length done) 0"
  have "copy_into a ?r (length done) = put ?r (length done) a"
    using Cons.prems by (intro copy_into_room) simp
  also have "\<dots> = (done @ a) @ replicate (n - length (done @ a)) 0"
    using Cons.prems by (simp add: put_def)
  finally show ?case using Cons.IH [of "done @ a"] Cons.prems by simp
qed simp

section \<open>Swapping\<close>

lemma length_swap_pairs [simp]: "length (swap_pairs e t ps) = length e"
  by (induction e t ps rule: swap_pairs.induct) (simp_all add: swap_def)

text \<open>A group of bytes, in the middle of a buffer, reversed in place.\<close>

lemma swap_append:
  "i < length g \<Longrightarrow> j < length g \<Longrightarrow> swap (p @ g @ q) (length p + i) (length p + j) = p @ swap g i j @ q"
  by (simp add: swap_def list_update_append nth_append)

lemma swap_pairs_append:
  assumes "\<forall>(i, j) \<in> set ps. i < length g \<and> j < length g" "t = length p"
  shows "swap_pairs (p @ g @ q) t ps = p @ swap_pairs g 0 ps @ q"
  using assms
proof (induction ps arbitrary: g)
  case (Cons ij ps)
  obtain i j where ij: "ij = (i, j)" by fastforce
  then have "swap (p @ g @ q) (t + i) (t + j) = p @ swap g i j @ q" using Cons.prems swap_append by auto
  moreover have "length (swap g i j) = length g" by (simp add: swap_def)
  ultimately show ?case using Cons by (auto simp: ij)
qed simp

fun map_groups :: "nat \<Rightarrow> ('a list \<Rightarrow> 'a list) \<Rightarrow> nat \<Rightarrow> 'a list \<Rightarrow> 'a list" where
  "map_groups w f 0 b = b"
| "map_groups w f (Suc k) b = f (take w b) @ map_groups w f k (drop w b)"

lemma swap_loop_groups:
  assumes "\<forall>(i, j) \<in> set ps. i < w \<and> j < w" "length b = w * k" "length p = w * n"
  shows "foldl (\<lambda>e k. swap_pairs e (w * k) ps) (p @ b) [n..<n + k]
    = p @ map_groups w (\<lambda>g. swap_pairs g 0 ps) k b"
  using assms
proof (induction k arbitrary: n p b)
  case (Suc k)
  let ?g = "take w b" and ?q = "drop w b"
  have "swap_pairs (p @ ?g @ ?q) (w * n) ps = p @ swap_pairs ?g 0 ps @ ?q"
    using Suc.prems by (intro swap_pairs_append) auto
  then have "swap_pairs (p @ b) (w * n) ps = (p @ swap_pairs ?g 0 ps) @ ?q" by simp
  moreover have "[n..<n + Suc k] = n # [Suc n..<Suc n + k]" by (simp add: upt_conv_Cons)
  ultimately show ?case
    using Suc.IH [of ?q "p @ swap_pairs ?g 0 ps" "Suc n"] Suc.prems by simp
qed simp

lemma swap_loop_eq:
  assumes "\<forall>(i, j) \<in> set ps. i < w \<and> j < w" "w dvd length b" "0 < w"
  shows "swap_loop b w ps = map_groups w (\<lambda>g. swap_pairs g 0 ps) (length b div w) b"
  using swap_loop_groups [OF assms(1), of b "length b div w" "[]" 0] assms(2,3) by (simp add: swap_loop_def)

lemma reverse_groups:
  "length g = 2 \<Longrightarrow> swap_pairs g 0 [(0, 1)] = rev g"
  "length g = 4 \<Longrightarrow> swap_pairs g 0 [(0, 3), (1, 2)] = rev g"
  "length g = 8 \<Longrightarrow> swap_pairs g 0 [(0, 7), (1, 6), (2, 5), (3, 4)] = rev g"
  by (auto simp: swap_def numeral_eq_Suc length_Suc_conv)

lemma map_groups_cong:
  "(\<And>g. length g = w \<Longrightarrow> f g = f' g) \<Longrightarrow> length b = w * k \<Longrightarrow> map_groups w f k b = map_groups w f' k b"
  by (induction k arbitrary: b) auto

lemma length_map_groups_rev [simp]: "length (map_groups w rev k b) = length b"
  by (induction k arbitrary: b) auto

lemma map_groups_rev_twice: "length b = w * k \<Longrightarrow> map_groups w rev k (map_groups w rev k b) = b"
  by (induction k arbitrary: b) auto

lemma swaps_reverse_groups:
  "swap16 b = (if 2 dvd length b then Inr (map_groups 2 rev (length b div 2) b)
     else Inl (RangeError ''Buffer size must be a multiple of 16-bits''))"
  "swap32 b = (if 4 dvd length b then Inr (map_groups 4 rev (length b div 4) b)
     else Inl (RangeError ''Buffer size must be a multiple of 32-bits''))"
  "swap64 b = (if 8 dvd length b then Inr (map_groups 8 rev (length b div 8) b)
     else Inl (RangeError ''Buffer size must be a multiple of 64-bits''))"
  using map_groups_cong [where b = b and k = "length b div 2", OF reverse_groups(1)]
    map_groups_cong [where b = b and k = "length b div 4", OF reverse_groups(2)] map_groups_cong [where b = b and k = "length b div 8", OF reverse_groups(3)]
  by (auto simp: swap16_def swap32_def swap64_def swap_loop_eq dvd_eq_mod_eq_0)

section \<open>Moving bytes\<close>

text \<open>The loops of \<open>copy\<close> on one block, and from one block to another.\<close>

fun move :: "'a list \<Rightarrow> nat \<Rightarrow> nat \<Rightarrow> nat list \<Rightarrow> 'a list" where
  "move xs d s [] = xs"
| "move xs d s (k # ks) = move (xs[d + k := xs ! (s + k)]) d s ks"

fun fetch :: "'a list \<Rightarrow> 'a list \<Rightarrow> nat \<Rightarrow> nat \<Rightarrow> nat list \<Rightarrow> 'a list" where
  "fetch ys xs d s [] = ys"
| "fetch ys xs d s (k # ks) = fetch (ys[d + k := xs ! (s + k)]) xs d s ks"

lemma length_move [simp]: "length (move xs d s ks) = length xs"
  by (induction ks arbitrary: xs) auto

lemma length_fetch [simp]: "length (fetch ys xs d s ks) = length ys"
  by (induction ks arbitrary: ys) auto

text \<open>As long as no position is read after it was written, moving is the same as fetching.\<close>

lemma move_fetch:
  assumes "sorted_wrt (\<lambda>k k'. s + k' \<noteq> d + k) ks"
  shows "\<forall>k \<in> set ks. ys ! (s + k) = xs ! (s + k) \<Longrightarrow> length ys = length xs \<Longrightarrow> move ys d s ks = fetch ys xs d s ks"
  using assms
proof (induction ks arbitrary: ys)
  case (Cons k ks)
  have "\<forall>k' \<in> set ks. ys[d + k := xs ! (s + k)] ! (s + k') = xs ! (s + k')"
    using Cons.prems by (auto simp: nth_list_update_neq)
  then show ?case using Cons by simp
qed simp

lemma nth_fetch:
  assumes "distinct ks" "\<forall>k \<in> set ks. d + k < length ys" "x < length ys"
  shows "fetch ys xs d s ks ! x = (if d \<le> x \<and> x - d \<in> set ks then xs ! (s + (x - d)) else ys ! x)"
  using assms
proof (induction ks arbitrary: ys)
  case (Cons k ks)
  then show ?case by (cases "x = d + k") (auto simp: nth_list_update)
qed simp

lemma fetch_put:
  assumes "distinct ks" "set ks = {0..<i}" "d + i \<le> length ys" "s + i \<le> length xs"
  shows "fetch ys xs d s ks = put ys d (take i (drop s xs))"
  using assms by (intro nth_equalityI) (auto simp: nth_fetch nth_put)

lemma move_down_safe: "s < d \<Longrightarrow> sorted_wrt (\<lambda>k k'. s + k' \<noteq> d + k) (rev [0..<i])"
  by (auto simp: sorted_wrt_iff_nth_less rev_nth)

lemma move_up_safe: "d \<le> s \<or> s + i \<le> d \<Longrightarrow> sorted_wrt (\<lambda>k k'. s + k' \<noteq> d + k) [0..<i]"
  by (auto simp: sorted_wrt_iff_nth_less)

section \<open>Well-formed stores\<close>

definition view_ok :: "store \<Rightarrow> view \<Rightarrow> bool" where
  "view_ok s v \<longleftrightarrow> v_buf v < length (blocks s) \<and> v_off v + v_len v \<le> length (blocks s ! v_buf v)"

definition store_ok :: "store \<Rightarrow> bool" where
  "store_ok s \<longleftrightarrow> (\<forall>v \<in> set (views s). view_ok s v)"

lemma store_okD: "store_ok s \<Longrightarrow> a < length (views s) \<Longrightarrow> view_ok s (views s ! a)"
  by (simp add: store_ok_def)

lemma length_buffer_bytes [simp]:
  "store_ok s \<Longrightarrow> a < length (views s) \<Longrightarrow> length (buffer_bytes s a) = v_len (views s ! a)"
  using store_okD [of s a] by (auto simp: buffer_bytes_def block_of_def view_ok_def)

lemma write_at_frame [simp]:
  "views (write_at s a i v) = views s"
  "length (blocks (write_at s a i v)) = length (blocks s)"
  "map length (blocks (write_at s a i v)) = map length (blocks s)"
proof -
  show "views (write_at s a i v) = views s" "length (blocks (write_at s a i v)) = length (blocks s)"
    by (simp_all add: write_at_def)
  show "map length (blocks (write_at s a i v)) = map length (blocks s)"
    by (simp add: write_at_def block_of_def map_update list_update_same_conv [symmetric])
      (metis list_update_beyond list_update_id map_update not_le nth_map)
qed

definition same_shape :: "store \<Rightarrow> store \<Rightarrow> bool" where
  "same_shape s s' \<longleftrightarrow> views s' = views s \<and> map length (blocks s') = map length (blocks s)"

lemma same_shape_ok: "same_shape s s' \<Longrightarrow> store_ok s \<Longrightarrow> store_ok s'"
  unfolding same_shape_def store_ok_def view_ok_def by (metis length_map nth_map)

lemma copy_up_shape: "same_shape s (copy_up s this e t n ks)"
  by (induction ks arbitrary: s) (auto simp: same_shape_def)

lemma typed_set_shape: "same_shape s (typed_set s e bs t)"
proof -
  have "same_shape s (foldl (\<lambda>s k. write_at s e (k + t) (bs ! k)) s ks)" for ks
    by (induction ks arbitrary: s) (auto simp: same_shape_def)
  then show ?thesis by (simp add: typed_set_def)
qed

lemma copy_up_blocks:
  assumes "v_buf (views s ! e) < length (blocks s)"
  shows "v_buf (views s ! this) = v_buf (views s ! e) \<Longrightarrow>
      block_of (copy_up s this e t n ks) e = move (block_of s e) (v_off (views s ! e) + t) (v_off (views s ! this) + n) ks"
    and "v_buf (views s ! this) \<noteq> v_buf (views s ! e) \<Longrightarrow>
      block_of (copy_up s this e t n ks) e
        = fetch (block_of s e) (block_of s this) (v_off (views s ! e) + t) (v_off (views s ! this) + n) ks"
  using assms
  by (induction ks arbitrary: s)
     (simp_all add: write_at_def block_of_def read_at_def add.assoc add.commute add.left_commute)

lemma typed_set_block:
  assumes "v_buf (views s ! e) < length (blocks s)"
  shows "block_of (typed_set s e bs t) e = fetch (block_of s e) bs (v_off (views s ! e) + t) 0 [0..<length bs]"
proof -
  have "v_buf (views s ! e) < length (blocks s) \<Longrightarrow> block_of (foldl (\<lambda>s k. write_at s e (k + t) (bs ! k)) s ks) e
      = fetch (block_of s e) bs (v_off (views s ! e) + t) 0 ks" for ks
    by (induction ks arbitrary: s) (simp_all add: write_at_def block_of_def add.assoc add.commute add.left_commute)
  then show ?thesis using assms by (simp add: typed_set_def)
qed


lemma view_put:
  assumes "k + length xs \<le> l" "q + l \<le> length b"
  shows "take l (drop q (put b (q + k) xs)) = put (take l (drop q b)) k xs"
  using assms by (intro nth_equalityI) (auto simp: nth_put)

text \<open>The three ways of \<open>copy\<close> all put the bytes of the source in their place.\<close>

lemma moved:
  assumes ok: "store_ok s" "this < length (views s)" "e < length (views s)"
    and apart: "this = e \<or> v_buf (views s ! this) \<noteq> v_buf (views s ! e)"
    and fit: "t + i \<le> v_len (views s ! e)" "n + i \<le> v_len (views s ! this)"
    and ks: "distinct ks" "set ks = {0..<i}" "this = e \<Longrightarrow> sorted_wrt (\<lambda>k k'. n + k' \<noteq> t + k) ks"
  shows "buffer_bytes (copy_up s this e t n ks) e = put (buffer_bytes s e) t (take i (drop n (buffer_bytes s this)))"
proof -
  let ?ve = "views s ! e" and ?vt = "views s ! this"
  have v: "view_ok s ?ve" "view_ok s ?vt" using ok store_okD by blast+
  let ?B = "block_of s e" and ?A = "block_of s this"
  have len: "v_off ?ve + v_len ?ve \<le> length ?B" "v_off ?vt + v_len ?vt \<le> length ?A"
    using v by (simp_all add: view_ok_def block_of_def)
  have "block_of (copy_up s this e t n ks) e = fetch ?B ?A (v_off ?ve + t) (v_off ?vt + n) ks"
  proof (cases "this = e")
    case True
    have "sorted_wrt (\<lambda>k k'. v_off ?vt + n + k' \<noteq> v_off ?ve + t + k) ks"
      using ks(3) [OF True] True by (auto simp: add.assoc elim: sorted_wrt_mono_rel [rotated])
    then show ?thesis
      using copy_up_blocks(1) [of s e this t n ks] move_fetch [of "v_off ?vt + n" "v_off ?ve + t" ks ?B ?B] v True
      by (simp add: view_ok_def)
  qed (use copy_up_blocks(2) [of s e this t n ks] apart v in \<open>simp add: view_ok_def\<close>)
  also have "\<dots> = put ?B (v_off ?ve + t) (take i (drop (v_off ?vt + n) ?A))"
    using ks(1,2) fit len by (intro fetch_put) auto
  finally have B: "block_of (copy_up s this e t n ks) e = put ?B (v_off ?ve + t) (take i (drop (v_off ?vt + n) ?A))" .
  have A: "take i (drop n (buffer_bytes s this)) = take i (drop (v_off ?vt + n) ?A)"
    using fit(2) by (simp add: buffer_bytes_def drop_take add.commute min_def)
  have "views (copy_up s this e t n ks) = views s" using copy_up_shape by (simp add: same_shape_def)
  then show ?thesis
    using view_put [of t "take i (drop (v_off ?vt + n) ?A)" "v_len ?ve" "v_off ?ve" ?B] fit len
    by (simp add: buffer_bytes_def B A [unfolded buffer_bytes_def])
qed

definition copy_target :: "store \<Rightarrow> nat \<Rightarrow> int option \<Rightarrow> nat" where
  "copy_target s e t = (case t of None \<Rightarrow> 0 | Some t \<Rightarrow> nat (min t (buffer_length s e)))"

definition copy_source :: "int option \<Rightarrow> nat" where
  "copy_source n = (case n of None \<Rightarrow> 0 | Some n \<Rightarrow> nat n)"

text \<open>The part of \<open>copy\<close> behind its checks.\<close>

definition copy_body :: "bool \<Rightarrow> store \<Rightarrow> nat \<Rightarrow> nat \<Rightarrow> nat \<Rightarrow> nat \<Rightarrow> int \<Rightarrow> store" where
  "copy_body typed s this e t n i =
     (if this = e \<and> n < t \<and> int t < int n + i then copy_up s this e t n (rev [0..<nat i])
      else if i < 1000 \<or> \<not> typed then copy_up s this e t n [0..<nat i]
      else typed_set s e (take (nat i) (drop n (buffer_bytes s this))) t)"

lemma copy_runs:
  assumes "copy typed s this e t n r = Inr (s', k)"
  shows "(s' = s \<and> k = 0) \<or> s' = copy_body typed s this e (copy_target s e t) (copy_source n) k
    \<and> copy_target s e t + nat k \<le> v_len (views s ! e) \<and> copy_source n + nat k \<le> v_len (views s ! this)"
proof -
  define len elen n0 r0 t0 where "len = buffer_length s this" and "elen = buffer_length s e"
    and "n0 = (case n of None \<Rightarrow> 0 | Some n \<Rightarrow> n)"
    and "r0 = (case r of None \<Rightarrow> len | Some r \<Rightarrow> r)"
    and "t0 = (case t of None \<Rightarrow> 0 | Some t \<Rightarrow> if t \<ge> elen then elen else t)"
  define r1 where "r1 = (if r0 > 0 \<and> r0 < n0 then n0 else r0)"
  define r2 where "r2 = (if r1 > len then len else r1)"
  define r3 where "r3 = (if elen - t0 < r2 - n0 then elen - t0 + n0 else r2)"
  note defs = len_def [symmetric] elen_def [symmetric] n0_def [symmetric] r0_def [symmetric] t0_def [symmetric]
    r1_def [symmetric] r2_def [symmetric] r3_def [symmetric]
  have t: "t0 = int (copy_target s e t)" if "0 \<le> t0"
    using that by (auto simp: t0_def copy_target_def elen_def min_def split: option.splits if_splits)
  have n: "n0 = int (copy_source n)" if "0 \<le> n0"
    using that by (auto simp: n0_def copy_source_def split: option.splits)
  have nonneg: "0 \<le> elen" "t0 \<le> elen \<or> t0 = 0" by (auto simp: elen_def t0_def buffer_length_def split: option.splits)
  consider "s' = s" "k = 0"
    | "0 \<le> t0" "0 \<le> n0" "n0 < len" "k = r3 - n0"
      "s' = (if this = e \<and> n0 < t0 \<and> t0 < r3 then copy_up s this e (nat t0) (nat n0) (rev [0..<nat (r3 - n0)])
        else if r3 - n0 < 1000 \<or> \<not> typed then copy_up s this e (nat t0) (nat n0) [0..<nat (r3 - n0)]
        else typed_set s e (take (nat (r3 - n0)) (drop (nat n0) (buffer_bytes s this))) (nat t0))"
    using assms unfolding copy_def Let_def defs by (simp only: split: if_splits) auto
  then show ?thesis
  proof cases
    case 2
    have "t0 + int (nat k) \<le> elen" "n0 + int (nat k) \<le> len"
      using 2(1-4) nonneg unfolding r3_def r2_def by (auto split: if_splits)
    then have "copy_target s e t + nat k \<le> v_len (views s ! e)" "copy_source n + nat k \<le> v_len (views s ! this)"
      using t n 2(1,2) by (auto simp: len_def elen_def buffer_length_def split: if_splits)
    moreover have r: "r3 = int (copy_source n) + k" using n 2(2,4) by simp
    have "s' = copy_body typed s this e (copy_target s e t) (copy_source n) k"
      using 2(5) unfolding copy_body_def r t [OF 2(1)] n [OF 2(2)] by simp
    ultimately show ?thesis by blast
  qed simp
qed

lemma copy_body_moves:
  assumes ok: "store_ok s" "this < length (views s)" "e < length (views s)"
    and apart: "this = e \<or> v_buf (views s ! this) \<noteq> v_buf (views s ! e)"
    and fit: "t + nat i \<le> v_len (views s ! e)" "n + nat i \<le> v_len (views s ! this)"
  shows "buffer_bytes (copy_body typed s this e t n i) e = put (buffer_bytes s e) t (take (nat i) (drop n (buffer_bytes s this)))"
proof -
  consider "this = e" "n < t" "int t < int n + i" | "\<not> (this = e \<and> n < t \<and> int t < int n + i)" "i < 1000 \<or> \<not> typed"
    | "\<not> (this = e \<and> n < t \<and> int t < int n + i)" "\<not> (i < 1000 \<or> \<not> typed)" by blast
  then show ?thesis
  proof cases
    case 1
    then show ?thesis using moved [OF ok apart fit, of "rev [0..<nat i]"] move_down_safe by (simp add: copy_body_def)
  next
    case 2
    have "sorted_wrt (\<lambda>k k'. n + k' \<noteq> t + k) [0..<nat i]" if "this = e"
      using that 2(1) by (intro move_up_safe) auto
    then show ?thesis using moved [OF ok apart fit, of "[0..<nat i]"] 2 by (auto simp: copy_body_def)
  next
    case 3
    let ?ve = "views s ! e" and ?bs = "take (nat i) (drop n (buffer_bytes s this))"
    have v: "view_ok s ?ve" using ok store_okD by blast
    have len: "length ?bs = nat i" using fit(2) ok by simp
    have "block_of (typed_set s e ?bs t) e = put (block_of s e) (v_off ?ve + t) (take (nat i) (drop 0 ?bs))"
      unfolding typed_set_block [OF v [unfolded view_ok_def, THEN conjunct1]] len
      by (rule fetch_put) (use fit v len in \<open>auto simp: view_ok_def block_of_def\<close>)
    then have B: "block_of (typed_set s e ?bs t) e = put (block_of s e) (v_off ?ve + t) ?bs" by simp
    have "views (typed_set s e ?bs t) = views s" using typed_set_shape by (simp add: same_shape_def)
    then have "buffer_bytes (typed_set s e ?bs t) e = take (v_len ?ve) (drop (v_off ?ve) (put (block_of s e) (v_off ?ve + t) ?bs))"
      by (simp add: buffer_bytes_def [of "typed_set s e ?bs t"] B)
    also have "\<dots> = put (buffer_bytes s e) t ?bs"
      unfolding buffer_bytes_def [of s e]
      by (rule view_put) (use fit v len in \<open>simp_all add: view_ok_def block_of_def\<close>)
    moreover have "copy_body typed s this e t n i = typed_set s e ?bs t" using 3 by (auto simp: copy_body_def)
    ultimately show ?thesis by simp
  qed
qed

text \<open>
  The number that \<open>copy\<close> returns: of the bytes from the start to the end of the source range as many as there are and as fit
  behind the target's start. If the range ends at 0 and starts behind it, it is negative, and nothing is moved.
\<close>

definition copy_count :: "store \<Rightarrow> nat \<Rightarrow> nat \<Rightarrow> int option \<Rightarrow> int option \<Rightarrow> int option \<Rightarrow> int" where
  "copy_count s this e t n r =
     (let len = buffer_length s this; elen = buffer_length s e;
          start = (case n of None \<Rightarrow> 0 | Some n \<Rightarrow> n); stop = (case r of None \<Rightarrow> len | Some r \<Rightarrow> r);
          target = (case t of None \<Rightarrow> 0 | Some t \<Rightarrow> min t elen)
      in if len = 0 \<or> elen = 0 then 0
         else if stop = 0 \<and> 0 < start then - start
         else max 0 (min (min stop len - start) (elen - target)))"

lemma copy_reports:
  assumes "copy typed s this e t n r = Inr (s', k)"
  shows "k = copy_count s this e t n r"
proof -
  define len elen n0 r0 t0 where "len = buffer_length s this" and "elen = buffer_length s e"
    and "n0 = (case n of None \<Rightarrow> 0 | Some n \<Rightarrow> n)"
    and "r0 = (case r of None \<Rightarrow> len | Some r \<Rightarrow> r)"
    and "t0 = (case t of None \<Rightarrow> 0 | Some t \<Rightarrow> if t \<ge> elen then elen else t)"
  note defs = len_def [symmetric] elen_def [symmetric] n0_def [symmetric] r0_def [symmetric] t0_def [symmetric]
  have t: "(case t of None \<Rightarrow> 0 | Some t \<Rightarrow> min t elen) = t0" by (auto simp: t0_def split: option.splits)
  have nonneg: "0 \<le> elen" "0 \<le> len" "t0 \<le> elen" by (auto simp: elen_def len_def t0_def buffer_length_def split: option.splits)
  show ?thesis using assms nonneg unfolding copy_def copy_count_def Let_def defs t
    by (simp only: split: if_splits) auto
qed

text \<open>Other memory is left alone.\<close>

lemma write_elsewhere: "j \<noteq> v_buf (views s ! e) \<Longrightarrow> blocks (write_at s e i v) ! j = blocks s ! j" "views (write_at s e i v) = views s"
  by (simp_all add: write_at_def)

lemma copy_up_frame: "j \<noteq> v_buf (views s ! e) \<Longrightarrow> blocks (copy_up s this e t n ks) ! j = blocks s ! j"
  by (induction ks arbitrary: s) (simp_all add: write_elsewhere)

lemma typed_set_frame: "j \<noteq> v_buf (views s ! e) \<Longrightarrow> blocks (typed_set s e bs t) ! j = blocks s ! j"
proof -
  have "j \<noteq> v_buf (views s ! e) \<Longrightarrow> blocks (foldl (\<lambda>s k. write_at s e (k + t) (bs ! k)) s ks) ! j = blocks s ! j" for ks
    by (induction ks arbitrary: s) (simp_all add: write_elsewhere)
  then show "j \<noteq> v_buf (views s ! e) \<Longrightarrow> ?thesis" by (simp add: typed_set_def)
qed

lemma copy_body_frame: "j \<noteq> v_buf (views s ! e) \<Longrightarrow> blocks (copy_body typed s this e t n i) ! j = blocks s ! j"
  by (simp add: copy_body_def copy_up_frame typed_set_frame)

lemma copy_body_shape: "same_shape s (copy_body typed s this e t n i)"
  using copy_up_shape typed_set_shape by (simp add: copy_body_def)


section \<open>A copy that overlaps\<close>

lemma move_append: "move xs d s (ks @ [k]) = (move xs d s ks)[d + k := move xs d s ks ! (s + k)]"
  by (induction ks arbitrary: xs) auto

lemma move_smears:
  "m < length xs \<Longrightarrow> \<forall>j \<le> m. move xs 1 0 [0..<m] ! j = xs ! 0"
proof (induction m)
  case (Suc m)
  then have IH: "\<forall>j \<le> m. move xs 1 0 [0..<m] ! j = xs ! 0" by simp
  have "move xs 1 0 [0..<Suc m] = (move xs 1 0 [0..<m])[Suc m := xs ! 0]"
    using IH by (simp add: move_append)
  then show ?case using IH Suc.prems by (auto simp: nth_list_update le_Suc_eq)
qed simp

definition two_slices :: "byte list \<Rightarrow> store" where
  "two_slices xs = \<lparr>blocks = [xs], views =
     [\<lparr>v_buf = 0, v_off = 0, v_len = length xs - 1\<rparr>, \<lparr>v_buf = 0, v_off = 1, v_len = length xs - 1\<rparr>]\<rparr>"

lemma copy_two_slices:
  assumes "1 < length xs" "length xs \<le> 1000"
  shows "copy typed (two_slices xs) 0 1 None None None
    = Inr (copy_up (two_slices xs) 0 1 0 0 [0..<length xs - 1], int (length xs) - 1)"
proof -
  have "nat (int (length xs) - 1) = length xs - 1" "int (length xs - 1) = int (length xs) - 1" using assms(1) by auto
  then show ?thesis using assms by (auto simp: copy_def Let_def two_slices_def buffer_length_def)
qed

lemma smeared:
  assumes "1 < length xs"
  shows "buffer_bytes (copy_up (two_slices xs) 0 1 0 0 [0..<length xs - 1]) 1 = replicate (length xs - 1) (xs ! 0)"
proof -
  let ?s = "copy_up (two_slices xs) 0 1 0 0 [0..<length xs - 1]"
  have "block_of ?s 1 = move xs 1 0 [0..<length xs - 1]"
    using copy_up_blocks(1) [of "two_slices xs" 1 0 0 0] by (simp add: two_slices_def block_of_def)
  moreover have "views ?s = views (two_slices xs)" using copy_up_shape by (simp add: same_shape_def)
  ultimately have "buffer_bytes ?s 1 = take (length xs - 1) (drop 1 (move xs 1 0 [0..<length xs - 1]))"
    by (simp add: buffer_bytes_def two_slices_def)
  also have "\<dots> = replicate (length xs - 1) (xs ! 0)"
    by (rule nth_equalityI) (use move_smears [of "length xs - 1" xs] assms in auto)
  finally show ?thesis .
qed

section \<open>Slices\<close>

text \<open>A position given to \<open>slice\<close>: a 32 bit integer, from the end if negative, and not outside the buffer.\<close>

definition slice_position :: "nat \<Rightarrow> int \<Rightarrow> nat" where
  "slice_position r x = (let x = ToInt32 x in nat (min (int r) (if x < 0 then int r + x else x)))"

lemma clamp_position: "clamp (int r) x = int (slice_position r x)"
  by (auto simp: clamp_def slice_position_def Let_def)

lemma slice_shape:
  assumes "i = (case e of None \<Rightarrow> 0 | Some x \<Rightarrow> slice_position (v_len (views s ! a)) x)"
    and "j = (case t of None \<Rightarrow> v_len (views s ! a) | Some x \<Rightarrow> slice_position (v_len (views s ! a)) x)"
  shows "slice typed s a e t =
      (if typed then (s\<lparr>views := views s @ [(views s ! a)\<lparr>v_off := v_off (views s ! a) + i, v_len := j - i\<rparr>]\<rparr>, length (views s))
       else new_buffer s (map (\<lambda>k. read_at s a (k + i)) [0..<j - i]))
    \<and> i + (j - i) \<le> v_len (views s ! a)"
proof -
  have i: "(case e of None \<Rightarrow> 0 | Some x \<Rightarrow> clamp (buffer_length s a) x) = int i"
    using assms(1) by (auto simp: buffer_length_def clamp_position split: option.splits)
  have j: "(case t of None \<Rightarrow> buffer_length s a | Some x \<Rightarrow> clamp (buffer_length s a) x) = int j"
    using assms(2) by (auto simp: buffer_length_def clamp_position split: option.splits)
  have le: "i \<le> v_len (views s ! a)" "j \<le> v_len (views s ! a)"
    using assms by (auto simp: slice_position_def Let_def split: option.splits)
  have "nat ((if int j < int i then int i else int j) - int i) = j - i" by auto
  then show ?thesis unfolding slice_def Let_def i j using le by auto
qed

lemma read_window:
  assumes "view_ok s (views s ! a)" "i + k \<le> v_len (views s ! a)"
  shows "map (\<lambda>j. read_at s a (j + i)) [0..<k] = take k (drop i (buffer_bytes s a))"
  using assms by (intro nth_equalityI) (auto simp: read_at_def buffer_bytes_def block_of_def view_ok_def add.commute add.left_commute)

lemma slice_ok:
  assumes "store_ok s" "a < length (views s)" "i + k \<le> v_len (views s ! a)"
  shows "store_ok (s\<lparr>views := views s @ [(views s ! a)\<lparr>v_off := v_off (views s ! a) + i, v_len := k\<rparr>]\<rparr>)"
  using store_okD [OF assms(1,2)] assms(1,3) by (auto simp: store_ok_def view_ok_def)

lemma window_bytes:
  assumes "i + k \<le> v_len (views u ! a)" "b < length (views u)"
    and "views u ! b = (views u ! a)\<lparr>v_off := v_off (views u ! a) + i, v_len := k\<rparr>"
  shows "buffer_bytes u b = take k (drop i (buffer_bytes u a))"
  using assms by (simp add: buffer_bytes_def block_of_def drop_take add.commute min_def)

section \<open>Searching 16 bit units\<close>

lemma units16_append: "even (length p) \<Longrightarrow> units16 (p @ t) = units16 p @ units16 t"
  by (induction p rule: units16.induct) auto

lemma length_units16: "length (units16 p) = length p div 2"
  by (induction p rule: units16.induct) auto

lemma search_last_unit:
  assumes "u \<notin> set us"
  shows "search_up (us @ [u]) [u] 0 (-1) = int (length us)"
    and "search_down (us @ [u]) [u] (int (length us)) = int (length us)"
proof -
  let ?r = "search_up (us @ [u]) [u] 0 (-1)"
  have "first_from (us @ [u]) [u] 0 ?r"
    using search_up_first [of "us @ [u]" "[u]" 0 "-1"] by (simp add: candidate_def start_def)
  moreover have occ: "occurs (us @ [u]) [u] j \<longleftrightarrow> j = length us" for j
    using assms by (auto simp: occurs_def nth_append in_set_conv_nth)
  ultimately show "?r = int (length us)"
    by (auto simp: first_from_def split: if_splits)
  have "matches_at (us @ [u]) [u] (length us)"
    using occ [of "length us"] matches_at_occurs [of "length us" "[u]" "us @ [u]"] by simp
  then show "search_down (us @ [u]) [u] (int (length us)) = int (length us)"
    by (simp add: search_down.simps [of _ _ "int (length us)"])
qed

section \<open>Properties\<close>

text \<open>
  C19: \<open>copy\<close> is a memory move. Between two buffers on different memory, and within one buffer object
  however its ranges overlap, the target's bytes afterwards are its old bytes with the bytes of the
  source's old content, from the source offset, put at the target offset, as many as the arguments ask for
  and both buffers have room for (\<open>copy_count\<close>). That number is returned; if the source range ends at 0 and starts
  behind it, nothing is moved and the number is negative. Other memory and the views are unchanged.\<close>

theorem copy_moves:
  assumes "store_ok s" "this < length (views s)" "e < length (views s)"
    and "this = e \<or> v_buf (views s ! this) \<noteq> v_buf (views s ! e)"
    and "copy typed s this e t n r = Inr (s', k)"
  shows "k = copy_count s this e t n r
    \<and> buffer_bytes s' e = put (buffer_bytes s e) (copy_target s e t)
        (take (nat k) (drop (copy_source n) (buffer_bytes s this)))
    \<and> views s' = views s \<and> (\<forall>j. j \<noteq> v_buf (views s ! e) \<longrightarrow> blocks s' ! j = blocks s ! j) \<and> store_ok s'"
  using copy_reports [OF assms(5)] copy_runs [OF assms(5)] copy_body_moves [OF assms(1-4)] copy_body_frame [of _ s e]
    same_shape_ok [OF copy_body_shape assms(1)] copy_body_shape [of s] assms(1)
  by (auto simp: same_shape_def)

definition one_buffer :: "byte list \<Rightarrow> store" where
  "one_buffer xs = \<lparr>blocks = [xs], views = [\<lparr>v_buf = 0, v_off = 0, v_len = length xs\<rparr>]\<rparr>"

theorem copy_moves_witness:
  "\<exists>s'. copy True (one_buffer [1, 2, 3, 4]) 0 0 (Some 1) (Some 0) (Some 3) = Inr (s', 3)
     \<and> buffer_bytes s' 0 = put [1, 2, 3, 4] 1 [1, 2, 3] \<and> store_ok s'"
proof -
  have ok: "store_ok (one_buffer [1, 2, 3, 4])" by (simp add: store_ok_def view_ok_def one_buffer_def)
  obtain s' where c: "copy True (one_buffer [1, 2, 3, 4]) 0 0 (Some 1) (Some 0) (Some 3) = Inr (s', 3)"
    by (simp add: copy_def Let_def one_buffer_def buffer_length_def)
  then show ?thesis using copy_moves [OF ok _ _ _ c]
    by (auto simp: one_buffer_def buffer_bytes_def block_of_def copy_target_def copy_source_def buffer_length_def numeral_eq_Suc)
qed

text \<open>
  Two different objects on the same memory are not recognised: copying a slice to the slice one
  byte further on runs upwards and repeats the first byte over the whole target.\<close>

lemma overlapping_slices_smear:
  assumes "1 < length xs" "length xs \<le> 1000"
  shows "\<exists>s'. copy typed (two_slices xs) 0 1 None None None = Inr (s', int (length xs) - 1)
    \<and> buffer_bytes s' 1 = replicate (length xs - 1) (xs ! 0)"
  using copy_two_slices [OF assms] smeared [OF assms(1)] by blast

lemma overlapping_slices_smear_witness:
  "\<exists>s'. copy True (two_slices [1, 2, 3, 4]) 0 1 None None None = Inr (s', int (length [1, 2, 3, 4 :: byte]) - 1)
    \<and> buffer_bytes s' 1 = replicate (length [1, 2, 3, 4 :: byte] - 1) ([1, 2, 3, 4] ! 0)"
  by (rule overlapping_slices_smear) simp_all

text \<open>
  C25: the bytes of a slice are those of its parent from the start position to the end position, each a 32 bit integer that
  counts from the end if it is negative and is clamped to the buffer, and none if the end is before the
  start. With typed arrays the slice is a window: this stays so whatever is written later through either object. Without
  them it is a copy in new memory. Existing memory is unchanged and every view stays within its memory.\<close>

theorem slice_is_window:
  assumes "store_ok s" "a < length (views s)" "slice typed s a e t = (s', b)"
    and "i = (case e of None \<Rightarrow> 0 | Some x \<Rightarrow> slice_position (v_len (views s ! a)) x)"
    and "j = (case t of None \<Rightarrow> v_len (views s ! a) | Some x \<Rightarrow> slice_position (v_len (views s ! a)) x)"
  shows "store_ok s' \<and> take (length (blocks s)) (blocks s') = blocks s
    \<and> buffer_bytes s' b = take (j - i) (drop i (buffer_bytes s a))
    \<and> (if typed then \<forall>u. views u = views s' \<longrightarrow> buffer_bytes u b = take (j - i) (drop i (buffer_bytes u a))
       else v_buf (views s' ! b) = length (blocks s))"
proof (cases typed)
  case True
  have sh: "s' = s\<lparr>views := views s @ [(views s ! a)\<lparr>v_off := v_off (views s ! a) + i, v_len := j - i\<rparr>]\<rparr>" "b = length (views s)"
    "i + (j - i) \<le> v_len (views s ! a)"
    using slice_shape [OF assms(4,5), of typed] assms(3) True by auto
  have w: "buffer_bytes u b = take (j - i) (drop i (buffer_bytes u a))" if "views u = views s'" for u
    by (rule window_bytes) (use that sh assms(2) in \<open>simp_all add: nth_append\<close>)
  have "buffer_bytes s' a = buffer_bytes s a" using sh assms(2) by (simp add: buffer_bytes_def block_of_def nth_append)
  then have "buffer_bytes s' b = take (j - i) (drop i (buffer_bytes s a))" using w [OF refl] by simp
  moreover have "store_ok s'" using slice_ok [OF assms(1,2) sh(3)] sh(1) by simp
  ultimately show ?thesis using w True sh(1) by simp
next
  case False
  let ?bs = "map (\<lambda>k. read_at s a (k + i)) [0..<j - i]"
  have sh: "(s', b) = new_buffer s ?bs" "i + (j - i) \<le> v_len (views s ! a)"
    using slice_shape [OF assms(4,5), of typed] assms(3) False by auto
  have nb: "buffer_bytes (fst (new_buffer s bs)) (snd (new_buffer s bs)) = bs" for bs
    by (simp add: new_buffer_def buffer_bytes_def block_of_def)
  have "?bs = take (j - i) (drop i (buffer_bytes s a))" using read_window [OF store_okD [OF assms(1,2)] sh(2)] .
  then have "buffer_bytes s' b = take (j - i) (drop i (buffer_bytes s a))" using nb [of ?bs] unfolding sh(1) [symmetric] by simp
  moreover have "store_ok s'" using sh(1) assms(1) by (auto simp: new_buffer_def store_ok_def view_ok_def nth_append)
  moreover have "take (length (blocks s)) (blocks s') = blocks s" "v_buf (views s' ! b) = length (blocks s)"
    using sh(1) by (simp_all add: new_buffer_def)
  ultimately show ?thesis using False by simp
qed

theorem slice_is_window_witness:
  "\<exists>s' b. slice True (one_buffer [1, 2, 3, 4, 5]) 0 (Some (-4)) (Some 3) = (s', b) \<and> store_ok s' \<and> buffer_bytes s' b = [2, 3]"
proof -
  obtain s' b where sl: "slice True (one_buffer [1, 2, 3, 4, 5]) 0 (Some (-4)) (Some 3) = (s', b)" by fastforce
  have "store_ok (one_buffer [1, 2, 3, 4, 5])" by (simp add: store_ok_def view_ok_def one_buffer_def)
  from slice_is_window [OF this _ sl refl refl] have "store_ok s'" "buffer_bytes s' b = [2, 3]"
    by (simp_all add: one_buffer_def slice_position_def ToInt32_def buffer_bytes_def block_of_def numeral_eq_Suc)
  then show ?thesis using sl by blast
qed

text \<open>
  \<open>compare\<close> is the lexicographic order on bytes, with 0 exactly for equal buffers, and changing the
  arguments changes the sign.\<close>

lemma compare_lexicographic:
  "bufferCompare e t = (if (e, t) \<in> lexord {(x, y). x < y} then -1 else if e = t then 0 else 1)
   \<and> bufferCompare t e = - bufferCompare e t \<and> (equals e t \<longleftrightarrow> e = t)"
proof -
  let ?r = "{(x, y). x < (y :: byte)}"
  have c: "bufferCompare e t = (if (e, t) \<in> lexord ?r then -1 else if e = t then 0 else 1)" for e t
    unfolding bufferCompare_def by (rule sign_compare) simp
  have tri: "(e, t) \<in> lexord ?r \<or> e = t \<or> (t, e) \<in> lexord ?r" by (rule lexord_linear) auto
  have irr: "(x, x) \<notin> lexord ?r" for x by (rule lexord_irreflexive) auto
  have "trans ?r" by (auto simp: trans_def)
  then have "\<not> ((e, t) \<in> lexord ?r \<and> (t, e) \<in> lexord ?r)" using irr lexord_trans by blast
  then show ?thesis unfolding equals_def c using tri irr by auto
qed

text \<open>\<open>concat\<close> without a length joins its buffers, as long as the result can be allocated.\<close>

lemma concat_joins:
  assumes "int (length (concat bs)) < (if typed then 2147483647 else 1073741823)"
  shows "bufferConcat typed bs None = Inr (concat bs)"
proof (cases "bs = []")
  case False
  let ?n = "length (concat bs)"
  have "sum_list (map length bs) = ?n" by (simp add: length_concat)
  moreover have "concat_loop bs (replicate ?n 0) 0 = concat bs" using concat_loop_eq [of "[]" bs ?n] by simp
  ultimately show ?thesis using False assms by (auto simp: bufferConcat_def Let_def)
qed (simp add: bufferConcat_def)

text \<open>
  \<open>indexOf\<close> returns the least position, from the start offset on, at which the searched bytes occur,
  and \<open>-1\<close> exactly when they occur nowhere from there on.\<close>

lemma indexOf_first:
  assumes "t \<noteq> []" "e \<noteq> []" "start_offset (length e) n True = Some i"
  shows "first_from e t i (indexOf e t n False)"
proof -
  have "0 \<le> i" using assms(3) by (auto simp: start_offset_def Let_def split: if_splits option.splits)
  then have "first_from e t i (search_up e t i (-1))"
    using search_up_first [of e t i "-1"] assms(1) by (simp add: candidate_def start_def)
  then show ?thesis using assms by (simp add: indexOf_def bidirectionalIndexOf_def arrayIndexOf_def)
qed

lemma indexOf_first_witness:
  "first_from [1, 1, 2, 1, 2 :: byte] [1, 2] 0 (indexOf [1, 1, 2, 1, 2] [1, 2] None False)"
  by (rule indexOf_first) (simp_all add: start_offset_def)

text \<open>
  Searching backwards for UTF-16 text returns the position counted in units, half of the byte
  position that the forward search returns for the same and only occurrence.\<close>

lemma lastIndexOf_ucs2_halves:
  assumes "even (length p)" "length t = 2" "\<forall>u \<in> set (units16 p). u \<noteq> hd (units16 t)"
  shows "indexOf (p @ t) t None True = int (length p) \<and> lastIndexOf (p @ t) t None True = int (length p) div 2"
proof -
  obtain x y where t: "t = [x, y]" using assms(2) by (auto simp: numeral_2_eq_2 length_Suc_conv)
  let ?u = "256 * unat x + unat y" and ?us = "units16 p"
  have u: "units16 (p @ t) = ?us @ [?u]" "units16 t = [?u]" using units16_append [OF assms(1)] t by simp_all
  have len: "length p = 2 * length ?us" using assms(1) by (simp add: length_units16)
  have nu: "?u \<notin> set ?us" using assms(3) t by auto
  show ?thesis
    using search_last_unit [OF nu] u len t
    by (simp add: indexOf_def lastIndexOf_def bidirectionalIndexOf_def start_offset_def arrayIndexOf_def Let_def)
qed

definition sum_option :: "'a + 'b \<Rightarrow> 'b option" where
  "sum_option x = (case x of Inl _ \<Rightarrow> None | Inr y \<Rightarrow> Some y)"

text \<open>The byte swaps fail exactly for lengths that are no multiple of their width, and are their own inverse.\<close>

lemma swaps_involutive:
  "Option.bind (sum_option (swap16 b)) (sum_option \<circ> swap16) = (if 2 dvd length b then Some b else None)
   \<and> Option.bind (sum_option (swap32 b)) (sum_option \<circ> swap32) = (if 4 dvd length b then Some b else None)
   \<and> Option.bind (sum_option (swap64 b)) (sum_option \<circ> swap64) = (if 8 dvd length b then Some b else None)"
  by (auto simp: swaps_reverse_groups sum_option_def map_groups_rev_twice)

lemma fill_loop_put:
  assumes "t \<le> n" "n \<le> length b" "a \<noteq> []"
  shows "fill_loop b a t n = put b t (map (\<lambda>i. a ! (i mod length a)) [0..<n - t])"
proof -
  have "foldl (\<lambda>b i. b[i + t := (if a = [] then 0 else a ! (i mod length a))]) b [0..<k]
      = put b t (map (\<lambda>i. a ! (i mod length a)) [0..<k])" if "t + k \<le> length b" for k
    using that
  proof (induction k)
    case (Suc k)
    then show ?case using assms(3)
      by (intro nth_equalityI) (auto simp: nth_put nth_list_update nth_append less_Suc_eq)
  qed simp
  then show ?thesis using assms unfolding fill_loop_def by simp
qed

text \<open>String patterns that are taken as a whole: not of one character, in a known encoding.\<close>

definition whole_pattern :: "fill_value \<Rightarrow> jsstring option \<Rightarrow> bool" where
  "whole_pattern e r = (case e of FillStr s \<Rightarrow> length s \<noteq> 1 \<and> (r = None \<or> isEncoding (the r)) | _ \<Rightarrow> True)"

lemma fill_args_numeric:
  assumes "whole_pattern e r"
  obtains e' where "fill_args b e (Num t) (Num n) r = Inr (e', Some t, Some n, r)"
    "fill_pattern typed e' r = fill_pattern typed e r"
  using assms
  by (cases e) (auto simp: whole_pattern_def fill_args_def num_arg_def end_arg_def fill_pattern_def Let_def)

lemma fill_hex_pattern:
  "fill_pattern typed (FillStr (lit ''ff'')) (Some (lit ''hex'')) = Inr [0xEF, 0xBF, 0xBD]"
proof -
  have "fill_pattern True (FillStr (lit ''ff'')) (Some (lit ''hex'')) = Inr [0xEF, 0xBF, 0xBD]" by code_simp
  moreover have "fill_pattern False (FillStr (lit ''ff'')) (Some (lit ''hex'')) = Inr [0xEF, 0xBF, 0xBD]" by code_simp
  ultimately show ?thesis by (cases typed) simp_all
qed




end
