(* ===== verification/Redux_Store.thy ===== *)
theory Redux_Store
  imports JS_Prelude "HOL-Library.Multiset"
begin

text \<open>
  The Redux store of Swagger UI (\<open>createStore\<close>): one state, a reducer, and listeners that are called after
  every dispatch and may themselves subscribe, unsubscribe and dispatch. The two listener arrays of the
  code can be one and the same object, so arrays are kept by address; \<open>===\<close> is equality of addresses.

  Listeners and reducers are user code. The store's operations are functions on the state; how they
  interleave with the loops of the dispatches that are under way is the step relation \<open>store_step\<close> on a
  state and a stack of frames, the innermost first. A dispatch that is refused throws to its caller. A
  reducer may throw, and so may a listener; an exception leaves the frames up to the listener that
  catches it, or all of them.
\<close>

section \<open>State\<close>

record 'p action =
  a_plain :: bool
  a_type :: "jsstring option"
  a_payload :: 'p

text \<open>\<open>None\<close> as a state is \<open>undefined\<close>. \<open>subs\<close> has the closures that \<open>subscribe\<close> returned: listener and flag.\<close>

record ('s, 'p, 'l) redux =
  currentReducer :: "'s option \<Rightarrow> 'p action \<Rightarrow> 's option result"
  currentState :: "'s option"
  arrays :: "'l list list"
  currentListeners :: nat
  nextListeners :: nat
  isDispatching :: bool
  subs :: "('l \<times> bool) list"

definition next_array :: "('s, 'p, 'l) redux \<Rightarrow> 'l list" where
  "next_array s = arrays s ! nextListeners s"

section \<open>Operations\<close>

definition ensureCanMutateNextListeners :: "('s, 'p, 'l) redux \<Rightarrow> ('s, 'p, 'l) redux" where
  "ensureCanMutateNextListeners s =
     (if nextListeners s = currentListeners s
      then s\<lparr>arrays := arrays s @ [arrays s ! currentListeners s], nextListeners := length (arrays s)\<rparr>
      else s)"

definition subscribe :: "('s, 'p, 'l) redux \<Rightarrow> 'l \<Rightarrow> ('s, 'p, 'l) redux \<times> nat" where
  "subscribe s e =
     (let s = ensureCanMutateNextListeners s
      in (s\<lparr>arrays := (arrays s)[nextListeners s := next_array s @ [e]], subs := subs s @ [(e, True)]\<rparr>,
          length (subs s)))"

text \<open>\<open>f.splice(f.indexOf(e), 1)\<close>: with \<open>-1\<close> the last element goes.\<close>

definition splice_at :: "'l list \<Rightarrow> nat option \<Rightarrow> 'l list" where
  "splice_at xs n = (case n of Some i \<Rightarrow> take i xs @ drop (Suc i) xs | None \<Rightarrow> butlast xs)"

definition unsubscribe :: "('s, 'p, 'l) redux \<Rightarrow> nat \<Rightarrow> ('s, 'p, 'l) redux" where
  "unsubscribe s i =
     (let (e, t) = subs s ! i
      in if t
         then (let s = ensureCanMutateNextListeners (s\<lparr>subs := (subs s)[i := (e, False)]\<rparr>)
               in s\<lparr>arrays := (arrays s)[nextListeners s := splice_at (next_array s) (index_of e (next_array s))]\<rparr>)
         else s)"

text \<open>\<open>dispatch\<close> up to the call of the reducer, and from its return to the listeners' loop.\<close>

definition dispatch_enter :: "('s, 'p, 'l) redux \<Rightarrow> 'p action \<Rightarrow> ('s, 'p, 'l) redux result" where
  "dispatch_enter s e =
     (if \<not> a_plain e then Inl (GenericError ''Actions must be plain objects'')
      else if a_type e = None then Inl (GenericError ''Actions may not have an undefined type property'')
      else if isDispatching s then Inl (GenericError ''Reducers may not dispatch actions.'')
      else Inr (s\<lparr>isDispatching := True\<rparr>))"

definition dispatch_reduced :: "('s, 'p, 'l) redux \<Rightarrow> 's option \<Rightarrow> ('s, 'p, 'l) redux" where
  "dispatch_reduced s l = s\<lparr>currentState := l, isDispatching := False, currentListeners := nextListeners s\<rparr>"

definition dispatch_failed :: "('s, 'p, 'l) redux \<Rightarrow> ('s, 'p, 'l) redux" where
  "dispatch_failed s = s\<lparr>isDispatching := False\<rparr>"

definition init_action :: "'p \<Rightarrow> 'p action" where
  "init_action p = \<lparr>a_plain = True, a_type = Some (lit ''@@redux/INIT''), a_payload = p\<rparr>"

definition replaceReducer ::
  "('s, 'p, 'l) redux \<Rightarrow> ('s option \<Rightarrow> 'p action \<Rightarrow> 's option result) \<Rightarrow> ('s, 'p, 'l) redux" where
  "replaceReducer s e = s\<lparr>currentReducer := e\<rparr>"

text \<open>The store before the dispatch of \<open>INIT\<close> with which \<open>createStore\<close> ends.\<close>

definition createStore :: "('s option \<Rightarrow> 'p action \<Rightarrow> 's option result) \<Rightarrow> 's option \<Rightarrow> ('s, 'p, 'l) redux" where
  "createStore t n = \<lparr>currentReducer = t, currentState = n, arrays = [[]], currentListeners = 0, nextListeners = 0,
     isDispatching = False, subs = []\<rparr>"

section \<open>Runs\<close>

text \<open>
  A dispatch in its reducer, the one that was current when it was called, or at an index of the listeners' array that its
  loop goes through.
\<close>

datatype ('s, 'p) frame = Reducing "'s option \<Rightarrow> 'p action \<Rightarrow> 's option result" "'p action" | Notifying nat nat

type_synonym ('s, 'p, 'l) config = "('s, 'p, 'l) redux \<times> ('s, 'p) frame list"

text \<open>
  What a step shows: a reducer's return, a call of a listener by the dispatch with so many frames below it, the end of the
  loop of such a dispatch, an exception that leaves so many frames, a new reducer.
\<close>

datatype ('p, 'l) event = Reduced "'p action" | Called nat 'l | Finished nat | Aborted nat | Replaced | Quiet

inductive store_step :: "('s, 'p, 'l) config \<Rightarrow> ('p, 'l) event \<Rightarrow> ('s, 'p, 'l) config \<Rightarrow> bool" where
  Enter: "dispatch_enter s a = Inr s' \<Longrightarrow> store_step (s, fs) Quiet (s', Reducing (currentReducer s) a # fs)"
| Refuse: "dispatch_enter s a = Inl err \<Longrightarrow> store_step (s, fs) Quiet (s, fs)"
| Reduce: "r (currentState s) a = Inr l \<Longrightarrow>
    store_step (s, Reducing r a # fs) (Reduced a) (dispatch_reduced s l, Notifying (nextListeners s) 0 # fs)"
| Reducer_throws: "r (currentState s) a = Inl err \<Longrightarrow>
    store_step (s, Reducing r a # fs) (Aborted (length (drop k fs))) (dispatch_failed s, drop k fs)"
| Call: "n < length (arrays s ! t) \<Longrightarrow>
    store_step (s, Notifying t n # fs) (Called (length fs) (arrays s ! t ! n)) (s, Notifying t (Suc n) # fs)"
| Listener_throws: "store_step (s, Notifying t n # fs) (Aborted (length (drop k fs))) (s, drop k fs)"
| Return: "\<not> n < length (arrays s ! t) \<Longrightarrow> store_step (s, Notifying t n # fs) (Finished (length fs)) (s, fs)"
| Subscribe: "subscribe s e = (s', i) \<Longrightarrow> store_step (s, fs) Quiet (s', fs)"
| Unsubscribe: "i < length (subs s) \<Longrightarrow> store_step (s, fs) Quiet (unsubscribe s i, fs)"
| Replace: "store_step (s, fs) Replaced (replaceReducer s r, fs)"

inductive store_run :: "('s, 'p, 'l) config \<Rightarrow> ('p, 'l) event list \<Rightarrow> ('s, 'p, 'l) config \<Rightarrow> bool" where
  Stop: "store_run c [] c"
| Step: "store_run c es c' \<Longrightarrow> store_step c' e c'' \<Longrightarrow> store_run c (es @ [e]) c''"

section \<open>The invariant\<close>

inductive_cases store_stepE: "store_step c ev c'"

text \<open>An array is frozen when no operation will write to it again.\<close>

definition frozen :: "('s, 'p, 'l) redux \<Rightarrow> nat \<Rightarrow> bool" where
  "frozen s t \<longleftrightarrow> t < length (arrays s) \<and> (t = nextListeners s \<longrightarrow> nextListeners s = currentListeners s)"

definition loop_ok :: "('s, 'p, 'l) redux \<Rightarrow> ('s, 'p) frame \<Rightarrow> bool" where
  "loop_ok s f = (case f of Reducing _ _ \<Rightarrow> False | Notifying t n \<Rightarrow> frozen s t \<and> n \<le> length (arrays s ! t))"

definition frames_ok :: "('s, 'p, 'l) redux \<Rightarrow> ('s, 'p) frame list \<Rightarrow> bool" where
  "frames_ok s fs =
     (if isDispatching s then (case fs of Reducing r a # gs \<Rightarrow> list_all (loop_ok s) gs | _ \<Rightarrow> False)
      else list_all (loop_ok s) fs)"

definition active :: "('s, 'p, 'l) redux \<Rightarrow> 'l list" where
  "active s = map fst (filter snd (subs s))"

definition redux_ok :: "('s, 'p, 'l) redux \<Rightarrow> bool" where
  "redux_ok s \<longleftrightarrow> currentListeners s < length (arrays s) \<and> nextListeners s < length (arrays s)
     \<and> mset (next_array s) = mset (active s)"

text \<open>What every operation keeps: frozen arrays stay frozen and unchanged.\<close>

definition keeps :: "('s, 'p, 'l) redux \<Rightarrow> ('s, 'p, 'l) redux \<Rightarrow> bool" where
  "keeps s s' \<longleftrightarrow> (\<forall>t. frozen s t \<longrightarrow> frozen s' t \<and> arrays s' ! t = arrays s ! t)"

lemma keeps_loop: "keeps s s' \<Longrightarrow> loop_ok s f \<Longrightarrow> loop_ok s' f"
  by (auto simp: keeps_def loop_ok_def split: frame.splits)

lemma keeps_loops: "keeps s s' \<Longrightarrow> list_all (loop_ok s) fs \<Longrightarrow> list_all (loop_ok s') fs"
  by (auto simp: list_all_iff dest: keeps_loop)

lemma keeps_frames: "keeps s s' \<Longrightarrow> isDispatching s' = isDispatching s \<Longrightarrow> frames_ok s fs \<Longrightarrow> frames_ok s' fs"
  by (auto simp: frames_ok_def dest: keeps_loops keeps_loop split: list.splits frame.splits if_splits)

lemma keeps_refl [simp]: "keeps s s"
  by (simp add: keeps_def)

lemma ensure_copy:
  assumes "redux_ok s" "nextListeners s = currentListeners s"
  defines "s' \<equiv> s\<lparr>arrays := arrays s @ [arrays s ! currentListeners s], nextListeners := length (arrays s)\<rparr>"
  shows "redux_ok s'" "keeps s s'" "nextListeners s' \<noteq> currentListeners s'" "next_array s' = next_array s"
proof -
  show n: "next_array s' = next_array s" by (simp add: next_array_def s'_def assms(2))
  show "redux_ok s'" unfolding redux_ok_def n using assms(1) by (simp add: redux_ok_def active_def s'_def)
  show "keeps s s'" using assms(1) by (auto simp: keeps_def frozen_def nth_append redux_ok_def s'_def)
  show "nextListeners s' \<noteq> currentListeners s'" using assms(1) by (simp add: redux_ok_def s'_def)
qed

lemma ensure_ok:
  fixes s :: "('s, 'p, 'l) redux"
  assumes "redux_ok s"
  shows "redux_ok (ensureCanMutateNextListeners s)" "keeps s (ensureCanMutateNextListeners s)"
    "nextListeners (ensureCanMutateNextListeners s) \<noteq> currentListeners (ensureCanMutateNextListeners s)"
    "next_array (ensureCanMutateNextListeners s) = next_array s"
    "subs (ensureCanMutateNextListeners s) = subs s" "isDispatching (ensureCanMutateNextListeners s) = isDispatching s"
  using ensure_copy [OF assms] assms unfolding ensureCanMutateNextListeners_def by auto

text \<open>Writing to the next array when it is not the current one.\<close>

lemma write_next:
  assumes "redux_ok s" "nextListeners s \<noteq> currentListeners s" "mset xs = mset (map fst (filter snd us))"
  shows "redux_ok (s\<lparr>arrays := (arrays s)[nextListeners s := xs], subs := us\<rparr>)"
    and "keeps s (s\<lparr>arrays := (arrays s)[nextListeners s := xs], subs := us\<rparr>)"
  using assms by (auto simp: redux_ok_def keeps_def frozen_def next_array_def active_def)

lemma subscribe_ok:
  assumes "redux_ok s" "subscribe s e = (s', i)"
  shows "redux_ok s' \<and> keeps s s' \<and> isDispatching s' = isDispatching s"
proof -
  let ?u = "ensureCanMutateNextListeners s"
  note u = ensure_ok [OF assms(1)]
  have "mset (next_array ?u @ [e]) = mset (map fst (filter snd (subs ?u @ [(e, True)])))"
    using u(1) by (simp add: redux_ok_def active_def)
  note w = write_next [OF u(1,3) this]
  have s': "s' = ?u\<lparr>arrays := (arrays ?u)[nextListeners ?u := next_array ?u @ [e]], subs := subs ?u @ [(e, True)]\<rparr>"
    using assms(2) by (simp add: subscribe_def Let_def)
  show ?thesis using w u(2,6) unfolding s' by (auto simp: keeps_def)
qed

lemma splice_present: "e \<in> set xs \<Longrightarrow> mset (splice_at xs (index_of e xs)) = mset xs - {#e#}"
proof (induction xs)
  case (Cons x xs)
  then show ?case by (cases "index_of e xs") (auto simp: splice_at_def)
qed simp

lemma deactivate:
  assumes "i < length us" "us ! i = (e, True)"
  shows "mset (map fst (filter snd us)) = add_mset e (mset (map fst (filter snd (us[i := (e, False)]))))"
  using assms
proof (induction us arbitrary: i)
  case (Cons u us)
  then show ?case by (cases i) auto
qed simp

lemma unsubscribe_ok:
  assumes "redux_ok s" "i < length (subs s)"
  shows "redux_ok (unsubscribe s i) \<and> keeps s (unsubscribe s i) \<and> isDispatching (unsubscribe s i) = isDispatching s"
proof -
  obtain e t where et: "subs s ! i = (e, t)" by (cases "subs s ! i")
  show ?thesis
  proof (cases t)
    case True
    let ?us = "(subs s)[i := (e, False)]" and ?v = "ensureCanMutateNextListeners s"
    note v = ensure_ok [OF assms(1)]
    have same: "ensureCanMutateNextListeners (s\<lparr>subs := ?us\<rparr>) = ?v\<lparr>subs := ?us\<rparr>"
      by (simp add: ensureCanMutateNextListeners_def)
    have m: "mset (next_array ?v) = add_mset e (mset (map fst (filter snd ?us)))"
      using v(1,5) deactivate [OF assms(2)] et True by (simp add: redux_ok_def active_def)
    then have "e \<in> set (next_array ?v)" by (metis set_mset_mset union_single_eq_member)
    then have "mset (splice_at (next_array ?v) (index_of e (next_array ?v))) = mset (map fst (filter snd ?us))"
      using m by (simp add: splice_present)
    note w = write_next [OF v(1,3) this]
    have "unsubscribe s i = ?v\<lparr>arrays := (arrays ?v)[nextListeners ?v := splice_at (next_array ?v) (index_of e (next_array ?v))], subs := ?us\<rparr>"
      using et True by (simp add: unsubscribe_def Let_def same next_array_def)
    then show ?thesis using w v(2,6) by (auto simp: keeps_def)
  qed (use et assms in \<open>simp add: unsubscribe_def\<close>)
qed

lemma list_all_drop: "list_all P xs \<Longrightarrow> list_all P (drop k xs)"
  by (auto simp: list_all_iff dest: in_set_dropD)

definition config_ok :: "('s, 'p, 'l) config \<Rightarrow> bool" where
  "config_ok c \<longleftrightarrow> redux_ok (fst c) \<and> frames_ok (fst c) (snd c)"

lemma reduced_keeps: "redux_ok s \<Longrightarrow> redux_ok (dispatch_reduced s l) \<and> keeps s (dispatch_reduced s l)"
  by (auto simp: dispatch_reduced_def redux_ok_def next_array_def active_def keeps_def frozen_def)

lemma step_ok: "store_step c ev c' \<Longrightarrow> config_ok c \<Longrightarrow> config_ok c' \<and> keeps (fst c) (fst c')"
proof (induction rule: store_step.induct)
  case (Enter s a s' fs)
  then have s': "s' = s\<lparr>isDispatching := True\<rparr>" "\<not> isDispatching s" by (auto simp: dispatch_enter_def split: if_splits)
  have k: "redux_ok s'" "keeps s s'"
    using Enter.prems s' by (auto simp: config_ok_def redux_ok_def next_array_def active_def keeps_def frozen_def)
  have "list_all (loop_ok s) fs" using Enter.prems s'(2) by (simp add: config_ok_def frames_ok_def)
  then show ?case using k keeps_loops [OF k(2)] s'(1) by (simp add: config_ok_def frames_ok_def)
next
  case (Reduce r s a l fs)
  have r: "redux_ok s" "list_all (loop_ok s) fs" using Reduce.prems
    by (auto simp: config_ok_def frames_ok_def split: if_splits)
  have "loop_ok (dispatch_reduced s l) (Notifying (nextListeners s) 0)"
    using r(1) by (simp add: dispatch_reduced_def loop_ok_def frozen_def redux_ok_def)
  then show ?case using reduced_keeps [OF r(1)] keeps_loops [of s "dispatch_reduced s l", OF _ r(2)]
    by (auto simp: config_ok_def frames_ok_def dispatch_reduced_def)
next
  case (Reducer_throws r s a err fs k)
  have r: "redux_ok s" "list_all (loop_ok s) fs" using Reducer_throws.prems
    by (auto simp: config_ok_def frames_ok_def split: if_splits)
  have k: "redux_ok (dispatch_failed s)" "keeps s (dispatch_failed s)"
    using r(1) by (auto simp: dispatch_failed_def redux_ok_def next_array_def active_def keeps_def frozen_def)
  show ?case using k keeps_loops [OF k(2) list_all_drop [OF r(2)]] by (simp add: config_ok_def frames_ok_def dispatch_failed_def)
next
  case (Call n s t fs)
  then show ?case by (auto simp: config_ok_def frames_ok_def loop_ok_def split: if_splits)
next
  case (Listener_throws s t n fs k)
  then show ?case by (auto simp: config_ok_def frames_ok_def list_all_drop split: if_splits)
next
  case (Subscribe s e s' i fs)
  then show ?case using subscribe_ok [of s e s' i] keeps_frames [of s s' fs] by (simp add: config_ok_def)
next
  case (Unsubscribe i s fs)
  then show ?case using unsubscribe_ok [of s i] keeps_frames [of s "unsubscribe s i" fs] by (simp add: config_ok_def)
next
  case (Replace s fs r)
  have "keeps s (replaceReducer s r)" by (simp add: replaceReducer_def keeps_def frozen_def)
  then show ?case using Replace keeps_frames [of s "replaceReducer s r" fs]
    by (simp add: config_ok_def replaceReducer_def redux_ok_def next_array_def active_def)
qed (auto simp: config_ok_def frames_ok_def split: if_splits)

lemma create_ok: "config_ok (createStore r n, [])"
  by (simp add: config_ok_def createStore_def redux_ok_def next_array_def active_def frames_ok_def)

lemma run_keeps: "store_run c es c' \<Longrightarrow> config_ok c \<Longrightarrow> config_ok c' \<and> keeps (fst c) (fst c')"
proof (induction rule: store_run.induct)
  case (Step c es c' e c'')
  then show ?case using step_ok [OF Step.hyps(2)] by (auto simp: keeps_def)
qed simp

text \<open>The state is what the reducer makes of the actions, as long as it is not replaced.\<close>

fun actions_of :: "('p, 'l) event list \<Rightarrow> 'p action list" where
  "actions_of [] = []"
| "actions_of (Reduced a # es) = a # actions_of es"
| "actions_of (_ # es) = actions_of es"

lemma actions_of_append [simp]: "actions_of (es @ es') = actions_of es @ actions_of es'"
  by (induction es rule: actions_of.induct) auto

fun reduce_all :: "('s option \<Rightarrow> 'p action \<Rightarrow> 's option result) \<Rightarrow> 's option \<Rightarrow> 'p action list \<Rightarrow> 's option result" where
  "reduce_all r s [] = Inr s"
| "reduce_all r s (a # as) = (case r s a of Inl err \<Rightarrow> Inl err | Inr s' \<Rightarrow> reduce_all r s' as)"

lemma reduce_all_snoc:
  "reduce_all r s (as @ [a]) = (case reduce_all r s as of Inl err \<Rightarrow> Inl err | Inr s' \<Rightarrow> r s' a)"
  by (induction as arbitrary: s) (auto split: sum.splits)

text \<open>Without a replacement the reducer in a frame is the current one.\<close>

definition same_reducer :: "('s, 'p, 'l) config \<Rightarrow> bool" where
  "same_reducer c \<longleftrightarrow> (\<forall>r a. Reducing r a \<in> set (snd c) \<longrightarrow> r = currentReducer (fst c))"

lemma quiet_state:
  "store_step c e c' \<Longrightarrow> e \<noteq> Replaced \<Longrightarrow> same_reducer c \<Longrightarrow> same_reducer c' \<and> currentReducer (fst c') = currentReducer (fst c)
   \<and> (case e of Reduced a \<Rightarrow> currentReducer (fst c) (currentState (fst c)) a = Inr (currentState (fst c'))
      | _ \<Rightarrow> currentState (fst c') = currentState (fst c))"
  by (induction rule: store_step.induct)
    (auto simp: same_reducer_def dispatch_enter_def dispatch_reduced_def dispatch_failed_def subscribe_def unsubscribe_def Let_def
      ensureCanMutateNextListeners_def dest: in_set_dropD split: if_splits prod.splits, metis in_set_dropD)

lemma state_history:
  assumes "store_run c es c'" "Replaced \<notin> set es" "same_reducer c"
  shows "same_reducer c' \<and> currentReducer (fst c') = currentReducer (fst c)
    \<and> reduce_all (currentReducer (fst c)) (currentState (fst c)) (actions_of es) = Inr (currentState (fst c'))"
  using assms
proof (induction rule: store_run.induct)
  case (Step c es c' e c'')
  then show ?case using quiet_state [OF Step.hyps(2)] by (cases e) (auto simp: reduce_all_snoc)
qed simp

text \<open>The listeners called by the dispatch with \<open>d\<close> frames below it, in the order of the calls.\<close>

fun calls_at :: "nat \<Rightarrow> ('p, 'l) event list \<Rightarrow> 'l list" where
  "calls_at d [] = []"
| "calls_at d (e # es) = (case e of Called d' l \<Rightarrow> if d' = d then l # calls_at d es else calls_at d es | _ \<Rightarrow> calls_at d es)"

lemma calls_at_append [simp]: "calls_at d (es @ es') = calls_at d es @ calls_at d es'"
  by (induction es) (auto split: event.splits)

text \<open>An event that ends the dispatch with \<open>d\<close> frames below it.\<close>

fun ends :: "nat \<Rightarrow> ('p, 'l) event \<Rightarrow> bool" where
  "ends d (Finished d') \<longleftrightarrow> d' \<le> d"
| "ends d (Aborted d') \<longleftrightarrow> d' \<le> d"
| "ends d e \<longleftrightarrow> False"

text \<open>The loop of one dispatch, with \<open>fs\<close> below it and \<open>gs\<close> of nested dispatches above it, has called the first \<open>n\<close> of \<open>xs\<close>.\<close>

definition in_loop :: "nat \<Rightarrow> 'l list \<Rightarrow> ('s, 'p) frame list \<Rightarrow> 'l list \<Rightarrow> ('s, 'p, 'l) config \<Rightarrow> bool" where
  "in_loop t xs fs ls c \<longleftrightarrow> config_ok c \<and> (\<exists>gs n. snd c = gs @ Notifying t n # fs \<and> arrays (fst c) ! t = xs \<and> ls = take n xs \<and> n \<le> length xs)"

lemma drop_above:
  assumes "g # hs = gs @ f # fs" "length fs < length (drop k hs)"
  shows "\<exists>gs'. drop k hs = gs' @ f # fs"
proof (cases gs)
  case Nil
  then show ?thesis using assms by auto
next
  case (Cons x xs)
  then have "drop k hs = drop k xs @ f # fs" using assms by (cases "k \<le> length xs") auto
  then show ?thesis by blast
qed

lemma in_loop_step:
  assumes "in_loop t xs fs ls c" "store_step c e c'" "\<not> ends (length fs) e"
  shows "in_loop t xs fs (ls @ calls_at (length fs) [e]) c'"
proof -
  obtain gs n where c: "config_ok c" "snd c = gs @ Notifying t n # fs" "arrays (fst c) ! t = xs" "ls = take n xs" "n \<le> length xs"
    using assms(1) by (auto simp: in_loop_def)
  have ok: "config_ok c'" "keeps (fst c) (fst c')" using step_ok [OF assms(2) c(1)] by simp_all
  have "frames_ok (fst c) (snd c)" using c(1) by (simp add: config_ok_def)
  then have "frozen (fst c) t" using c(2) by (cases gs) (auto simp: frames_ok_def loop_ok_def split: if_splits frame.splits)
  then have arr: "arrays (fst c') ! t = xs" using ok(2) c(3) by (simp add: keeps_def)
  have "\<exists>gs m. snd c' = gs @ Notifying t m # fs \<and> ls @ calls_at (length fs) [e] = take m xs \<and> m \<le> length xs"
    using assms(2)
  proof cases
    case (Call m s t' hs)
    then show ?thesis using c by (cases gs) (auto simp: take_Suc_conv_app_nth)
  next
    case (Enter s a s' hs)
    then show ?thesis using c by (intro exI [of _ "Reducing (currentReducer s) a # gs"] exI [of _ n]) simp
  next
    case (Reduce r s a l hs)
    then obtain gs' where "gs = Reducing r a # gs'" using c(2) by (cases gs) auto
    then show ?thesis using Reduce c by (intro exI [of _ "Notifying (nextListeners s) 0 # gs'"] exI [of _ n]) simp
  next
    case (Reducer_throws r s a err hs k)
    then have "length fs < length (drop k hs)" using assms(3) by simp
    then obtain gs' where "drop k hs = gs' @ Notifying t n # fs" using drop_above [of _ hs gs "Notifying t n" fs k] c(2) Reducer_throws by auto
    then show ?thesis using c Reducer_throws by auto
  next
    case (Listener_throws s t' m hs k)
    then have "length fs < length (drop k hs)" using assms(3) by simp
    then obtain gs' where "drop k hs = gs' @ Notifying t n # fs" using drop_above [of _ hs gs "Notifying t n" fs k] c(2) Listener_throws by auto
    then show ?thesis using c Listener_throws by auto
  next
    case (Return m s t' hs)
    then have "length fs < length (drop 0 hs)" using assms(3) by simp
    then obtain gs' where "drop 0 hs = gs' @ Notifying t n # fs" using drop_above [of _ hs gs "Notifying t n" fs 0] c(2) Return by auto
    then show ?thesis using c Return by auto
  qed (use c in auto)
  then show ?thesis using ok(1) arr by (auto simp: in_loop_def)
qed

lemma in_loop_run:
  "store_run c es c' \<Longrightarrow> in_loop t xs fs [] c \<Longrightarrow> \<forall>e \<in> set es. \<not> ends (length fs) e \<Longrightarrow> in_loop t xs fs (calls_at (length fs) es) c'"
proof (induction rule: store_run.induct)
  case (Step c es c' e c'')
  then show ?case using in_loop_step [of t xs fs "calls_at (length fs) es" c' e c''] by simp
qed simp

lemma in_loop_finish:
  assumes "in_loop t xs fs ls c" "store_step c (Finished (length fs)) c'"
  shows "ls = xs"
  using assms(2)
proof cases
  case (Return n s t' hs)
  obtain gs m where c: "snd c = gs @ Notifying t m # fs" "arrays (fst c) ! t = xs" "ls = take m xs"
    using assms(1) by (auto simp: in_loop_def)
  then have "gs = []" using Return by (cases gs) auto
  then show ?thesis using c Return by simp
qed

section \<open>Properties\<close>

text \<open>
  C10: in every state that a store can reach, whatever its listeners and reducers do, the array that the next
  dispatch will use holds the listeners of the active subscriptions, each as often as it is subscribed; a
  dispatch is marked as under way exactly while the innermost frame is a reducer, and no other frame is
  one, so that \<open>dispatch\<close> is refused exactly inside a reducer.\<close>

theorem store_invariant:
  assumes "store_run (createStore r n, []) es (s, fs)"
  shows "mset (next_array s) = mset (active s) \<and> (isDispatching s \<longleftrightarrow> (\<exists>q a gs. fs = Reducing q a # gs))
    \<and> (\<forall>q a. Reducing q a \<notin> set (tl fs))"
proof -
  have ok: "config_ok (s, fs)" using run_keeps [OF assms create_ok] by simp
  then have "mset (next_array s) = mset (active s)" by (simp add: config_ok_def redux_ok_def)
  moreover have "frames_ok s fs" using ok by (simp add: config_ok_def)
  then show ?thesis using calculation
    by (cases fs) (auto simp: frames_ok_def loop_ok_def list_all_iff split: if_splits frame.splits)
qed

lemma create_subscribe:
  "store_run (createStore r n, []) [Quiet] (fst (subscribe (createStore r n) e), [])"
  using store_run.Step [OF store_run.Stop, of "(createStore r n, [])" Quiet "(fst (subscribe (createStore r n) e), [])"]
    store_step.Subscribe [of "createStore r n" e "fst (subscribe (createStore r n) e)" "snd (subscribe (createStore r n) e)" "[]"]
  by simp

theorem store_invariant_witness:
  "mset (next_array (fst (subscribe (createStore (\<lambda>s a. Inr s) (Some (0 :: nat)) :: (nat, nat, nat) redux) 7)))
     = mset (active (fst (subscribe (createStore (\<lambda>s a. Inr s) (Some 0) :: (nat, nat, nat) redux) 7)))"
  by (rule store_invariant [OF create_subscribe, THEN conjunct1])

text \<open>
  C13: a dispatch calls the listeners that are subscribed when its reducer returns, each as often as it is subscribed, in the
  order of the array at that moment. As long as it is under way, whatever the listeners called meanwhile
  subscribe, unsubscribe or dispatch, its calls so far are an initial part of that array; and when its loop
  ends, they are the whole array.\<close>

theorem dispatch_snapshot:
  assumes "store_run (createStore r n, []) es (s, Reducing q a # fs)" "q (currentState s) a = Inr l"
    and "store_run (dispatch_reduced s l, Notifying (nextListeners s) 0 # fs) es' c" "\<forall>e \<in> set es'. \<not> ends (length fs) e"
  shows "mset (next_array s) = mset (active s) \<and> (\<exists>k. calls_at (length fs) es' = take k (next_array s))
    \<and> (\<forall>c'. store_step c (Finished (length fs)) c' \<longrightarrow> calls_at (length fs) es' = next_array s)"
proof -
  let ?c = "(dispatch_reduced s l, Notifying (nextListeners s) 0 # fs)"
  have ok: "config_ok (s, Reducing q a # fs)" using run_keeps [OF assms(1) create_ok] by simp
  have "config_ok ?c" using step_ok [OF store_step.Reduce [of q s a l fs] ok] assms(2) by simp
  then have "in_loop (nextListeners s) (next_array s) fs [] ?c" by (auto simp: in_loop_def dispatch_reduced_def next_array_def)
  then have loop: "in_loop (nextListeners s) (next_array s) fs (calls_at (length fs) es') c" using in_loop_run [OF assms(3)] assms(4) by blast
  moreover have "mset (next_array s) = mset (active s)" using ok by (simp add: config_ok_def redux_ok_def)
  moreover have "\<exists>k. calls_at (length fs) es' = take k (next_array s)" using loop by (auto simp: in_loop_def)
  ultimately show ?thesis using in_loop_finish [OF loop] by blast
qed

theorem dispatch_snapshot_witness:
  "\<exists>s :: (nat, nat, nat) redux. \<exists>es' c c'. store_run (createStore (\<lambda>s a. Inr s) (Some 0), []) [Quiet, Quiet] (s, [Reducing (\<lambda>s a. Inr s) (init_action 0)])
     \<and> store_run (dispatch_reduced s (Some 0), [Notifying (nextListeners s) 0]) es' c \<and> store_step c (Finished 0) c'
     \<and> mset (next_array s) = mset (active s) \<and> calls_at 0 es' = next_array s \<and> next_array s = [7]"
proof -
  let ?c = "createStore (\<lambda>s a. Inr s) (Some 0) :: (nat, nat, nat) redux"
  let ?u = "fst (subscribe ?c 7)" and ?q = "\<lambda>s a. Inr s :: nat option result"
  let ?s = "?u\<lparr>isDispatching := True\<rparr>"
  have u: "arrays ?u = [[], [7]]" "nextListeners ?u = 1" "currentReducer ?u = ?q" "currentState ?u = Some 0"
    by (simp_all add: subscribe_def Let_def ensureCanMutateNextListeners_def createStore_def next_array_def)
  have "dispatch_enter ?u (init_action 0) = Inr ?s"
    by (simp add: dispatch_enter_def init_action_def subscribe_def Let_def ensureCanMutateNextListeners_def createStore_def)
  from store_run.Step [OF create_subscribe store_step.Enter [OF this]]
  have run: "store_run (?c, []) [Quiet, Quiet] (?s, [Reducing ?q (init_action 0)])" using u(3) by simp
  let ?d = "dispatch_reduced ?s (Some 0)"
  have a: "arrays ?d ! 1 = [7]" "nextListeners ?s = 1" using u by (simp_all add: dispatch_reduced_def)
  have call: "store_run (?d, [Notifying (nextListeners ?s) 0]) [Called 0 7] (?d, [Notifying 1 1])"
    using store_run.Step [OF store_run.Stop store_step.Call [of 0 ?d 1 "[]"]] a by simp
  have fin: "store_step (?d, [Notifying 1 1]) (Finished 0) (?d, [])" using store_step.Return [of 1 ?d 1 "[]"] a by simp
  have "mset (next_array ?s) = mset (active ?s) \<and> (\<exists>k. calls_at (length []) [Called 0 7] = take k (next_array ?s))
    \<and> (\<forall>c'. store_step (?d, [Notifying 1 1]) (Finished (length [])) c' \<longrightarrow> calls_at (length []) [Called 0 7] = next_array ?s)"
    using dispatch_snapshot [OF run _ call] u by simp
  then have "mset (next_array ?s) = mset (active ?s)" "calls_at 0 [Called 0 7] = next_array ?s" using fin by auto
  moreover have "next_array ?s = [7]" using u by (simp add: next_array_def)
  ultimately show ?thesis using run call fin by blast
qed

end
