(* ===== verification/Bit_Count.thy ===== *)
theory Bit_Count
  imports JS_Prelude
begin

text \<open>
  \<open>popCount\<close> of immutable.js: the number of set bits of a 32 bit integer, computed by adding fields of
  doubling width. It tells at which index of its packed array a bitmap node keeps the child of a
  hash fragment. The proof follows the fields: bits, pairs, nibbles and bytes as lists of digits.
\<close>

definition popCount :: "u32 \<Rightarrow> nat" where
  "popCount e =
     (let e = e - (signed_drop_bit 1 e AND 1431655765);
          e = (858993459 AND e) + (signed_drop_bit 2 e AND 858993459);
          e = (e + signed_drop_bit 4 e) AND 252645135;
          e = e + signed_drop_bit 8 e
      in unat (127 AND (e + signed_drop_bit 16 e)))"

section \<open>Fields of a word\<close>

fun digits_val :: "nat \<Rightarrow> nat list \<Rightarrow> nat" where
  "digits_val B [] = 0"
| "digits_val B (d # ds) = d + B * digits_val B ds"

fun pair_sums :: "nat list \<Rightarrow> nat list" where
  "pair_sums (a # b # r) = (a + b) # pair_sums r"
| "pair_sums _ = []"

lemma and_field:
  fixes d m x y :: nat
  assumes "d < 2 ^ k" "m < 2 ^ k"
  shows "(d + 2 ^ k * x) AND (m + 2 ^ k * y) = (d AND m) + 2 ^ k * (x AND y)"
proof -
  let ?X = "d + 2 ^ k * x" and ?Y = "m + 2 ^ k * y"
  have tb: "take_bit k ?X = d" "take_bit k ?Y = m" using assms by (simp_all add: take_bit_eq_mod)
  have db: "drop_bit k ?X = x" "drop_bit k ?Y = y" using assms by (simp_all add: drop_bit_eq_div)
  have "?X AND ?Y = take_bit k (?X AND ?Y) + push_bit k (drop_bit k (?X AND ?Y))"
    by (metis add.commute bits_ident)
  then show ?thesis unfolding take_bit_and drop_bit_and tb db by (simp add: push_bit_eq_mult mult.commute)
qed

lemma nat_and_le: "(x AND y) \<le> x" for x y :: nat
  by (simp add: and_nat_def nat_le_iff)

lemma and_low: "(d + 2 ^ k * x) AND (2 ^ k - 1) = d" if "d < 2 ^ k" for d x :: nat
proof -
  have "(d + 2 ^ k * x) AND (2 ^ k - 1) = take_bit k (d + 2 ^ k * x)" by (simp add: take_bit_eq_mask mask_eq_exp_minus_1)
  then show ?thesis using that by (simp add: take_bit_eq_mod)
qed

lemma square: "(2 :: nat) ^ (2 * k) = 2 ^ k * 2 ^ k"
  by (simp add: mult_2 power_add)

definition field_mask :: "nat \<Rightarrow> nat \<Rightarrow> nat" where
  "field_mask k j = digits_val (2 ^ (2 * k)) (replicate j (2 ^ k - 1))"

lemma field_mask_Suc: "field_mask k (Suc j) = (2 ^ k - 1) + 2 ^ (2 * k) * field_mask k j"
  by (simp add: field_mask_def)

lemma field_less: "d < 2 ^ k \<Longrightarrow> c < 2 ^ k \<Longrightarrow> d + 2 ^ k * c < 2 ^ (2 * k)" for d c :: nat
proof -
  assume "d < 2 ^ k" "c < 2 ^ k"
  then have "d + 2 ^ k * c < 2 ^ k * Suc c" by simp
  also have "\<dots> \<le> 2 ^ k * 2 ^ k" using \<open>c < 2 ^ k\<close> by (intro mult_le_mono2) simp
  finally show ?thesis by (simp add: mult_2 power_add)
qed

lemma and_mask_step:
  assumes "d < 2 ^ k" "c < 2 ^ k"
  shows "(d + 2 ^ k * c + 2 ^ (2 * k) * x) AND field_mask k (Suc j) = d + 2 ^ (2 * k) * (x AND field_mask k j)"
proof -
  have "(2 :: nat) ^ k \<le> 2 ^ (2 * k)" by (simp add: power_increasing)
  then have "(2 :: nat) ^ k - 1 < 2 ^ (2 * k)" by (simp add: less_le_trans [OF diff_less])
  then show ?thesis
    using and_field [OF field_less [OF assms], of "2 ^ k - 1" x "field_mask k j"] and_low [OF assms(1), of c]
    by (simp add: field_mask_Suc)
qed

lemma split_low: "x = x mod 2 ^ k + 2 ^ k * (x div 2 ^ k)" for x :: nat by simp

lemma fields_shifted:
  fixes x :: nat
  assumes "a < 2 ^ k" "b < 2 ^ k"
  shows "(a + 2 ^ k * (b + 2 ^ k * x)) div 2 ^ k
    = b + 2 ^ k * (x mod 2 ^ k) + 2 ^ (2 * k) * (x div 2 ^ k)"
proof -
  have "2 ^ k * x = 2 ^ k * (x mod 2 ^ k) + 2 ^ (2 * k) * (x div 2 ^ k)"
    unfolding square mult.assoc distrib_left [symmetric] using split_low [of x k] by simp
  moreover have "(a + 2 ^ k * (b + 2 ^ k * x)) div 2 ^ k = b + 2 ^ k * x" using assms by simp
  ultimately show ?thesis by linarith
qed

lemma masked_pairs:
  assumes "length ds = 2 * j" "list_all (\<lambda>d. d < 2 ^ k) ds"
  shows "(digits_val (2 ^ k) ds AND field_mask k j) + (digits_val (2 ^ k) ds div 2 ^ k AND field_mask k j)
    = digits_val (2 ^ (2 * k)) (pair_sums ds)"
  using assms
proof (induction ds arbitrary: j rule: pair_sums.induct)
  case (1 a b r)
  then obtain i where i: "j = Suc i" "length r = 2 * i" by (cases j) auto
  let ?x = "digits_val (2 ^ k) r"
  have v: "digits_val (2 ^ k) (a # b # r) = a + 2 ^ k * b + 2 ^ (2 * k) * ?x"
    unfolding square by (simp add: algebra_simps)
  have d: "digits_val (2 ^ k) (a # b # r) div 2 ^ k = b + 2 ^ k * (?x mod 2 ^ k) + 2 ^ (2 * k) * (?x div 2 ^ k)"
    using 1 by (simp only: digits_val.simps) (rule fields_shifted, simp_all)
  have "a < 2 ^ k" "b < 2 ^ k" "?x mod 2 ^ k < 2 ^ k" using 1 by simp_all
  then show ?case using 1 i unfolding d unfolding v i(1)
    by (simp only: and_mask_step) (simp add: distrib_left flip: 1(1))
qed (auto simp: field_mask_def)

lemma mask_halves:
  assumes "length ds = 2 * j" "list_all (\<lambda>d. d < 2) ds"
  shows "digits_val 2 ds - (digits_val 2 ds div 2 AND field_mask 1 j) = digits_val 4 (pair_sums ds)"
  using assms
proof (induction ds arbitrary: j rule: pair_sums.induct)
  case (1 a b r)
  then obtain i where i: "j = Suc i" "length r = 2 * i" by (cases j) auto
  let ?x = "digits_val 2 r"
  have d: "digits_val 2 (a # b # r) div 2 = b + 2 ^ 1 * (?x mod 2 ^ 1) + 2 ^ (2 * 1) * (?x div 2 ^ 1)"
    using 1 fields_shifted [of a 1 b ?x] by simp
  have le: "(?x div 2 AND field_mask 1 i) \<le> ?x" by (meson nat_and_le div_le_dividend order_trans)
  have "b + 4 * (?x div 2 AND field_mask 1 i) = (digits_val 2 (a # b # r) div 2 AND field_mask 1 j)"
    unfolding d i using 1 by (subst and_mask_step) simp_all
  then show ?case using 1 i le by simp
qed auto

lemma summed_pairs:
  assumes "length ds = 2 * j" "list_all (\<lambda>d. 2 * d < 2 ^ k) ds"
  shows "(digits_val (2 ^ k) ds + digits_val (2 ^ k) ds div 2 ^ k) AND field_mask k j
    = digits_val (2 ^ (2 * k)) (pair_sums ds)"
  using assms
proof (induction ds arbitrary: j rule: pair_sums.induct)
  case (1 a b r)
  then obtain i where i: "j = Suc i" "length r = 2 * i" by (cases j) auto
  let ?x = "digits_val (2 ^ k) r"
  have small: "a < 2 ^ k" "b < 2 ^ k" "a + b < 2 ^ k" using 1 by simp_all
  have low: "?x mod 2 ^ k = (if r = [] then 0 else hd r)" using 1 by (cases r) auto
  then have "2 * (?x mod 2 ^ k) < 2 ^ k" using 1 by (cases r) auto
  then have fit: "b + ?x mod 2 ^ k < 2 ^ k" using 1 by simp
  have v: "digits_val (2 ^ k) (a # b # r) = a + 2 ^ k * b + 2 ^ (2 * k) * ?x"
    unfolding square by (simp add: algebra_simps)
  have d: "digits_val (2 ^ k) (a # b # r) div 2 ^ k = b + 2 ^ k * (?x mod 2 ^ k) + 2 ^ (2 * k) * (?x div 2 ^ k)"
    by (simp only: digits_val.simps) (rule fields_shifted [OF small(1,2)])
  have "digits_val (2 ^ k) (a # b # r) + digits_val (2 ^ k) (a # b # r) div 2 ^ k
      = (a + b) + 2 ^ k * (b + ?x mod 2 ^ k) + 2 ^ (2 * k) * (?x + ?x div 2 ^ k)"
    unfolding d unfolding v by (simp only: distrib_left)
  then show ?case using 1 i small(3) fit by (simp only: and_mask_step) simp
qed (auto simp: field_mask_def)

lemma length_pair_sums: "length (pair_sums ds) = length ds div 2"
  by (induction ds rule: pair_sums.induct) simp_all

lemma sum_pair_sums: "even (length ds) \<Longrightarrow> sum_list (pair_sums ds) = sum_list ds"
  by (induction ds rule: pair_sums.induct) auto

lemma pair_sums_le: "list_all (\<lambda>d. d \<le> m) ds \<Longrightarrow> list_all (\<lambda>d. d \<le> 2 * m) (pair_sums ds)"
  by (induction ds rule: pair_sums.induct) auto

lemma digits_less: "list_all (\<lambda>d. d < B) ds \<Longrightarrow> digits_val B ds < B ^ length ds"
proof (induction ds)
  case (Cons d ds)
  then have "d + B * digits_val B ds < B * Suc (digits_val B ds)" by simp
  also have "\<dots> \<le> B * B ^ length ds" using Cons by (intro mult_le_mono2) simp
  finally show ?case by simp
qed simp

lemma bit_high:
  fixes e :: u32
  assumes "unat e < 2 ^ n" "bit e i"
  shows "i < n"
proof (rule ccontr)
  assume "\<not> i < n"
  then have "unat e < 2 ^ i" using assms(1) by (meson less_le_trans not_less one_le_numeral power_increasing)
  then have "drop_bit i (unat e) = 0" by (simp add: drop_bit_eq_div)
  then have "\<not> bit (unat e) i" by (simp add: bit_iff_odd_drop_bit)
  then show False using assms(2) by (simp add: bit_unsigned_iff bit_imp_le_length)
qed

lemma signed_shift_masked:
  fixes e m :: u32
  assumes "unat m < 2 ^ (32 - k)"
  shows "signed_drop_bit k e AND m = drop_bit k e AND m"
  using bit_high [OF assms]
  by (intro bit_word_eqI) (auto simp: bit_and_iff bit_signed_drop_bit_iff bit_drop_bit_eq dest: leD)

lemma signed_shift_small:
  fixes e :: u32
  assumes "unat e < 2 ^ 31"
  shows "signed_drop_bit k e = drop_bit k e"
  using bit_high [OF assms]
  by (intro bit_word_eqI) (auto simp: bit_signed_drop_bit_iff bit_drop_bit_eq, (fastforce dest: bit_imp_le_length)+)

definition bits_of :: "u32 \<Rightarrow> nat list" where
  "bits_of e = map (\<lambda>i. of_bool (bit e i)) [0..<32]"

lemma digits_horner: "digits_val 2 (map of_bool bs) = horner_sum of_bool 2 bs"
  by (induction bs) simp_all

lemma unat_bits: "digits_val 2 (bits_of e) = unat e"
proof -
  have "digits_val 2 (bits_of e) = horner_sum of_bool 2 (map (bit (unat e)) [0..<32])"
    unfolding bits_of_def digits_horner [symmetric] by (simp add: bit_unsigned_iff comp_def bit_imp_le_length cong: map_cong)
  also have "\<dots> = unat e" by (simp add: horner_sum_bit_eq_take_bit take_bit_nat_eq_self unsigned_less [where 'b = 32, simplified])
  finally show ?thesis .
qed

lemma field_mask_0: "field_mask k 0 = 0"
  by (simp add: field_mask_def)

lemma field_mask_numeral: "field_mask k (numeral n) = (2 ^ k - 1) + 2 ^ (2 * k) * field_mask k (pred_numeral n)"
  unfolding numeral_eq_Suc field_mask_Suc ..

lemma masks: "field_mask 1 16 = 1431655765" "field_mask 2 8 = 858993459" "field_mask 4 4 = 252645135"
  by (simp_all add: field_mask_numeral field_mask_Suc field_mask_0)

lemma unat_shift_and:
  fixes e m :: u32
  assumes "unat m < 2 ^ (32 - k)"
  shows "unat (signed_drop_bit k e AND m) = (unat e div 2 ^ k AND unat m)"
  unfolding signed_shift_masked [OF assms] by (simp only: unsigned_and_eq unat_drop_bit_eq) (simp add: drop_bit_eq_div)

lemma unat_shift_small:
  fixes e :: u32
  assumes "unat e < 2 ^ 31"
  shows "unat (signed_drop_bit k e) = unat e div 2 ^ k"
  unfolding signed_shift_small [OF assms] unat_drop_bit_eq by (simp add: drop_bit_eq_div)

lemma digits_le: "list_all (\<lambda>d. d \<le> m) ds \<Longrightarrow> digits_val B ds \<le> m * digits_val B (replicate (length ds) 1)"
  by (induction ds) (auto simp: distrib_left mult.left_commute intro: add_mono mult_le_mono2)

lemma unat_add_small: "unat a + unat b < 2 ^ 32 \<Longrightarrow> unat (a + b) = unat a + unat b" for a b :: u32
  by (simp add: unat_word_ariths)

lemma fold_bytes:
  fixes e :: u32
  assumes "unat e = digits_val 256 ds" "length ds = 4" "list_all (\<lambda>d. d \<le> 8) ds"
  shows "unat (127 AND ((e + signed_drop_bit 8 e) + signed_drop_bit 16 (e + signed_drop_bit 8 e))) = sum_list ds"
proof -
  obtain p q r s where ds: "ds = [p, q, r, s]" using assms(2) by (auto simp: numeral_eq_Suc length_Suc_conv)
  have b: "p \<le> 8" "q \<le> 8" "r \<le> 8" "s \<le> 8" using assms(3) ds by simp_all
  have e: "unat e = p + 256 * (q + 256 * (r + 256 * s))" using assms(1) ds by simp
  have e8: "unat (signed_drop_bit 8 e) = q + 256 * (r + 256 * s)"
    using b by (subst unat_shift_small) (simp_all add: e)
  define f where "f = e + signed_drop_bit 8 e"
  have f: "unat f = (p + q) + 256 * ((q + r) + 256 * ((r + s) + 256 * s))"
    unfolding f_def using b by (subst unat_add_small) (simp_all add: e e8)
  have f16: "unat (signed_drop_bit 16 f) = (r + s) + 256 * s"
    using b by (subst unat_shift_small) (simp_all add: f)
  have g: "unat (f + signed_drop_bit 16 f) = (p + q + r + s) + 128 * (2 * ((q + r + s) + 256 * ((r + s) + 256 * s)))"
    using b by (subst unat_add_small) (simp_all add: f f16)
  have "unat (127 AND (f + signed_drop_bit 16 f)) = unat (f + signed_drop_bit 16 f) mod 128"
  proof -
    have m: "(127 :: nat) = mask 7" by (simp add: mask_eq_exp_minus_1)
    have "unat (127 AND (f + signed_drop_bit 16 f)) = (127 AND unat (f + signed_drop_bit 16 f))"
      by (simp add: unsigned_and_eq)
    also have "\<dots> = take_bit 7 (unat (f + signed_drop_bit 16 f))"
      unfolding m by (simp add: take_bit_eq_mask and.commute)
    finally show ?thesis by (simp add: take_bit_eq_mod)
  qed
  also have "\<dots> = p + q + r + s" unfolding g mod_mult_self2 using b by simp
  finally show ?thesis unfolding f_def ds by simp
qed

lemma ones_8: "replicate 8 (Suc 0) = [1, 1, 1, 1, 1, 1, 1, 1]"
  by (simp add: numeral_eq_Suc)

lemma popCount_sum: "popCount e = sum_list (bits_of e)"
proof -
  define bs where "bs = bits_of e"
  have bs: "unat e = digits_val 2 bs" "length bs = 2 * 16" "list_all (\<lambda>d. d \<le> 1) bs"
    by (simp_all add: bs_def unat_bits, simp_all add: bits_of_def list_all_iff)
  define cs where "cs = pair_sums bs"
  have cs: "length cs = 2 * 8" "list_all (\<lambda>d. d \<le> 2) cs"
    using bs pair_sums_le [OF bs(3)] by (simp_all add: cs_def length_pair_sums)
  define ds where "ds = pair_sums cs"
  have ds: "length ds = 2 * 4" "list_all (\<lambda>d. d \<le> 4) ds"
    using cs pair_sums_le [OF cs(2)] by (simp_all add: ds_def length_pair_sums)
  define es where "es = pair_sums ds"
  have es: "length es = 4" "list_all (\<lambda>d. d \<le> 8) es"
    using ds pair_sums_le [OF ds(2)] by (simp_all add: es_def length_pair_sums)
  define x where "x = e - (signed_drop_bit 1 e AND 1431655765)"
  have m1: "unat (signed_drop_bit 1 e AND 1431655765) = (unat e div 2 AND field_mask 1 16)"
    using unat_shift_and [of 1431655765 1 e] unfolding masks by simp
  moreover have "(unat e div 2 AND field_mask 1 16) \<le> unat e" by (meson nat_and_le div_le_dividend order_trans)
  ultimately have "unat x = unat e - (unat e div 2 AND field_mask 1 16)"
    unfolding x_def by (subst unat_sub) (simp_all add: word_le_nat_alt)
  moreover have "list_all (\<lambda>d. d < 2) bs" using bs(3) by (simp add: list_all_iff numeral_2_eq_2 less_Suc_eq_le)
  ultimately have x: "unat x = digits_val 4 cs"
    using mask_halves [OF bs(2)] bs(1) unfolding cs_def by simp
  define y where "y = (858993459 AND x) + (signed_drop_bit 2 x AND 858993459)"
  have y2: "(unat x AND field_mask 2 8) + (unat x div 2 ^ 2 AND field_mask 2 8) = digits_val 16 ds"
    using masked_pairs [OF cs(1), of 2] cs(2) by (simp add: x ds_def list_all_iff, fastforce)
  have yb: "digits_val 16 ds \<le> 1145324612"
    using digits_le [OF ds(2), of 16] ds(1) by (simp add: ones_8)
  have y: "unat y = digits_val 16 ds"
    using unat_shift_and [of 858993459 2 x] y2 yb unfolding y_def
    by (subst unat_add_small) (simp_all add: masks unsigned_and_eq and.commute)
  define z where "z = (y + signed_drop_bit 4 y) AND 252645135"
  have "unat (signed_drop_bit 4 y) = unat y div 2 ^ 4" by (rule unat_shift_small) (use yb in \<open>simp add: y\<close>)
  then have "unat z = (unat y + unat y div 2 ^ 4 AND field_mask 4 4)"
    unfolding z_def unsigned_and_eq using yb by (subst unat_add_small) (simp_all add: masks y)
  moreover have "list_all (\<lambda>d. 2 * d < 2 ^ 4) ds" using ds(2) by (auto simp: list_all_iff)
  ultimately have z: "unat z = digits_val 256 es"
    using summed_pairs [OF ds(1), of 4] by (simp add: y es_def)
  have "popCount e = sum_list es"
    using fold_bytes [OF z es] unfolding popCount_def x_def y_def z_def Let_def .
  then show ?thesis using bs(2) cs(1) ds(1) sum_pair_sums by (simp add: es_def ds_def cs_def bs_def)
qed

section \<open>Packed arrays\<close>

text \<open>The fragments present in a bitmap, in the order of the packed array, and the index of one.\<close>

definition slots :: "u32 \<Rightarrow> nat list" where
  "slots l = filter (bit l) [0..<32]"

definition slot_index :: "u32 \<Rightarrow> nat \<Rightarrow> nat" where
  "slot_index l u = length (filter (bit l) [0..<u])"

lemma sum_bools: "sum_list (map (\<lambda>i. of_bool (P i)) xs) = length (filter P xs)"
  by (induction xs) simp_all

lemma mask_below: "push_bit u 1 - 1 = (mask u :: u32)"
  by (simp add: mask_eq_exp_minus_1 push_bit_eq_mult)

lemma popCount_index:
  assumes "u < 32"
  shows "popCount (l AND (push_bit u 1 - 1)) = slot_index l u"
proof -
  have "[0..<32] = [0..<u] @ [u..<32]" using assms upt_add_eq_append [of 0 u "32 - u"] by simp
  then show ?thesis
    unfolding popCount_sum bits_of_def sum_bools slot_index_def mask_below bit_and_iff bit_mask_iff
    using assms by (auto simp: filter_empty_conv intro!: arg_cong [of _ _ length] filter_cong)
qed

lemma slots_split:
  assumes "u < 32"
  shows "slots l = filter (bit l) [0..<u] @ (if bit l u then [u] else []) @ filter (bit l) [Suc u..<32]"
proof -
  have "[0..<32] = [0..<u] @ u # [Suc u..<32]"
    using assms upt_add_eq_append [of 0 u "32 - u"] upt_conv_Cons [of u 32] by simp
  then show ?thesis by (simp add: slots_def)
qed

lemma slots_less: "u \<in> set (slots l) \<Longrightarrow> u < 32"
  by (simp add: slots_def)

lemma distinct_slots [simp]: "distinct (slots l)"
  by (simp add: slots_def)

lemma set_slots: "u \<in> set (slots l) \<longleftrightarrow> bit l u"
  by (auto simp: slots_def dest: bit_imp_le_length)

lemma slot_index_le: "u < 32 \<Longrightarrow> slot_index l u \<le> length (slots l)"
  by (simp add: slots_split slot_index_def)

lemma slot_at_index: "bit l u \<Longrightarrow> slot_index l u < length (slots l) \<and> slots l ! slot_index l u = u"
  using bit_imp_le_length [of l u] by (simp add: slots_split [of u] slot_index_def)

lemma filters_off:
  assumes "\<And>i. i \<noteq> u \<Longrightarrow> bit l' i = bit l i"
  shows "filter (bit l') [0..<u] = filter (bit l) [0..<u]" "filter (bit l') [Suc u..<32] = filter (bit l) [Suc u..<32]"
  using assms by (auto intro!: filter_cong)

lemma slots_insert:
  assumes "u < 32" "\<not> bit l u"
  shows "slots (l OR push_bit u 1) = take (slot_index l u) (slots l) @ u # drop (slot_index l u) (slots l)"
proof -
  have "bit (l OR push_bit u 1) i = bit l i" if "i \<noteq> u" for i
    using that by (auto simp: bit_or_iff bit_exp_iff)
  note same = filters_off [OF this]
  have "bit (l OR push_bit u 1) u" using assms(1) by (simp add: bit_or_iff bit_exp_iff possible_bit_word)
  then show ?thesis using assms same by (simp add: slots_split [OF assms(1)] slot_index_def)
qed

lemma slots_remove:
  assumes "bit l u"
  shows "slots (l XOR push_bit u 1) = take (slot_index l u) (slots l) @ drop (Suc (slot_index l u)) (slots l)"
proof -
  have u: "u < 32" using bit_imp_le_length [OF assms] by simp
  have "bit (l XOR push_bit u 1) i = bit l i" if "i \<noteq> u" for i
    using that by (auto simp: bit_xor_iff bit_exp_iff)
  note same = filters_off [OF this]
  have "\<not> bit (l XOR push_bit u 1) u"
    using assms u by (simp add: bit_xor_iff bit_exp_iff possible_bit_word)
  then show ?thesis using assms same by (simp add: slots_split [OF u] slot_index_def)
qed

section \<open>Property\<close>

text \<open>C23: \<open>popCount\<close> is the number of bits that are set in its argument, for every 32 bit integer.\<close>

lemma popCount_counts: "popCount e = card {i. bit e i}"
proof -
  have "{i. bit e i} = set (slots e)" using set_slots by blast
  then have "card {i. bit e i} = length (slots e)" using distinct_card [OF distinct_slots] by simp
  then show ?thesis by (simp add: popCount_sum bits_of_def sum_bools slots_def)
qed

end
