(* ===== verification/Immutable_Map.thy ===== *)
theory Immutable_Map
  imports Bit_Count
begin

text \<open>
  The persistent hash map of immutable.js (\<open>Map\<close>), on which the state of Swagger UI is kept: up to eight
  entries as an array, then a hash array mapped trie of bitmap nodes, full array nodes, collision nodes
  and value nodes, one level for every five bits of the hash.

  The hash function (\<open>hash\<close>, \<open>Ce\<close>) is an argument of the operations; nothing is assumed of it. Keys are
  compared by \<open>is\<close> (\<open>he\<close>), which is equality of the model's keys, values by \<open>===\<close>. The model describes
  the persistent operations, those without an owner id, which build new nodes; \<open>node === child\<close> then
  holds exactly if the child reported no change. A key's hash is computed once and passed on in the
  code; here it is computed where it is used. \<open>NOT_SET\<close> (\<open>y\<close>) as a value to store, a missing node and
  a missing value are \<open>None\<close>.
\<close>

section \<open>Hashes\<close>

text \<open>\<open>smi\<close> (\<open>Se\<close>) drops bit 30 and keeps the sign; \<open>hashString\<close> (\<open>ke\<close>). The cache of the hashes of long strings
  (lines 635 to 639) returns what \<open>ke\<close> returns.\<close>

definition smi :: "u32 \<Rightarrow> u32" where
  "smi e = (drop_bit 1 e AND 1073741824) OR (3221225471 AND e)"

definition hashString :: "jsstring \<Rightarrow> u32" where
  "hashString e = smi (foldl (\<lambda>t c. 31 * t + ucast c) 0 e)"

section \<open>Nodes\<close>

datatype ('k, 'v) node =
    BitmapIndexedNode u32 "('k, 'v) node list"
  | HashArrayMapNode nat "('k, 'v) node option list"
  | HashCollisionNode u32 "('k \<times> 'v) list"
  | ValueNode u32 "'k \<times> 'v"

datatype ('k, 'v) root =
    ArrayMapNode "('k \<times> 'v) list"
  | Trie "('k, 'v) node"

text \<open>\<open>(0 === n ? h : h >>> n) & MASK\<close>: the hash fragment that selects a child.\<close>

definition chunk :: "nat \<Rightarrow> u32 \<Rightarrow> nat" where
  "chunk n h = unat ((if n = 0 then h else drop_bit (n mod 32) h) AND 31)"

fun isLeafNode :: "('k, 'v) node \<Rightarrow> bool" where
  "isLeafNode (ValueNode _ _) = True"
| "isLeafNode (HashCollisionNode _ _) = True"
| "isLeafNode _ = False"

fun keyHash :: "('k, 'v) node \<Rightarrow> u32" where
  "keyHash (ValueNode h _) = h"
| "keyHash (HashCollisionNode h _) = h"
| "keyHash _ = 0"

text \<open>The loops \<open>for (l = 0; l < c && !is(key, s[l][0]); l++);\<close>.\<close>

fun entry_index :: "'k \<Rightarrow> ('k \<times> 'v) list \<Rightarrow> nat" where
  "entry_index k [] = 0"
| "entry_index k (e # es) = (if fst e = k then 0 else Suc (entry_index k es))"

fun entry_get :: "'k \<Rightarrow> ('k \<times> 'v) list \<Rightarrow> 'v option" where
  "entry_get k [] = None"
| "entry_get k (e # es) = (if k = fst e then Some (snd e) else entry_get k es)"

text \<open>
  The new entries of an array or collision node: the last entry takes the place of a removed one, a
  new one comes last.
\<close>

definition entries_update :: "('k \<times> 'v) list \<Rightarrow> 'k \<Rightarrow> 'v option \<Rightarrow> ('k \<times> 'v) list" where
  "entries_update s k v =
     (let l = entry_index k s; c = length s
      in if l < c
         then (case v of
                 None \<Rightarrow> (if l = c - 1 then butlast s else (butlast s)[l := last s])
               | Some v \<Rightarrow> s[l := (k, v)])
         else (case v of None \<Rightarrow> s | Some v \<Rightarrow> s @ [(k, v)]))"

section \<open>Lookup\<close>

lemma item_at_size [termination_simp]:
  "item_at p i = Some c \<Longrightarrow> size c < Suc (size_list size p)"
  by (auto simp: item_at_def split: if_splits intro!: le_imp_less_Suc size_list_estimation' [of "p ! i"])

lemma option_at_size [termination_simp]:
  assumes "item_at p i = Some (Some c)"
  shows "size c < Suc (size_list (size_option size) p)"
proof -
  have "Some c \<in> set p" using assms by (metis item_at_def nth_mem option.distinct(1) option.inject)
  then have "size_option size (Some c) \<le> size_list (size_option size) p" by (rule size_list_estimation') simp
  then show ?thesis by simp
qed

lemma guarded_Some [termination_simp]: "(if c then x else None) = Some d \<longleftrightarrow> c \<and> x = Some d"
  by simp

text \<open>A bitmap node has a child for every bit of its bitmap, so that the index is in range there.\<close>

fun node_get :: "('k \<Rightarrow> u32) \<Rightarrow> nat \<Rightarrow> 'k \<Rightarrow> ('k, 'v) node \<Rightarrow> 'v option" where
  "node_get hash s k (BitmapIndexedNode i p) =
     (let o' = push_bit (chunk s (hash k)) 1
      in if i AND o' = 0 then None
         else (case item_at p (popCount (i AND (o' - 1))) of
                 None \<Rightarrow> None | Some c \<Rightarrow> node_get hash (s + 5) k c))"
| "node_get hash s k (HashArrayMapNode n p) =
     (case item_at p (chunk s (hash k)) of
        Some (Some c) \<Rightarrow> node_get hash (s + 5) k c
      | _ \<Rightarrow> None)"
| "node_get hash s k (HashCollisionNode h es) = entry_get k es"
| "node_get hash s k (ValueNode h e) = (if k = fst e then Some (snd e) else None)"

section \<open>Update\<close>

text \<open>
  \<open>mergeIntoNode\<close> (\<open>nt\<close>): a leaf and an entry with another hash, separated at the first fragment in
  which the hashes differ. It is called on a collision node only with a different hash.
\<close>

lemma chunk_low_bit: "odd (chunk n h) \<longleftrightarrow> bit h (n mod 32)"
proof -
  have "odd (unat (x AND 31)) \<longleftrightarrow> bit x 0" for x :: u32
  proof -
    have "odd (unat (x AND 31)) \<longleftrightarrow> bit (unat (x AND 31)) 0" by (simp add: bit_0)
    also have "\<dots> \<longleftrightarrow> bit (x AND 31) 0" by (simp add: bit_unsigned_iff)
    also have "\<dots> \<longleftrightarrow> bit x 0" by (simp add: bit_and_iff bit_0 even_and_iff)
    finally show ?thesis .
  qed
  then show ?thesis by (simp add: chunk_def bit_drop_bit_eq)
qed

lemma chunks_differ:
  assumes "h \<noteq> r"
  shows "\<exists>j. chunk (n + 5 * j) h \<noteq> chunk (n + 5 * j) r"
proof -
  obtain b where b: "b < 32" "bit h b \<noteq> bit r b" using assms bit_word_eqI [of h r] by auto
  have "n + 5 * (13 * (b + 31 * n)) = b + 32 * (2 * b + 63 * n)" by simp
  then have "(n + 5 * (13 * (b + 31 * n))) mod 32 = b" using b(1) by (metis mod_less mod_mult_self2)
  then show ?thesis using b(2) chunk_low_bit by metis
qed

function mergeIntoNode :: "('k, 'v) node \<Rightarrow> nat \<Rightarrow> u32 \<Rightarrow> 'k \<times> 'v \<Rightarrow> ('k, 'v) node" where
  "mergeIntoNode e n r o' =
     (if keyHash e = r
      then (case e of ValueNode _ entry \<Rightarrow> HashCollisionNode r [entry, o'] | _ \<Rightarrow> HashCollisionNode r [o'])
      else (let a = chunk n (keyHash e); u = chunk n r
            in BitmapIndexedNode (push_bit a 1 OR push_bit u 1)
                 (if a = u then [mergeIntoNode e (n + 5) r o']
                  else if a < u then [e, ValueNode r o'] else [ValueNode r o', e])))"
  by pat_completeness auto
termination
proof (relation "measure (\<lambda>(e, n, r, o'). LEAST j. chunk (n + 5 * j) (keyHash e) \<noteq> chunk (n + 5 * j) r)")
  fix e :: "('k, 'v) node" and n r o' a u
  assume "keyHash e \<noteq> r" "a = chunk n (keyHash e)" "u = chunk n r" "a = u"
  moreover obtain j where "chunk (n + 5 * j) (keyHash e) \<noteq> chunk (n + 5 * j) r"
    using chunks_differ [OF \<open>keyHash e \<noteq> r\<close>] by blast
  ultimately have "(LEAST j. chunk (n + 5 * j) (keyHash e) \<noteq> chunk (n + 5 * j) r)
      = Suc (LEAST j. chunk (n + 5 * Suc j) (keyHash e) \<noteq> chunk (n + 5 * Suc j) r)"
    by (intro Least_Suc) auto
  then show "((e, n + 5, r, o'), e, n, r, o')
      \<in> measure (\<lambda>(e, n, r, o'). LEAST j. chunk (n + 5 * j) (keyHash e) \<noteq> chunk (n + 5 * j) r)"
    by (simp add: add.assoc)
qed simp

declare mergeIntoNode.simps [simp del]

text \<open>\<open>expandNodes\<close>, \<open>packNodes\<close>, \<open>spliceOut\<close> and \<open>spliceIn\<close>.\<close>

function expand_loop :: "nat \<Rightarrow> ('k, 'v) node list \<Rightarrow> ('k, 'v) node option list \<times> nat" where
  "expand_loop n t =
     (if n = 0 then ([], 0)
      else if odd n then (let (a, i) = expand_loop (n div 2) (tl t) in (item_at t 0 # a, Suc i))
      else (let (a, i) = expand_loop (n div 2) t in (None # a, i)))"
  by pat_completeness auto
termination
  by (relation "measure fst") auto

declare expand_loop.simps [simp del]

definition expandNodes :: "('k, 'v) node list \<Rightarrow> u32 \<Rightarrow> nat \<Rightarrow> ('k, 'v) node \<Rightarrow> ('k, 'v) node" where
  "expandNodes t n r o' =
     (let (a, i) = expand_loop (unat n) t
      in HashArrayMapNode (i + 1) ((a @ replicate (32 - length a) None)[r := Some o']))"

fun pack_loop :: "('k, 'v) node option list \<Rightarrow> nat \<Rightarrow> nat \<Rightarrow> u32 \<Rightarrow> ('k, 'v) node list \<Rightarrow> u32 \<times> ('k, 'v) node list" where
  "pack_loop [] u r o' a = (o', a)"
| "pack_loop (None # t) u r o' a = pack_loop t (Suc u) r o' a"
| "pack_loop (Some c # t) u r o' a =
     (if u \<noteq> r then pack_loop t (Suc u) r (o' OR push_bit u 1) (a @ [c]) else pack_loop t (Suc u) r o' a)"

definition packNodes :: "('k, 'v) node option list \<Rightarrow> nat \<Rightarrow> ('k, 'v) node" where
  "packNodes t r = (let (o', a) = pack_loop t 0 r 0 [] in BitmapIndexedNode o' a)"

definition spliceOut :: "'a list \<Rightarrow> nat \<Rightarrow> 'a list" where
  "spliceOut e t = map (\<lambda>a. e ! (a + (if t \<le> a then 1 else 0))) [0..<length e - 1]"

definition spliceIn :: "'a list \<Rightarrow> nat \<Rightarrow> 'a \<Rightarrow> 'a list" where
  "spliceIn e t n = map (\<lambda>u. if u = t then n else e ! (if t < u then u - 1 else u)) [0..<length e + 1]"

text \<open>
  \<open>update\<close> of the node kinds. The result is the new node (\<open>None\<close> when nothing is left of it) with the two
  flags \<open>didChangeSize\<close> (\<open>i\<close>) and \<open>didAlter\<close> (\<open>a\<close>).
\<close>

fun node_update :: "('k \<Rightarrow> u32) \<Rightarrow> nat \<Rightarrow> 'k \<Rightarrow> 'v option \<Rightarrow> ('k, 'v) node \<Rightarrow> ('k, 'v) node option \<times> bool \<times> bool" where
  "node_update hash s k v (BitmapIndexedNode l p) =
     (let u = chunk s (hash k); b = push_bit u 1; c = (l AND b \<noteq> 0)
      in if \<not> c \<and> v = None then (Some (BitmapIndexedNode l p), False, False)
         else (let f = popCount (l AND (b - 1));
                   (h, i, a) = (case (if c then item_at p f else None) of
                       Some d \<Rightarrow> node_update hash (s + 5) k v d
                     | None \<Rightarrow> (case v of None \<Rightarrow> (None, False, False) | Some v \<Rightarrow> (Some (ValueNode (hash k) (k, v)), True, True)))
               in if \<not> a then (Some (BitmapIndexedNode l p), i, a)
                  else if \<not> c \<and> h \<noteq> None \<and> length p \<ge> 16 then (Some (expandNodes p l u (the h)), i, a)
                  else if c \<and> h = None \<and> length p = 2 \<and> isLeafNode (p ! (1 - f)) then (Some (p ! (1 - f)), i, a)
                  else if c \<and> h \<noteq> None \<and> length p = 1 \<and> isLeafNode (the h) then (h, i, a)
                  else (Some (case h of
                          Some h' \<Rightarrow> if c then BitmapIndexedNode l (p[f := h']) else BitmapIndexedNode (l OR b) (spliceIn p f h')
                        | None \<Rightarrow> BitmapIndexedNode (l XOR b) (spliceOut p f)), i, a)))"
| "node_update hash s k v (HashArrayMapNode n l) =
     (let u = chunk s (hash k); c = (case item_at l u of Some c \<Rightarrow> c | None \<Rightarrow> None)
      in if v = None \<and> c = None then (Some (HashArrayMapNode n l), False, False)
         else (let (f, i, a) = (case item_at l u of
                       Some (Some d) \<Rightarrow> node_update hash (s + 5) k v d
                     | _ \<Rightarrow> (case v of None \<Rightarrow> (None, False, False) | Some v \<Rightarrow> (Some (ValueNode (hash k) (k, v)), True, True)))
               in if \<not> a then (Some (HashArrayMapNode n l), i, a)
                  else if c \<noteq> None \<and> f = None \<and> n - 1 < 8 then (Some (packNodes l u), i, a)
                  else (Some (HashArrayMapNode (if c = None then n + 1 else if f = None then n - 1 else n) (l[u := f])), i, a)))"
| "node_update hash s k v (HashCollisionNode h es) =
     (if hash k \<noteq> h
      then (case v of None \<Rightarrow> (Some (HashCollisionNode h es), False, False)
            | Some v \<Rightarrow> (Some (mergeIntoNode (HashCollisionNode h es) s (hash k) (k, v)), True, True))
      else (let l = entry_index k es; f = (l < length es)
            in if (if f then Some (snd (es ! l)) = v else v = None) then (Some (HashCollisionNode h es), False, False)
               else if v = None \<and> length es = 2 then (Some (ValueNode h (es ! (1 - l))), True, True)
               else (Some (HashCollisionNode h (entries_update es k v)), v = None \<or> \<not> f, True)))"
| "node_update hash s k v (ValueNode h e) =
     (if (if k = fst e then v = Some (snd e) else v = None) then (Some (ValueNode h e), False, False)
      else (case v of
              None \<Rightarrow> (None, True, True)
            | Some v \<Rightarrow> if k = fst e then (Some (ValueNode h (k, v)), False, True)
                        else (Some (mergeIntoNode (ValueNode h e) s (hash k) (k, v)), True, True)))"

text \<open>\<open>createNodes\<close>: the trie that replaces an array of eight entries when a ninth is added.\<close>

definition createNodes :: "('k \<Rightarrow> u32) \<Rightarrow> ('k \<times> 'v) list \<Rightarrow> 'k \<Rightarrow> 'v \<Rightarrow> ('k, 'v) node" where
  "createNodes hash t n r =
     foldl (\<lambda>o' a. case node_update hash 0 (fst a) (Some (snd a)) o' of (Some o'', _) \<Rightarrow> o'' | (None, _) \<Rightarrow> o')
       (ValueNode (hash n) (n, r)) t"

definition root_get :: "('k \<Rightarrow> u32) \<Rightarrow> 'k \<Rightarrow> ('k, 'v) root \<Rightarrow> 'v option" where
  "root_get hash k n = (case n of ArrayMapNode es \<Rightarrow> entry_get k es | Trie c \<Rightarrow> node_get hash 0 k c)"

definition root_update :: "('k \<Rightarrow> u32) \<Rightarrow> 'k \<Rightarrow> 'v option \<Rightarrow> ('k, 'v) root \<Rightarrow> ('k, 'v) root option \<times> bool \<times> bool" where
  "root_update hash k v n =
     (case n of
        ArrayMapNode s \<Rightarrow>
          (let l = entry_index k s; f = (l < length s)
           in if (if f then Some (snd (s ! l)) = v else v = None) then (Some n, False, False)
              else (if v \<noteq> None \<or> length s \<noteq> 1
                    then (if \<not> f \<and> v \<noteq> None \<and> length s \<ge> 8 then Some (Trie (createNodes hash s k (the v)))
                          else Some (ArrayMapNode (entries_update s k v)))
                    else None, v = None \<or> \<not> f, True))
      | Trie c \<Rightarrow> (case node_update hash 0 k v c of (h, i, a) \<Rightarrow> (map_option Trie h, i, a)))"

section \<open>\<open>Map\<close>\<close>

record ('k, 'v) immutable_map =
  map_size :: int
  map_root :: "('k, 'v) root option"

definition emptyMap :: "('k, 'v) immutable_map" where
  "emptyMap = \<lparr>map_size = 0, map_root = None\<rparr>"

definition map_get :: "('k \<Rightarrow> u32) \<Rightarrow> ('k, 'v) immutable_map \<Rightarrow> 'k \<Rightarrow> 'v option" where
  "map_get hash m k = (case map_root m of None \<Rightarrow> None | Some r \<Rightarrow> root_get hash k r)"

definition updateMap :: "('k \<Rightarrow> u32) \<Rightarrow> ('k, 'v) immutable_map \<Rightarrow> 'k \<Rightarrow> 'v option \<Rightarrow> ('k, 'v) immutable_map" where
  "updateMap hash e t n =
     (case map_root e of
        Some r \<Rightarrow>
          (let (r, i, a) = root_update hash t n r
           in if \<not> a then e
              else (case r of None \<Rightarrow> emptyMap
                    | Some r \<Rightarrow> \<lparr>map_size = map_size e + (if i then if n = None then -1 else 1 else 0), map_root = Some r\<rparr>))
      | None \<Rightarrow> (case n of None \<Rightarrow> e | Some v \<Rightarrow> \<lparr>map_size = 1, map_root = Some (ArrayMapNode [(t, v)])\<rparr>))"

definition map_set :: "('k \<Rightarrow> u32) \<Rightarrow> ('k, 'v) immutable_map \<Rightarrow> 'k \<Rightarrow> 'v \<Rightarrow> ('k, 'v) immutable_map" where
  "map_set hash m k v = updateMap hash m k (Some v)"

definition map_remove :: "('k \<Rightarrow> u32) \<Rightarrow> ('k, 'v) immutable_map \<Rightarrow> 'k \<Rightarrow> ('k, 'v) immutable_map" where
  "map_remove hash m k = updateMap hash m k None"

definition map_clear :: "('k, 'v) immutable_map \<Rightarrow> ('k, 'v) immutable_map" where
  "map_clear m = (if map_size m = 0 then m else emptyMap)"

text \<open>\<open>Map.of(k1, v1, k2, v2, ...)\<close>\<close>

fun map_of_args :: "('k \<Rightarrow> u32) \<Rightarrow> ('k, 'k) immutable_map \<Rightarrow> 'k list \<Rightarrow> ('k, 'k) immutable_map result" where
  "map_of_args hash m [] = Inr m"
| "map_of_args hash m [k] = Inl (GenericError ''Missing value for key'')"
| "map_of_args hash m (k # v # r) = map_of_args hash (map_set hash m k v) r"

section \<open>Iteration\<close>

text \<open>A callback returns the new state and whether to go on (it did not return \<open>false\<close>).\<close>

fun visit :: "('s \<Rightarrow> 'a \<Rightarrow> 's \<times> bool) \<Rightarrow> 's \<Rightarrow> 'a list \<Rightarrow> 's \<times> bool" where
  "visit f st [] = (st, True)"
| "visit f st (x # xs) = (case f st x of (st', go) \<Rightarrow> if go then visit f st' xs else (st', False))"

lemma visit_cong [fundef_cong]:
  "st = st' \<Longrightarrow> xs = ys \<Longrightarrow> (\<And>s y. y \<in> set ys \<Longrightarrow> f s y = g s y) \<Longrightarrow> visit f st xs = visit g st' ys"
proof -
  have "(\<And>s y. y \<in> set ys \<Longrightarrow> f s y = g s y) \<Longrightarrow> visit f st ys = visit g st ys" for st
    by (induction ys arbitrary: st) (auto split: prod.splits)
  then show "st = st' \<Longrightarrow> xs = ys \<Longrightarrow> (\<And>s y. y \<in> set ys \<Longrightarrow> f s y = g s y) \<Longrightarrow> visit f st xs = visit g st' ys" by simp
qed

definition in_order :: "bool \<Rightarrow> 'a list \<Rightarrow> 'a list" where
  "in_order reverse xs = (if reverse then rev xs else xs)"

lemma set_in_order [simp]: "set (in_order reverse xs) = set xs"
  by (simp add: in_order_def)

lemma option_size [termination_simp]:
  "Some c \<in> set p \<Longrightarrow> size c < Suc (size_list (size_option size) p)"
  using size_list_estimation' [of "Some c" p "size_option size (Some c)" "size_option size"] by simp

fun node_iterate :: "('s \<Rightarrow> 'k \<times> 'v \<Rightarrow> 's \<times> bool) \<Rightarrow> bool \<Rightarrow> 's \<Rightarrow> ('k, 'v) node \<Rightarrow> 's \<times> bool" where
  "node_iterate f t st (BitmapIndexedNode l p) = visit (\<lambda>st c. node_iterate f t st c) st (in_order t p)"
| "node_iterate f t st (HashArrayMapNode n p) =
     visit (\<lambda>st c. case c of None \<Rightarrow> (st, True) | Some c \<Rightarrow> node_iterate f t st c) st (in_order t p)"
| "node_iterate f t st (HashCollisionNode h es) = visit f st (in_order t es)"
| "node_iterate f t st (ValueNode h e) = f st e"

definition map_iterate :: "('s \<Rightarrow> 'k \<times> 'v \<Rightarrow> 's \<times> bool) \<Rightarrow> bool \<Rightarrow> 's \<Rightarrow> ('k, 'v) immutable_map \<Rightarrow> 's \<times> nat" where
  "map_iterate e t st m =
     (let count = (\<lambda>(st, r) x. case e st x of (st', go) \<Rightarrow> ((st', Suc r), go))
      in case map_root m of
           None \<Rightarrow> (st, 0)
         | Some (ArrayMapNode es) \<Rightarrow> fst (visit count (st, 0) (in_order t es))
         | Some (Trie c) \<Rightarrow> fst (node_iterate count t (st, 0) c))"

text \<open>
  The iterator object (\<open>MapIterator\<close>): a stack of frames, the innermost first, each a node and the index of
  its next item. \<open>next\<close> returns an entry and the new stack, or \<open>None\<close> for \<open>done\<close>.
\<close>

datatype ('k, 'v) item = Entry "'k \<times> 'v" | Child "('k, 'v) node" | Hole

fun node_items :: "('k, 'v) node \<Rightarrow> ('k, 'v) item list" where
  "node_items (BitmapIndexedNode l p) = map Child p"
| "node_items (HashArrayMapNode n p) = map (\<lambda>c. case c of None \<Rightarrow> Hole | Some c \<Rightarrow> Child c) p"
| "node_items (HashCollisionNode h es) = map Entry es"
| "node_items (ValueNode h e) = [Entry e]"

definition root_items :: "('k, 'v) root \<Rightarrow> ('k, 'v) item list" where
  "root_items r = (case r of ArrayMapNode es \<Rightarrow> map Entry es | Trie c \<Rightarrow> node_items c)"

type_synonym ('k, 'v) iter_stack = "(('k, 'v) root \<times> nat) list"

fun node_weight :: "('k, 'v) node \<Rightarrow> nat" where
  "node_weight (BitmapIndexedNode l p) = 1 + sum_list (map (\<lambda>c. 2 + node_weight c) p)"
| "node_weight (HashArrayMapNode n p) = 1 + sum_list (map (\<lambda>c. case c of None \<Rightarrow> 1 | Some c \<Rightarrow> 2 + node_weight c) p)"
| "node_weight (HashCollisionNode h es) = 1 + length es"
| "node_weight (ValueNode h e) = 2"

definition item_weight :: "('k, 'v) item \<Rightarrow> nat" where
  "item_weight it = (case it of Child c \<Rightarrow> 2 + node_weight c | _ \<Rightarrow> 1)"

definition frame_weight :: "bool \<Rightarrow> ('k, 'v) root \<times> nat \<Rightarrow> nat" where
  "frame_weight reverse f = 1 + sum_list (map item_weight (drop (snd f) (in_order reverse (root_items (fst f)))))"

lemma node_weight_items: "node_weight n = 1 + sum_list (map item_weight (node_items n))"
  by (cases n) (simp_all add: item_weight_def comp_def option.case_distrib [of "case_item _ _ _"] cong: option.case_cong, simp add: sum_list_triv)

lemma frame_weight_new: "frame_weight reverse (Trie c, 0) = node_weight c"
  by (simp add: frame_weight_def root_items_def node_weight_items in_order_def rev_map [symmetric] sum_list_rev)

lemma frame_weight_next:
  "i < length (in_order reverse (root_items r)) \<Longrightarrow>
   frame_weight reverse (r, i) = item_weight (in_order reverse (root_items r) ! i) + frame_weight reverse (r, Suc i)"
  by (simp add: frame_weight_def Cons_nth_drop_Suc [symmetric])

function iter_next :: "bool \<Rightarrow> ('k, 'v) iter_stack \<Rightarrow> (('k \<times> 'v) \<times> ('k, 'v) iter_stack) option" where
  "iter_next reverse [] = None"
| "iter_next reverse ((r, i) # st) =
     (if i < length (in_order reverse (root_items r))
      then (case in_order reverse (root_items r) ! i of
              Entry e \<Rightarrow> Some (e, (r, Suc i) # st)
            | Hole \<Rightarrow> iter_next reverse ((r, Suc i) # st)
            | Child c \<Rightarrow> (case c of ValueNode h e \<Rightarrow> Some (e, (r, Suc i) # st)
                         | _ \<Rightarrow> iter_next reverse ((Trie c, 0) # (r, Suc i) # st)))
      else iter_next reverse st)"
  by pat_completeness auto
termination
  by (relation "measure (\<lambda>(reverse, st). sum_list (map (frame_weight reverse) st))")
    (auto simp: frame_weight_next frame_weight_new item_weight_def, simp add: frame_weight_def)

declare iter_next.simps(2) [simp del]

definition map_iterator :: "('k, 'v) immutable_map \<Rightarrow> ('k, 'v) iter_stack" where
  "map_iterator m = (case map_root m of None \<Rightarrow> [] | Some r \<Rightarrow> [(r, 0)])"

text \<open>The values that a number of calls of \<open>next\<close> return, up to the first \<open>done\<close>.\<close>

fun iter_calls :: "bool \<Rightarrow> nat \<Rightarrow> ('k, 'v) iter_stack \<Rightarrow> ('k \<times> 'v) list" where
  "iter_calls reverse 0 st = []"
| "iter_calls reverse (Suc n) st =
     (case iter_next reverse st of None \<Rightarrow> [] | Some (e, st') \<Rightarrow> e # iter_calls reverse n st')"

end
