(* ===== verification/Immutable_Map_Correct.thy ===== *)
theory Immutable_Map_Correct
  imports Immutable_Map "HOL-Library.Multiset"
begin

text \<open>
  Correctness of the persistent hash map: the invariant of the nodes (\<open>node_ok\<close>) in terms of the children
  of a node by hash fragment (\<open>kids\<close>), that lookup, update and iteration agree with the list of entries,
  the interface \<open>finite_map\<close> its clients use with the map's interpretation, and the bound on the depth.
\<close>

section \<open>Entry lists\<close>

lemma entry_get_map_of: "entry_get k es = map_of es k"
  by (induction es) auto

lemma entry_index_less: "entry_index k es < length es \<longleftrightarrow> k \<in> fst ` set es"
  by (induction es) auto

lemma entry_index_hit: "k \<in> fst ` set es \<Longrightarrow> fst (es ! entry_index k es) = k"
  by (induction es) auto

lemma entry_index_value: "k \<in> fst ` set es \<Longrightarrow> Some (snd (es ! entry_index k es)) = map_of es k"
  by (induction es) auto

lemma map_of_update_at:
  assumes "k \<in> fst ` set es"
  shows "map_of (es[entry_index k es := (k, v)]) = (map_of es)(k \<mapsto> v)"
  using assms
proof (induction es)
  case (Cons e es)
  then show ?case by (cases "fst e = k") (auto simp: fun_eq_iff)
qed simp

lemma keys_update_at: "k \<in> fst ` set es \<Longrightarrow> map fst (es[entry_index k es := (k, v)]) = map fst es"
  by (induction es) auto

definition swap_remove :: "'a list \<Rightarrow> nat \<Rightarrow> 'a list" where
  "swap_remove s l = (if l = length s - 1 then butlast s else (butlast s)[l := last s])"

lemma swap_remove_mset: "l < length s \<Longrightarrow> mset (swap_remove s l) = mset s - {#s ! l#}"
proof -
  assume l: "l < length s"
  then obtain t x where s: "s = t @ [x]" by (cases s rule: rev_cases) auto
  show ?thesis
  proof (cases "l = length t")
    case False
    then have "l < length t" using l s by simp
    then show ?thesis using False s by (simp add: swap_remove_def mset_update nth_append)
  qed (simp add: s swap_remove_def)
qed

lemma entries_update_cases:
  "k \<in> fst ` set es \<Longrightarrow> entries_update es k None = swap_remove es (entry_index k es)"
  "k \<in> fst ` set es \<Longrightarrow> entries_update es k (Some v) = es[entry_index k es := (k, v)]"
  "k \<notin> fst ` set es \<Longrightarrow> entries_update es k (Some v) = es @ [(k, v)]"
  using entry_index_less [of k es] by (auto simp: entries_update_def Let_def swap_remove_def)

lemma distinct_keys_mset:
  "mset xs = mset ys \<Longrightarrow> distinct (map fst xs) \<longleftrightarrow> distinct (map fst ys)"
  by (metis mset_eq_imp_distinct_iff mset_map)

lemma swap_remove_entry:
  assumes "distinct (map fst es)" "k \<in> fst ` set es"
  defines "es' \<equiv> swap_remove es (entry_index k es)"
  shows "distinct (map fst es') \<and> map_of es' = (map_of es)(k := None) \<and> length es' = length es - 1"
proof -
  let ?e = "es ! entry_index k es"
  have l: "entry_index k es < length es" using assms(2) by (simp add: entry_index_less)
  have m: "mset es = add_mset ?e (mset es')" unfolding es'_def using l by (simp add: swap_remove_mset)
  then have m': "mset es = mset (?e # es')" by simp
  have d: "distinct (map fst (?e # es'))" using distinct_keys_mset [OF m'] assms(1) by simp
  have k: "fst ?e = k" using assms(2) by (rule entry_index_hit)
  have "map_of es = map_of (?e # es')"
    using map_of_inject_set [OF assms(1) d] m' by (metis set_mset_mset)
  then have "map_of es = (map_of es')(k \<mapsto> snd ?e)" using k by simp
  moreover have "map_of es' k = None" using d k by (auto simp: map_of_eq_None_iff)
  moreover have "length es = Suc (length es')" using arg_cong [OF m', of size] by simp
  ultimately show ?thesis using d by (auto simp: fun_eq_iff)
qed

lemma entries_update_ok:
  assumes "distinct (map fst es)" "k \<in> fst ` set es \<or> v \<noteq> None"
  shows "distinct (map fst (entries_update es k v)) \<and> map_of (entries_update es k v) = (map_of es)(k := v)"
proof (cases "k \<in> fst ` set es")
  case True
  then show ?thesis
    using assms(1) by (cases v) (simp_all add: entries_update_cases swap_remove_entry map_of_update_at keys_update_at)
next
  case False
  then obtain w where v: "v = Some w" using assms(2) by auto
  have "map_of es k = None" using False by (simp add: map_of_eq_None_iff)
  then show ?thesis using False assms(1) v
    by (auto simp: entries_update_cases map_add_def fun_eq_iff split: option.splits)
qed

lemma length_entries_update:
  "length (entries_update es k v) =
     (if k \<in> fst ` set es then (if v = None then length es - 1 else length es)
      else (if v = None then length es else Suc (length es)))"
  using entry_index_less [of k es]
  by (auto simp: entries_update_def Let_def split: option.splits)

section \<open>The invariant\<close>

text \<open>The entries of a node in the order of iteration, and its children by hash fragment.\<close>

fun entries :: "('k, 'v) node \<Rightarrow> ('k \<times> 'v) list" where
  "entries (BitmapIndexedNode l p) = concat (map entries p)"
| "entries (HashArrayMapNode n p) = concat (map (\<lambda>c. case c of None \<Rightarrow> [] | Some c \<Rightarrow> entries c) p)"
| "entries (HashCollisionNode h es) = es"
| "entries (ValueNode h e) = [e]"

definition present :: "(nat \<times> 'a option) list \<Rightarrow> (nat \<times> 'a) list" where
  "present xs = List.map_filter (\<lambda>(u, c). map_option (Pair u) c) xs"

lemma present_simps [simp]:
  "present [] = []" "present ((u, None) # xs) = present xs" "present ((u, Some c) # xs) = (u, c) # present xs"
  by (simp_all add: present_def map_filter_simps)

fun kids :: "('k, 'v) node \<Rightarrow> (nat \<times> ('k, 'v) node) list" where
  "kids (BitmapIndexedNode l p) = zip (slots l) p"
| "kids (HashArrayMapNode n p) = present (zip [0..<length p] p)"
| "kids _ = []"

lemma present_set: "(u, c) \<in> set (present xs) \<longleftrightarrow> (u, Some c) \<in> set xs"
  by (induction xs) (auto simp: present_def map_filter_simps split: option.splits)

lemma kid_size [termination_simp]: "(u, c) \<in> set (kids n) \<Longrightarrow> size c < size n"
proof (cases n)
  case (BitmapIndexedNode l p)
  assume "(u, c) \<in> set (kids n)"
  then have "c \<in> set p" using BitmapIndexedNode by (auto dest: set_zip_rightD)
  then show ?thesis using BitmapIndexedNode size_list_estimation' [of c p "size c" size] by simp
next
  case (HashArrayMapNode m p)
  assume "(u, c) \<in> set (kids n)"
  then have "Some c \<in> set p" using HashArrayMapNode by (auto simp: present_set dest: set_zip_rightD)
  then show ?thesis using HashArrayMapNode option_size [of c p] by simp
qed auto

text \<open>The shape of a node apart from its children.\<close>

fun shape_ok :: "('k \<Rightarrow> u32) \<Rightarrow> ('k, 'v) node \<Rightarrow> bool" where
  "shape_ok hash (BitmapIndexedNode l p) =
     (length p = length (slots l) \<and> (2 \<le> length p \<or> length p = 1 \<and> \<not> isLeafNode (hd p)))"
| "shape_ok hash (HashArrayMapNode n p) =
     (length p = 32 \<and> n = length (filter (\<lambda>c. c \<noteq> None) p) \<and> 8 \<le> n)"
| "shape_ok hash (HashCollisionNode h es) =
     (2 \<le> length es \<and> distinct (map fst es) \<and> list_all (\<lambda>e. hash (fst e) = h) es)"
| "shape_ok hash (ValueNode h e) = (hash (fst e) = h)"

function node_ok :: "('k \<Rightarrow> u32) \<Rightarrow> nat \<Rightarrow> ('k, 'v) node \<Rightarrow> bool" where
  "node_ok hash s n =
     (shape_ok hash n \<and>
      list_all (\<lambda>(u, c). node_ok hash (s + 5) c \<and> list_all (\<lambda>e. chunk s (hash (fst e)) = u) (entries c)) (kids n))"
  by pat_completeness auto
termination
  by (relation "measure (\<lambda>(hash, s, n). size n)") (auto simp: kid_size)

declare node_ok.simps [simp del]

definition kid_ok :: "('k \<Rightarrow> u32) \<Rightarrow> nat \<Rightarrow> nat \<Rightarrow> ('k, 'v) node \<Rightarrow> bool" where
  "kid_ok hash s u c \<longleftrightarrow> node_ok hash (s + 5) c \<and> list_all (\<lambda>e. chunk s (hash (fst e)) = u) (entries c)"

lemma entries_present:
  "concat (map (\<lambda>c. case c of None \<Rightarrow> [] | Some c \<Rightarrow> f c) p)
   = concat (map (f \<circ> snd) (present (zip us p)))" if "length us = length p"
  using that by (induction us p rule: list_induct2) (auto simp: present_def map_filter_simps split: option.splits)

lemma entries_kids:
  "\<not> isLeafNode n \<Longrightarrow> shape_ok hash n \<Longrightarrow> entries n = concat (map (entries \<circ> snd) (kids n))"
proof (cases n)
  case (BitmapIndexedNode l p)
  assume "shape_ok hash n"
  then have "map snd (kids n) = p" using BitmapIndexedNode by simp
  then have "map (entries \<circ> snd) (kids n) = map entries p" by (metis map_map)
  then show ?thesis using BitmapIndexedNode by simp
qed (auto intro: entries_present)

lemma present_keys: "map fst (present xs) = map fst (filter (\<lambda>x. snd x \<noteq> None) xs)"
  by (induction xs) (auto simp: present_def map_filter_simps split: option.splits)

lemma distinct_kids: "distinct (map fst (kids n))"
proof (cases n)
  case (BitmapIndexedNode l p)
  then show ?thesis by (simp add: map_fst_zip_take)
next
  case (HashArrayMapNode m p)
  then show ?thesis by (simp add: present_keys distinct_map_filter)
qed simp_all

lemma leaf_kids [simp]: "isLeafNode n \<Longrightarrow> kids n = []"
  by (cases n) auto

lemma node_ok_kids:
  "node_ok hash s n \<longleftrightarrow> shape_ok hash n \<and> (\<forall>u c. map_of (kids n) u = Some c \<longrightarrow> kid_ok hash s u c)"
  by (subst node_ok.simps) (auto simp: list_all_iff kid_ok_def distinct_kids)

lemma leaf_ok: "isLeafNode n \<Longrightarrow> node_ok hash s n = shape_ok hash n"
  by (simp add: node_ok_kids)

text \<open>What a list of children with distinct fragments holds.\<close>

lemma map_of_kids:
  assumes "distinct (map fst ks)" "\<forall>u c. map_of ks u = Some c \<longrightarrow> kid_ok hash s u c"
  shows "map_of (concat (map (entries \<circ> snd) ks)) k =
    (case map_of ks (chunk s (hash k)) of None \<Rightarrow> None | Some c \<Rightarrow> map_of (entries c) k)"
  using assms
proof (induction ks)
  case (Cons x ks)
  obtain u c where x: "x = (u, c)" by (cases x)
  have c: "kid_ok hash s u c" using Cons.prems x by simp
  have rest: "\<forall>u c. map_of ks u = Some c \<longrightarrow> kid_ok hash s u c"
    using Cons.prems x by (auto dest: map_of_SomeD simp: image_iff)
  have out: "map_of (entries c) k = None" if "chunk s (hash k) \<noteq> u"
    using c that by (auto simp: kid_ok_def list_all_iff map_of_eq_None_iff)
  have new: "map_of ks u = None" using Cons.prems x by (simp add: map_of_eq_None_iff)
  show ?case
    using Cons.IH [OF _ rest] Cons.prems x out new
    by (auto simp: map_add_def split: option.splits)
qed simp

section \<open>Lookup through the children\<close>

lemma chunk_less: "chunk n h < 32"
proof -
  have "unat (x AND 31) < 32" for x :: u32
    using word_and_le1 [of x 31] by (simp add: word_le_nat_alt)
  then show ?thesis by (simp add: chunk_def)
qed

lemma bit_test: "u < 32 \<Longrightarrow> (l AND push_bit u 1 = 0) \<longleftrightarrow> \<not> bit l u" for l :: u32
proof -
  assume u: "u < 32"
  have "bit (l AND push_bit u 1) i \<longleftrightarrow> i = u \<and> bit l u" for i
    using u by (auto simp: bit_and_iff bit_exp_iff possible_bit_word)
  then show ?thesis by (metis bit_word_eqI bit_0_eq bot_apply bot_bool_def)
qed

lemma map_of_slots:
  assumes "length p = length (slots l)"
  shows "map_of (zip (slots l) p) u = (if bit l u then Some (p ! slot_index l u) else None)"
proof (cases "bit l u")
  case True
  then have i: "slot_index l u < length (slots l)" "slots l ! slot_index l u = u" using slot_at_index by auto
  then have "map_of (zip (slots l) p) (slots l ! slot_index l u) = Some (p ! slot_index l u)"
    using assms by (intro map_of_zip_nth) auto
  then show ?thesis using True i by simp
next
  case False
  then show ?thesis using set_slots [of u l] by (auto simp: map_of_eq_None_iff dest: set_zip_leftD)
qed

lemma map_of_present:
  "distinct (map fst xs) \<Longrightarrow> map_of (present xs) u = (case map_of xs u of Some c \<Rightarrow> c | None \<Rightarrow> None)"
proof (induction xs)
  case (Cons x xs)
  obtain v c where x: "x = (v, c)" by (cases x)
  have "map_of xs v = None" using Cons.prems x by (simp add: map_of_eq_None_iff)
  then show ?case using Cons x by (cases c) auto
qed simp

lemma map_of_positions: "map_of (zip [0..<length p] p) u = item_at p u"
proof (cases "u < length p")
  case True
  then have "map_of (zip [0..<length p] p) ([0..<length p] ! u) = Some (p ! u)" by (intro map_of_zip_nth) auto
  then show ?thesis using True by (simp add: item_at_def)
qed (auto simp: item_at_def map_of_eq_None_iff dest: set_zip_leftD)

lemma kids_array: "map_of (kids (HashArrayMapNode n p)) u = (case item_at p u of Some c \<Rightarrow> c | None \<Rightarrow> None)"
  by (simp add: map_of_present map_of_positions)

lemma kids_bitmap:
  "length p = length (slots l) \<Longrightarrow>
   map_of (kids (BitmapIndexedNode l p)) u = (if bit l u then item_at p (slot_index l u) else None)"
  using slot_at_index by (auto simp: map_of_slots item_at_def)

lemma get_kids:
  assumes "\<not> isLeafNode n" "shape_ok hash n"
  shows "node_get hash s k n =
    (case map_of (kids n) (chunk s (hash k)) of None \<Rightarrow> None | Some c \<Rightarrow> node_get hash (s + 5) k c)"
proof (cases n)
  case (BitmapIndexedNode l p)
  then show ?thesis
    using assms kids_bitmap [of p l "chunk s (hash k)"] bit_test [OF chunk_less, of l s "hash k"]
      popCount_index [OF chunk_less, of l s "hash k"]
    by (simp add: Let_def del: kids.simps split: option.splits)
next
  case (HashArrayMapNode m p)
  then show ?thesis by (simp add: kids_array del: kids.simps split: option.splits)
qed (use assms in auto)

lemma get_entries: "node_ok hash s n \<Longrightarrow> node_get hash s k n = map_of (entries n) k"
proof (induction n arbitrary: s rule: measure_induct_rule [of size])
  case (less n)
  show ?case
  proof (cases "isLeafNode n")
    case True
    then show ?thesis by (cases n) (auto simp: entry_get_map_of)
  next
    case False
    have ok: "shape_ok hash n" "\<forall>u c. map_of (kids n) u = Some c \<longrightarrow> kid_ok hash s u c"
      using less.prems by (simp_all add: node_ok_kids)
    have "node_get hash (s + 5) k c = map_of (entries c) k" if "map_of (kids n) u = Some c" for u c
      using less.IH [of c "s + 5"] kid_size [OF map_of_SomeD [OF that]] ok(2) that by (simp add: kid_ok_def)
    then show ?thesis
      unfolding get_kids [OF False ok(1)] entries_kids [OF False ok(1)] map_of_kids [OF distinct_kids ok(2)]
      by (auto split: option.splits)
  qed
qed

lemma distinct_concat_kids:
  assumes "distinct (map fst ks)" "\<forall>u c. map_of ks u = Some c \<longrightarrow> kid_ok hash s u c \<and> distinct (map fst (entries c))"
  shows "distinct (map fst (concat (map (entries \<circ> snd) ks)))"
  using assms
proof (induction ks)
  case (Cons x ks)
  obtain u c where x: "x = (u, c)" by (cases x)
  have rest: "\<forall>u c. map_of ks u = Some c \<longrightarrow> kid_ok hash s u c \<and> distinct (map fst (entries c))"
    using Cons.prems x by (metis domI dom_map_of_conv_image_fst distinct.simps(2) list.simps(9) map_of_Cons_code(2) fst_conv list.set_map)
  have u: "u \<notin> fst ` set ks" "kid_ok hash s u c" "distinct (map fst (entries c))"
    using Cons.prems(1) Cons.prems(2) [rule_format, of u c] x by simp_all
  have "fst ` set (entries c) \<inter> fst ` set (concat (map (entries \<circ> snd) ks)) = {}"
  proof (rule ccontr)
    assume "\<not> ?thesis"
    then obtain k v w c' where k: "(k, v) \<in> set (entries c)" "(k, w) \<in> set (entries (snd c'))" "c' \<in> set ks" by auto
    then have "kid_ok hash s (fst c') (snd c')" using rest Cons.prems(1) x by (metis distinct.simps(2) list.simps(9) map_of_is_SomeI prod.collapse)
    then have "fst c' = u" using k u(2) unfolding kid_ok_def list_all_iff by (metis fst_conv)
    then show False using k(3) u(1) by auto
  qed
  then show ?case using Cons.IH [OF _ rest] Cons.prems x u(3) by (simp add: image_Un)
qed simp

lemma distinct_entries: "node_ok hash s n \<Longrightarrow> distinct (map fst (entries n))"
proof (induction n arbitrary: s rule: measure_induct_rule [of size])
  case (less n)
  show ?case
  proof (cases "isLeafNode n")
    case True
    then show ?thesis using less.prems by (cases n) (auto simp: leaf_ok)
  next
    case False
    have ok: "shape_ok hash n" "\<forall>u c. map_of (kids n) u = Some c \<longrightarrow> kid_ok hash s u c"
      using less.prems by (simp_all add: node_ok_kids)
    have "\<forall>u c. map_of (kids n) u = Some c \<longrightarrow> kid_ok hash s u c \<and> distinct (map fst (entries c))"
      using ok(2) less.IH kid_size map_of_SomeD unfolding kid_ok_def by metis
    then show ?thesis unfolding entries_kids [OF False ok(1)] by (rule distinct_concat_kids [OF distinct_kids])
  qed
qed

lemma kids_count:
  assumes "\<not> isLeafNode n" "shape_ok hash n"
  shows "2 \<le> length (kids n) \<or> (\<exists>x. kids n = [x] \<and> \<not> isLeafNode (snd x))"
proof (cases n)
  case (BitmapIndexedNode l p)
  then show ?thesis using assms(2) by (cases "slots l"; cases p) auto
next
  case (HashArrayMapNode m p)
  then have "length (filter (\<lambda>x. snd x \<noteq> None) (zip [0..<length p] p)) = length (filter (\<lambda>c. c \<noteq> None) p)"
    using length_filter_map [of "\<lambda>c. c \<noteq> None" snd "zip [0..<length p] p"] by (simp add: comp_def)
  then have "length (kids n) = m"
    using HashArrayMapNode assms(2) arg_cong [OF present_keys, of length "zip [0..<length p] p"] by simp
  then show ?thesis using assms(2) HashArrayMapNode by simp
qed (use assms(1) in auto)

lemma enough_entries: "node_ok hash s n \<Longrightarrow> (if isLeafNode n then 1 else 2) \<le> length (entries n)"
proof (induction n arbitrary: s rule: measure_induct_rule [of size])
  case (less n)
  show ?case
  proof (cases "isLeafNode n")
    case True
    then show ?thesis using less.prems by (cases n) (auto simp: leaf_ok)
  next
    case False
    have ok: "shape_ok hash n" "\<forall>u c. map_of (kids n) u = Some c \<longrightarrow> kid_ok hash s u c"
      using less.prems by (simp_all add: node_ok_kids)
    have kid: "(if isLeafNode (snd x) then 1 else 2) \<le> length (entries (snd x))" if "x \<in> set (kids n)" for x
    proof -
      have "map_of (kids n) (fst x) = Some (snd x)" using that distinct_kids by (metis map_of_is_SomeI prod.collapse)
      then show ?thesis using less.IH kid_size ok(2) that unfolding kid_ok_def by (metis prod.collapse)
    qed
    have "sum_list (map (\<lambda>x. 1) (kids n)) \<le> sum_list (map (length \<circ> (entries \<circ> snd)) (kids n))"
    proof (rule sum_list_mono)
      fix x assume "x \<in> set (kids n)"
      then show "1 \<le> (length \<circ> (entries \<circ> snd)) x" using kid [of x] by (simp split: if_splits)
    qed
    then have many: "length (kids n) \<le> length (entries n)"
      unfolding entries_kids [OF False ok(1)] by (simp add: length_concat comp_def sum_list_triv)
    have "2 \<le> length (kids n) \<or> (\<exists>x. kids n = [x] \<and> \<not> isLeafNode (snd x))" by (rule kids_count [OF False ok(1)])
    then show ?thesis
    proof
      assume "\<exists>x. kids n = [x] \<and> \<not> isLeafNode (snd x)"
      then obtain x where "kids n = [x]" "\<not> isLeafNode (snd x)" by blast
      then show ?thesis using kid [of x] False unfolding entries_kids [OF False ok(1)] by simp
    qed (use many False in simp)
  qed
qed

section \<open>Merging a leaf with an entry\<close>

lemma leaf_hash: "isLeafNode e \<Longrightarrow> shape_ok hash e \<Longrightarrow> x \<in> set (entries e) \<Longrightarrow> hash (fst x) = keyHash e"
  by (cases e) (auto simp: list_all_iff)

lemma slots_0 [simp]: "slots 0 = []"
  by (simp add: slots_def)

lemma slots_single: "a < 32 \<Longrightarrow> slots (push_bit a 1) = [a]"
  using slots_insert [of a 0] by simp

lemma slots_pair:
  assumes "a < u" "u < 32"
  shows "slots (push_bit a 1 OR push_bit u 1) = [a, u]"
proof -
  have b: "bit (push_bit a 1 :: u32) i \<longleftrightarrow> i = a" for i using assms by (auto simp: bit_exp_iff possible_bit_word)
  have "[0..<u] = [0..<a] @ a # [Suc a..<u]" using assms upt_add_eq_append [of 0 a "u - a"] upt_conv_Cons [of a u] by simp
  then have "slot_index (push_bit a 1) u = 1" by (simp add: slot_index_def b filter_empty_conv del: push_bit_of_1)
  then show ?thesis
    using slots_insert [of u "push_bit a 1"] assms slots_single [of a] b by (simp del: push_bit_of_1)
qed

lemma merge_nonleaf: "keyHash e \<noteq> r \<Longrightarrow> \<not> isLeafNode (mergeIntoNode e n r x)"
  by (subst mergeIntoNode.simps) (simp add: Let_def)

lemma set_entries_merge:
  "(keyHash e = r \<longrightarrow> (\<exists>h y. e = ValueNode h y)) \<Longrightarrow> set (entries (mergeIntoNode e n r x)) = insert x (set (entries e))"
proof (induction e n r x rule: mergeIntoNode.induct)
  case (1 e n r x)
  then show ?case by (subst mergeIntoNode.simps) (auto simp: Let_def)
qed

lemma merge_ok:
  assumes "isLeafNode e" "shape_ok hash e" "hash (fst x) = r" "fst x \<notin> fst ` set (entries e)"
    and "keyHash e = r \<longrightarrow> (\<exists>h y. e = ValueNode h y)"
  shows "node_ok hash n (mergeIntoNode e n r x)"
  using assms
proof (induction e n r x rule: mergeIntoNode.induct)
  case (1 e n r x)
  let ?a = "chunk n (keyHash e)" and ?u = "chunk n r"
  show ?case
  proof (cases "keyHash e = r")
    case True
    then obtain h y where "e = ValueNode h y" using "1.prems"(5) by blast
    then show ?thesis using True "1.prems" by (subst mergeIntoNode.simps) (auto simp: leaf_ok)
  next
    case False
    have lt: "?a < 32" "?u < 32" by (rule chunk_less)+
    have e: "kid_ok hash n ?a e" using "1.prems"(1,2) leaf_hash [OF "1.prems"(1,2)] by (simp add: kid_ok_def leaf_ok list_all_iff)
    have x: "kid_ok hash n ?u (ValueNode r x)" using "1.prems"(3) by (auto simp: kid_ok_def leaf_ok)
    show ?thesis
    proof (cases "?a = ?u")
      case True
      let ?c = "mergeIntoNode e (n + 5) r x"
      have "kid_ok hash n ?u ?c"
        using "1.IH" [OF False refl refl True "1.prems"] set_entries_merge [of e r "n + 5" x] "1.prems" leaf_hash [OF "1.prems"(1,2)] True
        by (auto simp: kid_ok_def list_all_iff)
      then show ?thesis
        using False True lt merge_nonleaf [OF False, of "n + 5" x]
        by (subst mergeIntoNode.simps) (simp add: node_ok_kids Let_def slots_single del: push_bit_of_1)
    next
      case ne: False
      show ?thesis
      proof (cases "?a < ?u")
        case True
        then show ?thesis using False lt e x slots_pair [OF True lt(2)]
          by (subst mergeIntoNode.simps) (simp add: node_ok_kids Let_def del: push_bit_of_1)
      next
        case gt: False
        then have "slots (push_bit ?a 1 OR push_bit ?u 1) = [?u, ?a]"
          using slots_pair [of ?u ?a] ne lt by (simp add: or.commute del: push_bit_of_1)
        then show ?thesis using False gt ne e x
          by (subst mergeIntoNode.simps) (simp add: node_ok_kids Let_def del: push_bit_of_1)
      qed
    qed
  qed
qed

lemma merge_map_of:
  assumes "isLeafNode e" "shape_ok hash e" "hash (fst x) = r" "fst x \<notin> fst ` set (entries e)"
    and "keyHash e = r \<longrightarrow> (\<exists>h y. e = ValueNode h y)"
  shows "map_of (entries (mergeIntoNode e n r x)) = (map_of (entries e))(fst x \<mapsto> snd x)"
proof -
  let ?m = "mergeIntoNode e n r x"
  have d: "distinct (map fst (entries ?m))" by (rule distinct_entries [OF merge_ok [OF assms]])
  have d': "distinct (map fst (x # entries e))"
    using assms distinct_entries [of hash 0 e] by (simp add: leaf_ok)
  have "map_of (entries ?m) = map_of (x # entries e)"
    using map_of_inject_set [OF d d'] set_entries_merge [OF assms(5)] by (metis list.simps(15))
  then show ?thesis by (cases x) simp
qed

section \<open>Growing, shrinking and converting the child arrays\<close>

lemma spliceIn_eq: "t \<le> length e \<Longrightarrow> spliceIn e t n = take t e @ n # drop t e"
  by (rule nth_equalityI) (auto simp: spliceIn_def nth_append nth_Cons min_def split: nat.splits intro!: arg_cong [of _ _ "(!) e"])

lemma spliceOut_eq: "t < length e \<Longrightarrow> spliceOut e t = take t e @ drop (Suc t) e"
  by (rule nth_equalityI) (auto simp: spliceOut_def nth_append min_def)

lemma map_of_insert: "u \<notin> fst ` set xs \<Longrightarrow> map_of (xs @ (u, h) # ys) = (map_of (xs @ ys))(u \<mapsto> h)"
  by (auto simp: fun_eq_iff map_add_def map_of_eq_None_iff [symmetric] split: option.splits)

lemma map_of_delete:
  "u \<notin> fst ` set xs \<Longrightarrow> u \<notin> fst ` set ys \<Longrightarrow> map_of (xs @ ys) = (map_of (xs @ (u, c) # ys))(u := None)"
  by (auto simp: fun_eq_iff map_add_def map_of_eq_None_iff [symmetric] split: option.splits)

lemma kids_insert:
  assumes "length p = length (slots l)" "u < 32" "\<not> bit l u"
  shows "map_of (kids (BitmapIndexedNode (l OR push_bit u 1) (spliceIn p (slot_index l u) h)))
      = (map_of (kids (BitmapIndexedNode l p)))(u \<mapsto> h)"
    and "length (spliceIn p (slot_index l u) h) = length (slots (l OR push_bit u 1))"
proof -
  let ?f = "slot_index l u" and ?S = "slots l"
  have f: "?f \<le> length p" using slot_index_le [OF assms(2)] assms(1) by simp
  have S: "slots (l OR push_bit u 1) = take ?f ?S @ u # drop ?f ?S" by (rule slots_insert [OF assms(2,3)])
  have p: "spliceIn p ?f h = take ?f p @ h # drop ?f p" by (rule spliceIn_eq [OF f])
  have u: "u \<notin> fst ` set (zip (take ?f ?S) (take ?f p))"
    using set_slots [of u l] assms(3) by (auto dest!: set_zip_leftD in_set_takeD)
  have "zip ?S p = zip (take ?f ?S) (take ?f p) @ zip (drop ?f ?S) (drop ?f p)"
    using assms(1) by (metis append_take_drop_id length_take zip_append)
  then show "map_of (kids (BitmapIndexedNode (l OR push_bit u 1) (spliceIn p ?f h)))
      = (map_of (kids (BitmapIndexedNode l p)))(u \<mapsto> h)"
    unfolding kids.simps S p using assms(1) map_of_insert [OF u] by simp
  show "length (spliceIn p ?f h) = length (slots (l OR push_bit u 1))" unfolding S p using assms(1) by simp
qed

lemma kids_delete:
  assumes "length p = length (slots l)" "bit l u"
  shows "map_of (kids (BitmapIndexedNode (l XOR push_bit u 1) (spliceOut p (slot_index l u))))
      = (map_of (kids (BitmapIndexedNode l p)))(u := None)"
    and "length (spliceOut p (slot_index l u)) = length (slots (l XOR push_bit u 1))"
    and "zip (slots (l XOR push_bit u 1)) (spliceOut p (slot_index l u))
      = spliceOut (zip (slots l) p) (slot_index l u)"
proof -
  let ?f = "slot_index l u" and ?S = "slots l"
  have f: "?f < length p" "?S ! ?f = u" using slot_at_index [OF assms(2)] assms(1) by auto
  have S: "slots (l XOR push_bit u 1) = take ?f ?S @ drop (Suc ?f) ?S" by (rule slots_remove [OF assms(2)])
  have p: "spliceOut p ?f = take ?f p @ drop (Suc ?f) p" by (rule spliceOut_eq [OF f(1)])
  have d: "distinct (take ?f ?S @ u # drop (Suc ?f) ?S)"
    using distinct_slots [of l] f assms(1) by (metis id_take_nth_drop)
  have z: "zip ?S p = zip (take ?f ?S) (take ?f p) @ (u, p ! ?f) # zip (drop (Suc ?f) ?S) (drop (Suc ?f) p)"
    using f assms(1) by (metis id_take_nth_drop length_take zip_append zip_Cons_Cons)
  have u: "u \<notin> fst ` set (zip (take ?f ?S) (take ?f p))" "u \<notin> fst ` set (zip (drop (Suc ?f) ?S) (drop (Suc ?f) p))"
    using d by (auto dest: set_zip_leftD)
  show "map_of (kids (BitmapIndexedNode (l XOR push_bit u 1) (spliceOut p ?f)))
      = (map_of (kids (BitmapIndexedNode l p)))(u := None)"
    unfolding kids.simps S p z using assms(1) map_of_delete [OF u] by simp
  show "length (spliceOut p ?f) = length (slots (l XOR push_bit u 1))" unfolding S p using assms(1) by simp
  show "zip (slots (l XOR push_bit u 1)) (spliceOut p ?f) = spliceOut (zip ?S p) ?f"
    unfolding S p using f assms(1) by (simp add: spliceOut_eq take_zip drop_zip)
qed

lemma kids_replace:
  assumes "length p = length (slots l)" "bit l u"
  shows "map_of (kids (BitmapIndexedNode l (p[slot_index l u := h]))) = (map_of (kids (BitmapIndexedNode l p)))(u \<mapsto> h)"
proof
  fix w
  have "w = u" if "slot_index l w = slot_index l u" "bit l w" using that assms(2) slot_at_index by metis
  then show "map_of (kids (BitmapIndexedNode l (p[slot_index l u := h]))) w = ((map_of (kids (BitmapIndexedNode l p)))(u \<mapsto> h)) w"
    using assms slot_at_index [of l w] slot_at_index [of l u]
    by (auto simp: map_of_slots nth_list_update)
qed

text \<open>\<open>expandNodes\<close>\<close>

definition nat_slots :: "nat \<Rightarrow> nat \<Rightarrow> nat list" where
  "nat_slots m n = filter (bit n) [0..<m]"

lemma nat_slots_Suc: "nat_slots (Suc m) n = (if odd n then [0] else []) @ map Suc (nat_slots m (n div 2))"
proof -
  have "[0..<Suc m] = 0 # map Suc [0..<m]" by (simp add: map_Suc_upt upt_conv_Cons del: upt_Suc)
  then show ?thesis by (simp add: nat_slots_def filter_map comp_def bit_Suc bit_0 del: upt_Suc)
qed

lemma nat_slots_unat: "nat_slots 32 (unat l) = slots l" for l :: u32
  by (auto simp: nat_slots_def slots_def bit_unsigned_iff intro!: filter_cong)

lemma present_shift: "present (zip (map Suc us) p) = map (\<lambda>(u, c). (Suc u, c)) (present (zip us p))"
proof (induction us arbitrary: p)
  case (Cons u us)
  then show ?case by (cases p; cases "hd p") auto
qed simp

lemma zip_Suc_upt: "zip [0..<length (c # a)] (c # a) = (0, c) # zip (map Suc [0..<length a]) a"
proof -
  have "[0..<length (c # a)] = 0 # map Suc [0..<length a]" by (simp add: map_Suc_upt upt_conv_Cons del: upt_Suc)
  then show ?thesis by simp
qed

lemma expand_loop_kids:
  assumes "n < 2 ^ m" "length t = length (nat_slots m n)"
  shows "present (zip [0..<length (fst (expand_loop n t))] (fst (expand_loop n t))) = zip (nat_slots m n) t
    \<and> snd (expand_loop n t) = length t \<and> length (fst (expand_loop n t)) \<le> m
    \<and> length (filter (\<lambda>c. c \<noteq> None) (fst (expand_loop n t))) = length t"
  using assms
proof (induction n t arbitrary: m rule: expand_loop.induct)
  case (1 n t)
  show ?case
  proof (cases "n = 0")
    case True
    then have "nat_slots m n = []" by (simp add: nat_slots_def)
    then show ?thesis using True "1.prems" by (simp add: expand_loop.simps)
  next
    case n: False
    obtain j where m: "m = Suc j" using n "1.prems"(1) by (cases m) auto
    have half: "n div 2 < 2 ^ j" using "1.prems"(1) m by (simp add: less_mult_imp_div_less mult.commute)
    show ?thesis
    proof (cases "odd n")
      case True
      then obtain c r where t: "t = c # r" "length r = length (nat_slots j (n div 2))"
        using "1.prems"(2) m by (cases t) (auto simp: nat_slots_Suc)
      note IH = "1.IH"(1) [OF n True half, unfolded t, simplified, OF t(2)]
      obtain a i where ai: "expand_loop (n div 2) r = (a, i)" by (cases "expand_loop (n div 2) r")
      have e: "expand_loop n t = (Some c # a, Suc i)" using n True t ai by (subst expand_loop.simps) (simp add: item_at_def)
      show ?thesis using IH ai t True m unfolding e
        by (simp only: fst_conv snd_conv zip_Suc_upt present_simps present_shift)
          (auto simp: nat_slots_Suc zip_map1)
    next
      case False
      then have t: "length t = length (nat_slots j (n div 2))" using "1.prems"(2) m by (simp add: nat_slots_Suc)
      note IH = "1.IH"(2) [OF n False half t]
      obtain a i where ai: "expand_loop (n div 2) t = (a, i)" by (cases "expand_loop (n div 2) t")
      have e: "expand_loop n t = (None # a, i)" using n False ai by (subst expand_loop.simps) simp
      show ?thesis using IH ai False m unfolding e
        by (simp only: fst_conv snd_conv zip_Suc_upt present_simps present_shift)
          (auto simp: nat_slots_Suc zip_map1)
    qed
  qed
qed

lemma unat_u32: "unat l < 2 ^ 32" for l :: u32
  using unsigned_less [where 'a = nat, of l] by simp

lemma present_none: "present (zip us (replicate n None)) = []"
  by (induction n arbitrary: us) (auto simp: zip_Cons1 split: list.splits, case_tac us, auto)

lemma present_append: "present (xs @ ys) = present xs @ present ys"
  by (induction xs) (auto simp: present_def map_filter_simps split: option.splits)

lemma kids_padded:
  "length a \<le> 32 \<Longrightarrow> present (zip [0..<32] (a @ replicate (32 - length a) None)) = present (zip [0..<length a] a)"
proof -
  assume "length a \<le> 32"
  then have "[0..<32] = [0..<length a] @ [length a..<32]" using upt_add_eq_append [of 0 "length a" "32 - length a"] by simp
  then show ?thesis by (simp add: present_append present_none)
qed

lemma count_update:
  "i < length p \<Longrightarrow> length (filter P (p[i := x])) + (if P (p ! i) then 1 else 0) = length (filter P p) + (if P x then 1 else 0)"
proof (induction p arbitrary: i)
  case (Cons y p)
  then show ?case by (cases i) auto
qed simp

lemma kids_array_update:
  "u < length p \<Longrightarrow> map_of (kids (HashArrayMapNode n (p[u := f]))) = (map_of (kids (HashArrayMapNode m p)))(u := f)"
  unfolding kids_array by (auto simp: fun_eq_iff kids_array item_at_def nth_list_update)

lemma expandNodes_kids:
  assumes "length p = length (slots l)" "u < 32" "\<not> bit l u" "16 \<le> length p"
  shows "map_of (kids (expandNodes p l u h)) = (map_of (kids (BitmapIndexedNode l p)))(u \<mapsto> h)"
    and "shape_ok hash (expandNodes p l u h)" and "\<not> isLeafNode (expandNodes p l u h)"
proof -
  obtain a i where e: "expand_loop (unat l) p = (a, i)" by (cases "expand_loop (unat l) p")
  have loop: "present (zip [0..<length a] a) = zip (slots l) p" "i = length p" "length a \<le> 32"
    "length (filter (\<lambda>c. c \<noteq> None) a) = length p"
    using expand_loop_kids [of "unat l" 32 p] assms(1) e unat_u32 [of l] by (simp_all add: nat_slots_unat)
  let ?b = "a @ replicate (32 - length a) None"
  have b: "length ?b = 32" using loop(3) by simp
  have k: "kids (HashArrayMapNode n ?b) = kids (BitmapIndexedNode l p)" for n
    using kids_padded [OF loop(3)] loop(1) b by simp
  have x: "expandNodes p l u h = HashArrayMapNode (Suc i) (?b[u := Some h])" by (simp add: expandNodes_def e)
  show "map_of (kids (expandNodes p l u h)) = (map_of (kids (BitmapIndexedNode l p)))(u \<mapsto> h)"
    unfolding x using kids_array_update [of u ?b "Suc i" "Some h" 0] b assms(2) k by metis
  have "map_of (kids (HashArrayMapNode 0 ?b)) u = None" unfolding k using kids_bitmap [OF assms(1)] assms(3) by simp
  then have free: "?b ! u = None" unfolding kids_array using b assms(2) by (simp add: item_at_def)
  have "length (filter (\<lambda>c. c \<noteq> None) ?b) = length p" using loop(4) by (simp add: filter_empty_conv)
  then have "length (filter (\<lambda>c. c \<noteq> None) (?b[u := Some h])) = Suc (length p)"
    using count_update [of u ?b "\<lambda>c. c \<noteq> None" "Some h"] b assms(2) free by simp
  then show "shape_ok hash (expandNodes p l u h)" unfolding x using b loop(2) assms(4) by simp
  show "\<not> isLeafNode (expandNodes p l u h)" unfolding x by simp
qed

text \<open>\<open>packNodes\<close>\<close>

lemma bits_below_slots:
  assumes "\<forall>i. bit l i \<longrightarrow> i < u" "u < 32"
  shows "slots (l OR push_bit u 1) = slots l @ [u]"
proof -
  have "\<not> bit l u" using assms(1) by blast
  moreover have "filter (bit l) [Suc u..<32] = []" using assms(1) by (auto simp: filter_empty_conv)
  ultimately have "slot_index l u = length (slots l)" using slots_split [OF assms(2)] by (simp add: slot_index_def)
  then show ?thesis using slots_insert [OF assms(2)] \<open>\<not> bit l u\<close> by simp
qed

lemma pack_loop_kids:
  assumes "pack_loop t u r l a = (l', a')" "\<forall>i. bit l i \<longrightarrow> i < u" "u + length t \<le> 32" "length a = length (slots l)"
  shows "length a' = length (slots l')
    \<and> zip (slots l') a' = zip (slots l) a @ filter (\<lambda>x. fst x \<noteq> r) (present (zip [u..<u + length t] t))"
  using assms
proof (induction t u r l a rule: pack_loop.induct)
  case (2 t u r l a)
  then have "\<forall>i. bit l i \<longrightarrow> i < Suc u" using less_Suc_eq by blast
  then show ?case using 2 by (simp add: upt_conv_Cons del: upt_Suc)
next
  case (3 c t u r l a)
  show ?case
  proof (cases "u = r")
    case True
    have "\<forall>i. bit l i \<longrightarrow> i < Suc u" using 3 less_Suc_eq by blast
    then show ?thesis using 3 True by (simp add: upt_conv_Cons del: upt_Suc)
  next
    case False
    let ?l = "l OR push_bit u 1"
    have u: "u < 32" using "3.prems" by simp
    have s: "slots ?l = slots l @ [u]" by (rule bits_below_slots [OF "3.prems"(2) u])
    have b: "\<forall>i. bit ?l i \<longrightarrow> i < Suc u"
      using "3.prems"(2) by (auto simp: bit_or_iff bit_exp_iff less_Suc_eq)
    have p: "pack_loop t (Suc u) r ?l (a @ [c]) = (l', a')" using "3.prems"(1) False by simp
    have len: "Suc u + length t \<le> 32" "length (a @ [c]) = length (slots ?l)" using "3.prems" s by simp_all
    show ?thesis
      using "3.IH"(1) [OF False p b len] s "3.prems"(4) False
      by (simp add: upt_conv_Cons del: push_bit_of_1 upt_Suc)
  qed
qed simp

lemma map_of_filter_off: "map_of (filter (\<lambda>x. fst x \<noteq> r) xs) = (map_of xs)(r := None)"
  by (induction xs) (auto simp: fun_eq_iff)

lemma packNodes_kids:
  assumes "length p = 32" "u < 32" "p ! u \<noteq> None" "2 < length (filter (\<lambda>c. c \<noteq> None) p)"
  shows "map_of (kids (packNodes p u)) = (map_of (kids (HashArrayMapNode n p)))(u := None)"
    and "shape_ok hash (packNodes p u)" and "\<not> isLeafNode (packNodes p u)"
proof -
  obtain l a where e: "pack_loop p 0 u 0 [] = (l, a)" by (cases "pack_loop p 0 u 0 []")
  have k: "length a = length (slots l)" "zip (slots l) a = filter (\<lambda>x. fst x \<noteq> u) (present (zip [0..<length p] p))"
    using pack_loop_kids [OF e] assms(1) by simp_all
  have x: "packNodes p u = BitmapIndexedNode l a" by (simp add: packNodes_def e)
  show m: "map_of (kids (packNodes p u)) = (map_of (kids (HashArrayMapNode n p)))(u := None)"
    unfolding x by (simp add: k map_of_filter_off)
  have "length (kids (HashArrayMapNode n p)) = length (filter (\<lambda>c. c \<noteq> None) p)"
    using arg_cong [OF present_keys, of length "zip [0..<length p] p"]
      length_filter_map [of "\<lambda>c. c \<noteq> None" snd "zip [0..<length p] p"] by (simp add: comp_def)
  moreover have "length (kids (HashArrayMapNode n p)) \<le> Suc (length a)"
  proof -
    let ?K = "kids (HashArrayMapNode n p)"
    have "length (filter (\<lambda>x. fst x = u) ?K) \<le> 1"
    proof -
      have "distinct (map fst (filter (\<lambda>x. fst x = u) ?K))" by (rule distinct_map_filter [OF distinct_kids])
      moreover have "set (map fst (filter (\<lambda>x. fst x = u) ?K)) \<subseteq> {u}" by auto
      ultimately show ?thesis by (metis card_mono distinct_card finite.emptyI finite_insert is_singletonI is_singleton_altdef length_map)
    qed
    moreover have "length a = length (filter (\<lambda>x. fst x \<noteq> u) ?K)" using arg_cong [OF k(2), of length] k(1) by simp
    ultimately show ?thesis using sum_length_filter_compl [of "\<lambda>x. fst x = u" ?K] by simp
  qed
  ultimately have "2 \<le> length a" using assms(4) by simp
  then show "shape_ok hash (packNodes p u)" unfolding x using k(1) by simp
  show "\<not> isLeafNode (packNodes p u)" unfolding x by simp
qed

section \<open>Update\<close>

text \<open>What an update of an optional node at a level promises, its two flags included.\<close>

definition opt_entries :: "('k, 'v) node option \<Rightarrow> ('k \<times> 'v) list" where
  "opt_entries d = (case d of None \<Rightarrow> [] | Some c \<Rightarrow> entries c)"

lemma opt_entries_simps [simp]: "opt_entries None = []" "opt_entries (Some c) = entries c"
  by (simp_all add: opt_entries_def)

definition upd_ok ::
  "('k \<Rightarrow> u32) \<Rightarrow> nat \<Rightarrow> 'k \<Rightarrow> 'v option \<Rightarrow> ('k, 'v) node option \<Rightarrow> ('k, 'v) node option \<times> bool \<times> bool \<Rightarrow> bool" where
  "upd_ok hash s k v d r = (case r of (h, i, a) \<Rightarrow>
     map_of (opt_entries h) = (map_of (opt_entries d))(k := v)
     \<and> (\<forall>c. h = Some c \<longrightarrow> node_ok hash s c)
     \<and> (a \<longleftrightarrow> map_of (opt_entries d) k \<noteq> v)
     \<and> (i \<longleftrightarrow> (map_of (opt_entries d) k = None) \<noteq> (v = None))
     \<and> (\<not> a \<longrightarrow> h = d))"

lemma upd_new:
  "upd_ok hash s k v None
     (case v of None \<Rightarrow> (None, False, False) | Some v \<Rightarrow> (Some (ValueNode (hash k) (k, v)), True, True))"
  by (cases v) (auto simp: upd_ok_def leaf_ok fun_eq_iff)

lemma upd_same:
  "node_ok hash s n \<Longrightarrow> map_of (entries n) k = v \<Longrightarrow> upd_ok hash s k v (Some n) (Some n, False, False)"
  by (auto simp: upd_ok_def)

lemma kids_update:
  assumes d: "distinct (map fst ks)" "distinct (map fst ks')"
    and ok: "\<forall>u c. map_of ks u = Some c \<longrightarrow> kid_ok hash s u c"
    and u: "u = chunk s (hash k)" "map_of ks' = (map_of ks)(u := h)"
    and up: "upd_ok hash (s + 5) k v (map_of ks u) (h, i, a)"
  shows "\<forall>u c. map_of ks' u = Some c \<longrightarrow> kid_ok hash s u c"
    and "map_of (concat (map (entries \<circ> snd) ks')) = (map_of (concat (map (entries \<circ> snd) ks)))(k := v)"
    and "map_of (concat (map (entries \<circ> snd) ks)) k = map_of (opt_entries (map_of ks u)) k"
proof -
  have new: "kid_ok hash s u c" if h: "h = Some c" for c
  proof -
    have "chunk s (hash (fst e)) = u" if "e \<in> set (entries c)" for e
    proof (cases "fst e = k")
      case False
      have "map_of (entries c) (fst e) \<noteq> None" using that by (simp add: map_of_eq_None_iff)
      then have "map_of (opt_entries (map_of ks u)) (fst e) \<noteq> None" using up h False by (simp add: upd_ok_def)
      then obtain b where "map_of ks u = Some b" "fst e \<in> fst ` set (entries b)"
        by (cases "map_of ks u") (auto simp: map_of_eq_None_iff image_iff)
      then show ?thesis using ok unfolding kid_ok_def list_all_iff by fastforce
    qed (simp add: u)
    then show ?thesis using up h by (simp add: kid_ok_def upd_ok_def list_all_iff)
  qed
  show ok': "\<forall>u c. map_of ks' u = Some c \<longrightarrow> kid_ok hash s u c" using ok new u(2) by auto
  show "map_of (concat (map (entries \<circ> snd) ks)) k = map_of (opt_entries (map_of ks u)) k"
    unfolding map_of_kids [OF d(1) ok] using u(1) by (auto split: option.splits)
  have hh: "(case h of None \<Rightarrow> None | Some c \<Rightarrow> map_of (entries c) k') = map_of (opt_entries h) k'" for k'
    by (cases h) auto
  have dd: "(case map_of ks u of None \<Rightarrow> None | Some c \<Rightarrow> map_of (entries c) k') = map_of (opt_entries (map_of ks u)) k'" for k'
    by (cases "map_of ks u") auto
  show "map_of (concat (map (entries \<circ> snd) ks')) = (map_of (concat (map (entries \<circ> snd) ks)))(k := v)"
  proof
    fix k'
    show "map_of (concat (map (entries \<circ> snd) ks')) k' = ((map_of (concat (map (entries \<circ> snd) ks)))(k := v)) k'"
    proof (cases "chunk s (hash k') = u")
      case True
      then show ?thesis
        unfolding map_of_kids [OF d(2) ok'] map_of_kids [OF d(1) ok] fun_upd_apply
        using up u hh [of k'] dd [of k'] by (simp add: upd_ok_def)
    next
      case False
      then show ?thesis
        unfolding map_of_kids [OF d(2) ok'] map_of_kids [OF d(1) ok] fun_upd_apply using u by auto
    qed
  qed
qed

text \<open>An inner node after the update of one child.\<close>

lemma inner_update:
  assumes n: "node_ok hash s n" "\<not> isLeafNode n"
    and u: "u = chunk s (hash k)" "map_of (kids n') = (map_of (kids n))(u := h)"
    and n': "shape_ok hash n'" "\<not> isLeafNode n'"
    and up: "upd_ok hash (s + 5) k v (map_of (kids n) u) (h, i, a)" and a: "a"
  shows "upd_ok hash s k v (Some n) (Some n', i, a)"
proof -
  have ok: "shape_ok hash n" "\<forall>u c. map_of (kids n) u = Some c \<longrightarrow> kid_ok hash s u c"
    using n(1) by (simp_all add: node_ok_kids)
  note k = kids_update [OF distinct_kids distinct_kids ok(2) u up]
  note e = entries_kids [OF n(2) ok(1)] entries_kids [OF n'(2,1)]
  show ?thesis using up a k n' unfolding upd_ok_def by (simp add: e node_ok_kids)
qed

lemma collapse_update:
  assumes n: "node_ok hash s n" "\<not> isLeafNode n"
    and u: "u = chunk s (hash k)" "map_of [(w, c)] = (map_of (kids n))(u := h)" "isLeafNode c"
    and up: "upd_ok hash (s + 5) k v (map_of (kids n) u) (h, i, a)" and a: "a"
  shows "upd_ok hash s k v (Some n) (Some c, i, a)"
proof -
  have ok: "shape_ok hash n" "\<forall>u c. map_of (kids n) u = Some c \<longrightarrow> kid_ok hash s u c"
    using n(1) by (simp_all add: node_ok_kids)
  have d: "distinct (map fst [(w, c)])" by simp
  note k = kids_update [OF distinct_kids d ok(2) u(1,2) up]
  note e = entries_kids [OF n(2) ok(1)]
  have "kid_ok hash s w c" using k(1) by simp
  then have "node_ok hash s c" using u(3) by (simp add: kid_ok_def leaf_ok)
  then show ?thesis using up a k unfolding upd_ok_def by (simp add: e)
qed

lemma unaltered_update:
  assumes n: "node_ok hash s n" "\<not> isLeafNode n" and u: "u = chunk s (hash k)"
    and up: "upd_ok hash (s + 5) k v (map_of (kids n) u) (h, i, a)" and a: "\<not> a"
  shows "upd_ok hash s k v (Some n) (Some n, i, a)"
proof -
  have ok: "shape_ok hash n" "\<forall>u c. map_of (kids n) u = Some c \<longrightarrow> kid_ok hash s u c"
    using n(1) by (simp_all add: node_ok_kids)
  have h: "map_of (kids n) = (map_of (kids n))(u := h)" using up a by (auto simp: upd_ok_def)
  note k = kids_update [OF distinct_kids distinct_kids ok(2) u h up]
  note e = entries_kids [OF n(2) ok(1)]
  show ?thesis using up a k n unfolding upd_ok_def by (simp add: e)
qed

lemma nonleaf_stays:
  assumes "upd_ok hash s k v (Some n) (h, i, a)" "node_ok hash s n" "\<not> isLeafNode n"
  shows "h \<noteq> None"
proof
  assume "h = None"
  then have "(\<lambda>_. None) = (map_of (entries n))(k := v)" using assms(1) by (simp add: upd_ok_def)
  then have "map_of (entries n) k' = None" if "k' \<noteq> k" for k' using that by (metis fun_upd_other)
  then have "set (map fst (entries n)) \<subseteq> {k}" by (auto simp: map_of_eq_None_iff)
  then have "card (set (map fst (entries n))) \<le> 1" using card_mono [of "{k}"] by fastforce
  then have "length (entries n) \<le> 1" using distinct_entries [OF assms(2)] by (metis distinct_card length_map)
  then show False using enough_entries [OF assms(2)] assms(3) by simp
qed

definition bitmap_child :: "('k \<Rightarrow> u32) \<Rightarrow> nat \<Rightarrow> 'k \<Rightarrow> 'v option \<Rightarrow> ('k, 'v) node option \<Rightarrow> ('k, 'v) node option \<times> bool \<times> bool" where
  "bitmap_child hash s k v d = (case d of Some d \<Rightarrow> node_update hash (s + 5) k v d
     | None \<Rightarrow> (case v of None \<Rightarrow> (None, False, False) | Some v \<Rightarrow> (Some (ValueNode (hash k) (k, v)), True, True)))"

lemma node_update_bitmap:
  fixes hash :: "'k \<Rightarrow> u32" and s :: nat and k :: 'k
  assumes "length p = length (slots l)"
  defines "u \<equiv> chunk s (hash k)"
  shows "node_update hash s k v (BitmapIndexedNode l p) =
    (if \<not> bit l u \<and> v = None then (Some (BitmapIndexedNode l p), False, False)
     else (case bitmap_child hash s k v (map_of (kids (BitmapIndexedNode l p)) u) of (h, i, a) \<Rightarrow>
       if \<not> a then (Some (BitmapIndexedNode l p), i, a)
       else if \<not> bit l u \<and> h \<noteq> None \<and> length p \<ge> 16 then (Some (expandNodes p l u (the h)), i, a)
       else if bit l u \<and> h = None \<and> length p = 2 \<and> isLeafNode (p ! (1 - slot_index l u)) then (Some (p ! (1 - slot_index l u)), i, a)
       else if bit l u \<and> h \<noteq> None \<and> length p = 1 \<and> isLeafNode (the h) then (h, i, a)
       else (Some (case h of
               Some h' \<Rightarrow> if bit l u then BitmapIndexedNode l (p[slot_index l u := h'])
                         else BitmapIndexedNode (l OR push_bit u 1) (spliceIn p (slot_index l u) h')
             | None \<Rightarrow> BitmapIndexedNode (l XOR push_bit u 1) (spliceOut p (slot_index l u))), i, a)))"
proof -
  have b: "(l AND push_bit u 1 \<noteq> 0) = bit l u" unfolding u_def using bit_test [OF chunk_less, of l s "hash k"] by simp
  have f: "popCount (l AND (push_bit u 1 - 1)) = slot_index l u" unfolding u_def by (rule popCount_index [OF chunk_less])
  show ?thesis
    unfolding node_update.simps Let_def u_def [symmetric] b f kids_bitmap [OF assms(1)] bitmap_child_def
    by simp
qed

lemma map_of_inner:
  assumes "node_ok hash s n" "\<not> isLeafNode n"
  shows "map_of (entries n) k = (case map_of (kids n) (chunk s (hash k)) of None \<Rightarrow> None | Some c \<Rightarrow> map_of (entries c) k)"
proof -
  have ok: "shape_ok hash n" "\<forall>u c. map_of (kids n) u = Some c \<longrightarrow> kid_ok hash s u c"
    using assms(1) by (simp_all add: node_ok_kids)
  show ?thesis unfolding entries_kids [OF assms(2) ok(1)] by (rule map_of_kids [OF distinct_kids ok(2)])
qed

lemma stored_stays: "upd_ok hash s k v d (h, i, a) \<Longrightarrow> v \<noteq> None \<Longrightarrow> h \<noteq> None"
proof
  assume up: "upd_ok hash s k v d (h, i, a)" and "h = None" "v \<noteq> None"
  have "map_of (opt_entries h) k = v" using up unfolding upd_ok_def prod.case by (metis fun_upd_same)
  then show False using \<open>h = None\<close> \<open>v \<noteq> None\<close> by simp
qed

lemma hd_single: "length p = 1 \<Longrightarrow> f < length p \<Longrightarrow> hd (p[f := h]) = h"
  by (cases p) auto

lemma one_child: "length p = 1 \<Longrightarrow> f < length p \<Longrightarrow> hd p = p ! f"
  by (cases p) auto

lemma kids_two:
  assumes "length p = length (slots l)" "bit l u" "length p = 2"
  obtains w where "map_of [(w, p ! (1 - slot_index l u))] = (map_of (kids (BitmapIndexedNode l p)))(u := None)"
proof -
  let ?f = "slot_index l u"
  have f: "?f < 2" "slots l ! ?f = u" using slot_at_index [OF assms(2)] assms by auto
  obtain x y where S: "slots l = [x, y]" "x \<noteq> y"
    using assms distinct_slots [of l] by (cases "slots l"; cases "tl (slots l)") auto
  obtain a b where p: "p = [a, b]" using assms(3) by (cases p; cases "tl p") auto
  show ?thesis
  proof (cases "?f = 0")
    case True
    then show ?thesis using that [of y] S p f by (auto simp: fun_eq_iff)
  next
    case False
    then have "?f = 1" using f by simp
    then show ?thesis using that [of x] S p f by (auto simp: fun_eq_iff)
  qed
qed

lemma kids_one:
  assumes "length p = length (slots l)" "bit l u" "length p = 1"
  shows "map_of [(u, h)] = (map_of (kids (BitmapIndexedNode l p)))(u \<mapsto> h)"
proof -
  have "slots l = [u]" using assms slot_at_index [OF assms(2)] by (cases "slots l") auto
  then show ?thesis using assms by (cases p) (auto simp: fun_eq_iff)
qed

lemma length_spliceOut: "length (spliceOut p f) = length p - 1"
  by (simp add: spliceOut_def)

lemma hd_spliceOut: "length p = 2 \<Longrightarrow> f < 2 \<Longrightarrow> spliceOut p f = [p ! (1 - f)]"
  by (cases p; cases "tl p"; cases f) (auto simp: spliceOut_def)

lemma bitmap_shape:
  assumes "node_ok hash s (BitmapIndexedNode l p)"
  shows "length p = length (slots l)" "2 \<le> length p \<or> length p = 1 \<and> \<not> isLeafNode (hd p)"
  using assms unfolding node_ok_kids shape_ok.simps by blast+

lemma bitmap_add:
  assumes n: "node_ok hash s (BitmapIndexedNode l p)" and u: "u = chunk s (hash k)" "\<not> bit l u"
    and up: "upd_ok hash (s + 5) k v (map_of (kids (BitmapIndexedNode l p)) u) (Some h, i, a)" and a: "a"
  shows "upd_ok hash s k v (Some (BitmapIndexedNode l p))
    (if length p \<ge> 16 then (Some (expandNodes p l u h), i, a)
     else (Some (BitmapIndexedNode (l OR push_bit u 1) (spliceIn p (slot_index l u) h)), i, a))"
proof -
  let ?n' = "BitmapIndexedNode (l OR push_bit u 1) (spliceIn p (slot_index l u) h)"
  note len = bitmap_shape [OF n]
  have u32: "u < 32" by (simp add: u chunk_less)
  have nl: "\<not> isLeafNode (BitmapIndexedNode l p)" "\<not> isLeafNode ?n'" by simp_all
  have sh: "shape_ok hash ?n'"
    using kids_insert(2) [OF len(1) u32 u(2), of h] len(2) by (auto simp: spliceIn_def simp del: push_bit_of_1)
  have "upd_ok hash s k v (Some (BitmapIndexedNode l p)) (Some ?n', i, a)"
    by (rule inner_update [OF n nl(1) u(1) kids_insert(1) [OF len(1) u32 u(2)] sh nl(2) up a])
  moreover have "upd_ok hash s k v (Some (BitmapIndexedNode l p)) (Some (expandNodes p l u h), i, a)" if "16 \<le> length p"
    using expandNodes_kids [OF len(1) u32 u(2) that] by (intro inner_update [OF n nl(1) u(1) _ _ _ up a])
  ultimately show ?thesis by simp
qed

lemma bitmap_change:
  assumes n: "node_ok hash s (BitmapIndexedNode l p)" and u: "u = chunk s (hash k)" "bit l u"
    and up: "upd_ok hash (s + 5) k v (map_of (kids (BitmapIndexedNode l p)) u) (Some h, i, a)" and a: "a"
  shows "upd_ok hash s k v (Some (BitmapIndexedNode l p))
    (if length p = 1 \<and> isLeafNode h then (Some h, i, a) else (Some (BitmapIndexedNode l (p[slot_index l u := h])), i, a))"
proof -
  let ?n' = "BitmapIndexedNode l (p[slot_index l u := h])"
  note len = bitmap_shape [OF n]
  have nl: "\<not> isLeafNode (BitmapIndexedNode l p)" "\<not> isLeafNode ?n'" by simp_all
  have "upd_ok hash s k v (Some (BitmapIndexedNode l p)) (Some h, i, a)" if "length p = 1" "isLeafNode h"
    by (rule collapse_update [OF n nl(1) u(1) kids_one [OF len(1) u(2) that(1)] that(2) up a])
  moreover have "upd_ok hash s k v (Some (BitmapIndexedNode l p)) (Some ?n', i, a)" if "\<not> (length p = 1 \<and> isLeafNode h)"
  proof -
    have "shape_ok hash ?n'" using len that slot_at_index [OF u(2)] hd_single [of p "slot_index l u" h] by auto
    then show ?thesis by (rule inner_update [OF n nl(1) u(1) kids_replace [OF len(1) u(2)] _ nl(2) up a])
  qed
  ultimately show ?thesis by simp
qed

lemma bitmap_drop_leaf:
  assumes n: "node_ok hash s (BitmapIndexedNode l p)" and u: "bit l u"
    and up: "upd_ok hash (s + 5) k v (map_of (kids (BitmapIndexedNode l p)) u) (None, i, a)"
  shows "2 \<le> length p"
proof -
  let ?f = "slot_index l u" and ?n = "BitmapIndexedNode l p"
  note len = bitmap_shape [OF n]
  have f: "?f < length p" using slot_at_index [OF u] len by simp
  have d: "map_of (kids ?n) u = Some (p ! ?f)" using u f by (simp add: kids_bitmap [OF len(1)] item_at_def del: kids.simps)
  have up': "upd_ok hash (s + 5) k v (Some (p ! ?f)) (None, i, a)" using up unfolding d .
  have "kid_ok hash s u (p ! ?f)" using n d unfolding node_ok_kids by blast
  then have "node_ok hash (s + 5) (p ! ?f)" by (simp add: kid_ok_def)
  from nonleaf_stays [OF up' this] have "isLeafNode (p ! ?f)" by blast
  then show ?thesis using one_child [OF _ f] len(2) by metis
qed

lemma bitmap_drop_shape:
  assumes "length p = length (slots l)" "bit l u" "2 \<le> length p" "\<not> (length p = 2 \<and> isLeafNode (p ! (1 - slot_index l u)))"
  shows "shape_ok hash (BitmapIndexedNode (l XOR push_bit u 1) (spliceOut p (slot_index l u)))"
proof -
  let ?f = "slot_index l u"
  have f: "?f < length p" using slot_at_index [OF assms(2)] assms(1) by simp
  have "2 \<le> length (spliceOut p ?f) \<or> length (spliceOut p ?f) = 1 \<and> \<not> isLeafNode (hd (spliceOut p ?f))"
  proof (cases "length p = 2")
    case True
    then show ?thesis using assms(4) hd_spliceOut [OF True] f by simp
  qed (use assms(3) length_spliceOut [of p ?f] in linarith)
  then show ?thesis using kids_delete(2) [OF assms(1,2)] by simp
qed

lemma bitmap_drop:
  assumes n: "node_ok hash s (BitmapIndexedNode l p)" and u: "u = chunk s (hash k)" "bit l u"
    and up: "upd_ok hash (s + 5) k v (map_of (kids (BitmapIndexedNode l p)) u) (None, i, a)" and a: "a"
  shows "upd_ok hash s k v (Some (BitmapIndexedNode l p))
    (if length p = 2 \<and> isLeafNode (p ! (1 - slot_index l u)) then (Some (p ! (1 - slot_index l u)), i, a)
     else (Some (BitmapIndexedNode (l XOR push_bit u 1) (spliceOut p (slot_index l u))), i, a))"
proof -
  let ?f = "slot_index l u" and ?n = "BitmapIndexedNode l p"
  let ?n' = "BitmapIndexedNode (l XOR push_bit u 1) (spliceOut p ?f)"
  note len = bitmap_shape [OF n]
  have nl: "\<not> isLeafNode ?n" "\<not> isLeafNode ?n'" by simp_all
  have "upd_ok hash s k v (Some ?n) (Some (p ! (1 - ?f)), i, a)" if two: "length p = 2" "isLeafNode (p ! (1 - ?f))"
  proof -
    obtain w where "map_of [(w, p ! (1 - ?f))] = (map_of (kids ?n))(u := None)"
      using kids_two [OF len(1) u(2) two(1)] .
    then show ?thesis by (rule collapse_update [OF n nl(1) u(1) _ two(2) up a])
  qed
  moreover have "upd_ok hash s k v (Some ?n) (Some ?n', i, a)" if "\<not> (length p = 2 \<and> isLeafNode (p ! (1 - ?f)))"
    by (rule inner_update [OF n nl(1) u(1) kids_delete(1) [OF len(1) u(2)]
          bitmap_drop_shape [OF len(1) u(2) bitmap_drop_leaf [OF n u(2) up] that] nl(2) up a])
  ultimately show ?thesis by (simp only: split: if_splits) blast
qed

lemma bitmap_update_ok:
  assumes n: "node_ok hash s (BitmapIndexedNode l p)"
    and up: "upd_ok hash (s + 5) k v (map_of (kids (BitmapIndexedNode l p)) (chunk s (hash k)))
          (bitmap_child hash s k v (map_of (kids (BitmapIndexedNode l p)) (chunk s (hash k))))"
  shows "upd_ok hash s k v (Some (BitmapIndexedNode l p)) (node_update hash s k v (BitmapIndexedNode l p))"
proof -
  let ?n = "BitmapIndexedNode l p"
  define u where "u = chunk s (hash k)"
  have nl: "\<not> isLeafNode ?n" by simp
  obtain h i a where hia: "bitmap_child hash s k v (map_of (kids ?n) u) = (h, i, a)" by (metis prod_cases3)
  have up': "upd_ok hash (s + 5) k v (map_of (kids ?n) u) (h, i, a)" using up hia unfolding u_def by simp
  note step = node_update_bitmap [OF bitmap_shape(1) [OF n], of hash s k v, folded u_def, unfolded hia prod.case]
  have idle: "upd_ok hash s k v (Some ?n) (Some ?n, False, False)" if "\<not> bit l u" "v = None"
  proof -
    have "map_of (kids ?n) u = None" using that by (simp add: kids_bitmap [OF bitmap_shape(1) [OF n]] del: kids.simps)
    then have "map_of (entries ?n) k = v" unfolding map_of_inner [OF n nl, of k] using that by (simp add: u_def del: kids.simps)
    then show ?thesis by (rule upd_same [OF n])
  qed
  have same: "upd_ok hash s k v (Some ?n) (Some ?n, i, a)" if "\<not> a" by (rule unaltered_update [OF n nl u_def up' that])
  have miss: "bit l u" if "h = None" "v \<noteq> None" using stored_stays [OF up'] that by blast
  note add = bitmap_add [OF n u_def, of v _ i a] and change = bitmap_change [OF n u_def, of v _ i a]
    and drop = bitmap_drop [OF n u_def, of v i a]
  show ?thesis
  proof (cases h)
    case None
    then show ?thesis using idle same miss drop up' unfolding step None by (cases "bit l u"; cases "v = None"; cases a) auto
  next
    case (Some h')
    then show ?thesis using idle same add [of h'] change [of h'] up' unfolding step Some
      by (cases "bit l u"; cases "v = None"; cases a) auto
  qed
qed

lemma node_update_array:
  fixes hash :: "'k \<Rightarrow> u32" and s :: nat and k :: 'k
  assumes "length l = 32"
  defines "u \<equiv> chunk s (hash k)"
  shows "node_update hash s k v (HashArrayMapNode n l) =
    (if v = None \<and> l ! u = None then (Some (HashArrayMapNode n l), False, False)
     else (case bitmap_child hash s k v (l ! u) of (f, i, a) \<Rightarrow>
       if \<not> a then (Some (HashArrayMapNode n l), i, a)
       else if l ! u \<noteq> None \<and> f = None \<and> n - 1 < 8 then (Some (packNodes l u), i, a)
       else (Some (HashArrayMapNode (if l ! u = None then n + 1 else if f = None then n - 1 else n) (l[u := f])), i, a)))"
proof -
  have "item_at l u = Some (l ! u)" using assms(1) chunk_less [of s "hash k"] by (simp add: item_at_def u_def)
  then show ?thesis
    unfolding node_update.simps Let_def u_def [symmetric] bitmap_child_def by (simp split: option.splits)
qed

lemma array_update:
  assumes n: "node_ok hash s (HashArrayMapNode m l)" and u: "u = chunk s (hash k)"
    and up: "upd_ok hash (s + 5) k v (l ! u) (f, i, a)" and a: "a" and keep: "l ! u = None \<longrightarrow> f \<noteq> None"
  shows "upd_ok hash s k v (Some (HashArrayMapNode m l))
    (if l ! u \<noteq> None \<and> f = None \<and> m - 1 < 8 then (Some (packNodes l u), i, a)
     else (Some (HashArrayMapNode (if l ! u = None then m + 1 else if f = None then m - 1 else m) (l[u := f])), i, a))"
proof -
  let ?n = "HashArrayMapNode m l"
  let ?m = "if l ! u = None then m + 1 else if f = None then m - 1 else m"
  have len: "length l = 32" and m: "m = length (filter (\<lambda>c. c \<noteq> None) l)" "8 \<le> m"
    using n by (simp_all add: node_ok_kids)
  have u32: "u < 32" by (simp add: u chunk_less)
  have nl: "\<not> isLeafNode ?n" "\<And>m l. \<not> isLeafNode (HashArrayMapNode m l)" by simp_all
  have at: "map_of (kids ?n) u = l ! u" using len u32 by (simp add: kids_array item_at_def del: kids.simps)
  note inner = inner_update [OF n nl(1) u _ _ _ up [folded at] a]
  have c: "length (filter (\<lambda>c. c \<noteq> None) (l[u := f])) + (if l ! u \<noteq> None then 1 else 0) = m + (if f \<noteq> None then 1 else 0)"
    using count_update [of u l "\<lambda>c. c \<noteq> None" f] len u32 m(1) by simp
  have pack: "upd_ok hash s k v (Some ?n) (Some (packNodes l u), i, a)" if "l ! u \<noteq> None" "f = None"
  proof (rule inner)
    show "map_of (kids (packNodes l u)) = (map_of (kids ?n))(u := f)" "shape_ok hash (packNodes l u)" "\<not> isLeafNode (packNodes l u)"
      using packNodes_kids [OF len u32 that(1)] m that(2) by simp_all
  qed
  have put: "upd_ok hash s k v (Some ?n) (Some (HashArrayMapNode ?m (l[u := f])), i, a)"
    if "\<not> (l ! u \<noteq> None \<and> f = None \<and> m - 1 < 8)"
  proof (rule inner)
    show "map_of (kids (HashArrayMapNode ?m (l[u := f]))) = (map_of (kids ?n))(u := f)"
      by (rule kids_array_update) (simp add: len u32)
    show "shape_ok hash (HashArrayMapNode ?m (l[u := f]))" using len m(2) c that keep by (auto split: if_splits)
  qed simp
  show ?thesis
  proof (cases "l ! u \<noteq> None \<and> f = None \<and> m - 1 < 8")
    case True
    then show ?thesis using pack by (simp only: if_P simp_thms)
  next
    case False
    then show ?thesis using put by (simp only: if_not_P simp_thms)
  qed
qed

lemma array_update_ok:
  assumes n: "node_ok hash s (HashArrayMapNode m l)"
    and up: "upd_ok hash (s + 5) k v (l ! chunk s (hash k)) (bitmap_child hash s k v (l ! chunk s (hash k)))"
  shows "upd_ok hash s k v (Some (HashArrayMapNode m l)) (node_update hash s k v (HashArrayMapNode m l))"
proof -
  let ?n = "HashArrayMapNode m l"
  define u where "u = chunk s (hash k)"
  have len: "length l = 32" using n by (simp add: node_ok_kids)
  have nl: "\<not> isLeafNode ?n" by simp
  have at: "map_of (kids ?n) u = l ! u" using len chunk_less [of s "hash k"] by (simp add: kids_array item_at_def u_def del: kids.simps)
  obtain f i a where fia: "bitmap_child hash s k v (l ! u) = (f, i, a)" by (metis prod_cases3)
  have up': "upd_ok hash (s + 5) k v (l ! u) (f, i, a)" using up fia unfolding u_def by simp
  note step = node_update_array [OF len, of hash s k v m, folded u_def, unfolded fia prod.case]
  have idle: "upd_ok hash s k v (Some ?n) (Some ?n, False, False)" if "v = None" "l ! u = None"
  proof -
    have "map_of (entries ?n) k = v" unfolding map_of_inner [OF n nl, of k] using that at by (simp add: u_def del: kids.simps)
    then show ?thesis by (rule upd_same [OF n])
  qed
  have same: "upd_ok hash s k v (Some ?n) (Some ?n, i, a)" if "\<not> a"
    by (rule unaltered_update [OF n nl u_def up' [folded at] that])
  have keep: "l ! u = None \<longrightarrow> f \<noteq> None" if "\<not> (v = None \<and> l ! u = None)" using stored_stays [OF up'] that by argo
  consider (none) "v = None" "l ! u = None" | (kept) "\<not> (v = None \<and> l ! u = None)" "\<not> a"
    | (alter) "\<not> (v = None \<and> l ! u = None)" "a" by argo
  then show ?thesis
  proof cases
    case alter
    show ?thesis unfolding step using array_update [OF n u_def up' alter(2) keep [OF alter(1)]] alter
      by (simp only: if_not_P simp_thms if_False not_True_eq_False)
  next
    case none
    then show ?thesis unfolding step using idle by simp
  next
    case kept
    then show ?thesis unfolding step using same by auto
  qed
qed

lemma leaf_update_ok:
  assumes "isLeafNode n" "node_ok hash s n"
  shows "upd_ok hash s k v (Some n) (node_update hash s k v n)"
proof (cases n)
  case (ValueNode h e)
  have h: "hash (fst e) = h" using assms ValueNode by (simp add: leaf_ok)
  have merge: "upd_ok hash s k (Some w) (Some n) (Some (mergeIntoNode n s (hash k) (k, w)), True, True)" if "k \<noteq> fst e" for w
    using merge_ok [OF assms(1), of hash "(k, w)" "hash k"] merge_map_of [OF assms(1), of hash "(k, w)" "hash k"] assms ValueNode that
    by (auto simp: upd_ok_def leaf_ok)
  show ?thesis
    using merge assms ValueNode h by (cases v; cases e) (auto simp: upd_ok_def leaf_ok fun_eq_iff)
next
  case (HashCollisionNode h es)
  have es: "2 \<le> length es" "distinct (map fst es)" "\<forall>e \<in> set es. hash (fst e) = h"
    using assms HashCollisionNode by (auto simp: leaf_ok list_all_iff)
  show ?thesis
  proof (cases "hash k = h")
    case False
    then have new: "k \<notin> fst ` set es" using es(3) by auto
    have "upd_ok hash s k (Some w) (Some n) (Some (mergeIntoNode n s (hash k) (k, w)), True, True)" for w
      using merge_ok [OF assms(1), of hash "(k, w)" "hash k"] merge_map_of [OF assms(1), of hash "(k, w)" "hash k"]
        assms HashCollisionNode False new by (auto simp: upd_ok_def leaf_ok map_of_eq_None_iff intro: rev_image_eqI)
    then show ?thesis using False assms HashCollisionNode new by (cases v) (auto simp: upd_ok_def map_of_eq_None_iff fun_eq_iff)
  next
    case True
    let ?l = "entry_index k es"
    have f: "?l < length es \<longleftrightarrow> k \<in> fst ` set es" by (rule entry_index_less)
    have val: "(if ?l < length es then Some (snd (es ! ?l)) = v else v = None) \<longleftrightarrow> map_of es k = v"
      using f entry_index_value [of k es] by (auto simp: map_of_eq_None_iff)
    have step: "node_update hash s k v n =
        (if map_of es k = v then (Some n, False, False)
         else if v = None \<and> length es = 2 then (Some (ValueNode h (es ! (1 - ?l))), True, True)
         else (Some (HashCollisionNode h (entries_update es k v)), v = None \<or> k \<notin> fst ` set es, True))"
      using True f val unfolding HashCollisionNode node_update.simps Let_def by simp
    consider (same) "map_of es k = v" | (two) "map_of es k \<noteq> v" "v = None" "length es = 2"
      | (other) "map_of es k \<noteq> v" "\<not> (v = None \<and> length es = 2)" by blast
    then show ?thesis
    proof cases
      case same
      then show ?thesis using upd_same [OF assms(2), of k v] HashCollisionNode unfolding step by simp
    next
      case two
      obtain x y where xy: "es = [x, y]" using two(3) by (cases es; cases "tl es") auto
      then show ?thesis using two es HashCollisionNode True unfolding step
        by (cases x; cases y) (auto simp: upd_ok_def leaf_ok fun_eq_iff split: if_splits)
    next
      case other
      have k: "k \<in> fst ` set es \<or> v \<noteq> None" using other(1) by (metis map_of_eq_None_iff)
      note up = entries_update_ok [OF es(2) k]
      have "length (entries_update es k v) \<ge> 2" using es(1) other(2) unfolding length_entries_update by auto
      moreover have "\<forall>e \<in> set (entries_update es k v). hash (fst e) = h"
      proof
        fix e assume "e \<in> set (entries_update es k v)"
        then have "map_of (entries_update es k v) (fst e) \<noteq> None" by (simp add: map_of_eq_None_iff)
        then have "fst e = k \<or> fst e \<in> fst ` set es" using up by (metis fun_upd_other map_of_eq_None_iff)
        then show "hash (fst e) = h" using True es(3) by auto
      qed
      ultimately have "node_ok hash s (HashCollisionNode h (entries_update es k v))" using up by (simp add: leaf_ok list_all_iff)
      then show ?thesis using other up HashCollisionNode k unfolding step
        by (auto simp: upd_ok_def map_of_eq_None_iff)
    qed
  qed
qed (use assms in auto)

lemma child_update_ok:
  assumes n: "node_ok hash s n"
    and IH: "\<And>c. size c < size n \<Longrightarrow> node_ok hash (s + 5) c \<Longrightarrow> upd_ok hash (s + 5) k v (Some c) (node_update hash (s + 5) k v c)"
  shows "upd_ok hash (s + 5) k v (map_of (kids n) u) (bitmap_child hash s k v (map_of (kids n) u))"
proof (cases "map_of (kids n) u")
  case None
  show ?thesis unfolding None bitmap_child_def option.case by (rule upd_new)
next
  case (Some c)
  then have "kid_ok hash s u c" using n unfolding node_ok_kids by blast
  then have ok: "node_ok hash (s + 5) c" by (simp add: kid_ok_def)
  show ?thesis unfolding Some bitmap_child_def option.case by (rule IH [OF kid_size [OF map_of_SomeD [OF Some]] ok])
qed

lemma node_update_ok: "node_ok hash s n \<Longrightarrow> upd_ok hash s k v (Some n) (node_update hash s k v n)"
proof (induction n arbitrary: s rule: measure_induct_rule [of size])
  case (less n)
  note child = child_update_ok [OF less.prems less.IH]
  show ?case
  proof (cases n)
    case (BitmapIndexedNode l p)
    show ?thesis unfolding BitmapIndexedNode
      by (rule bitmap_update_ok [OF less.prems [unfolded BitmapIndexedNode] child [unfolded BitmapIndexedNode]])
  next
    case (HashArrayMapNode m l)
    have "length l = 32" using less.prems HashArrayMapNode by (simp add: node_ok_kids)
    then have at: "map_of (kids (HashArrayMapNode m l)) (chunk s (hash k)) = l ! chunk s (hash k)"
      using chunk_less [of s "hash k"] by (simp add: kids_array item_at_def del: kids.simps)
    show ?thesis unfolding HashArrayMapNode
      by (rule array_update_ok [OF less.prems [unfolded HashArrayMapNode]
            child [unfolded HashArrayMapNode, where u = "chunk s (hash k)", unfolded at]])
  next
    case (HashCollisionNode h es)
    then show ?thesis using less.prems by (intro leaf_update_ok) simp_all
  next
    case (ValueNode h e)
    then show ?thesis using less.prems by (intro leaf_update_ok) simp_all
  qed
qed

section \<open>The root and the map\<close>

definition root_entries :: "('k, 'v) root \<Rightarrow> ('k \<times> 'v) list" where
  "root_entries r = (case r of ArrayMapNode es \<Rightarrow> es | Trie c \<Rightarrow> entries c)"

definition root_ok :: "('k \<Rightarrow> u32) \<Rightarrow> ('k, 'v) root \<Rightarrow> bool" where
  "root_ok hash r = (case r of
     ArrayMapNode es \<Rightarrow> distinct (map fst es) \<and> es \<noteq> [] \<and> length es \<le> 8 | Trie c \<Rightarrow> node_ok hash 0 c)"

definition map_entries :: "('k, 'v) immutable_map \<Rightarrow> ('k \<times> 'v) list" where
  "map_entries m = (case map_root m of None \<Rightarrow> [] | Some r \<Rightarrow> root_entries r)"

definition map_ok :: "('k \<Rightarrow> u32) \<Rightarrow> ('k, 'v) immutable_map \<Rightarrow> bool" where
  "map_ok hash m \<longleftrightarrow> map_size m = int (length (map_entries m)) \<and> (case map_root m of None \<Rightarrow> True | Some r \<Rightarrow> root_ok hash r)"

lemma stored_ok:
  assumes "node_ok hash s n"
  obtains c i a where "node_update hash s k (Some v) n = (Some c, i, a)" "node_ok hash s c"
    "map_of (entries c) = (map_of (entries n))(k \<mapsto> v)"
proof -
  obtain h i a where u: "node_update hash s k (Some v) n = (h, i, a)" by (metis prod_cases3)
  note up = node_update_ok [OF assms, of k "Some v", unfolded u]
  obtain c where h: "h = Some c" using stored_stays [OF up] by auto
  show ?thesis
  proof (rule that)
    show "node_update hash s k (Some v) n = (Some c, i, a)" using u h by simp
    show "node_ok hash s c" "map_of (entries c) = (map_of (entries n))(k \<mapsto> v)"
      using up unfolding upd_ok_def prod.case h opt_entries_simps by blast+
  qed
qed

lemma createNodes_ok:
  assumes "distinct (map fst es)" "k \<notin> fst ` set es"
  shows "node_ok hash 0 (createNodes hash es k v) \<and> map_of (entries (createNodes hash es k v)) = (map_of es)(k \<mapsto> v)"
proof -
  define step :: "('a, 'b) node \<Rightarrow> 'a \<times> 'b \<Rightarrow> ('a, 'b) node" where
    "step = (\<lambda>o' a. case node_update hash 0 (fst a) (Some (snd a)) o' of (Some o'', _) \<Rightarrow> o'' | (None, _) \<Rightarrow> o')"
  have step: "node_ok hash 0 (step n a)" "map_of (entries (step n a)) = (map_of (entries n))(fst a \<mapsto> snd a)"
    if ok: "node_ok hash 0 n" for n a
  proof -
    obtain c i b where c: "node_update hash 0 (fst a) (Some (snd a)) n = (Some c, i, b)" "node_ok hash 0 c"
      "map_of (entries c) = (map_of (entries n))(fst a \<mapsto> snd a)" by (rule stored_ok [OF ok])
    have "step n a = c" by (simp add: step_def c(1))
    then show "node_ok hash 0 (step n a)" "map_of (entries (step n a)) = (map_of (entries n))(fst a \<mapsto> snd a)"
      using c(2,3) by simp_all
  qed
  have "node_ok hash 0 (foldl step n es) \<and> map_of (entries (foldl step n es)) = map_of (entries n) ++ map_of es"
    if "node_ok hash 0 n" "distinct (map fst es)" for n es
    using that
  proof (induction es arbitrary: n)
    case (Cons a es)
    have "map_of es (fst a) = None" using Cons.prems by (simp add: map_of_eq_None_iff)
    then have "(map_of (entries n))(fst a \<mapsto> snd a) ++ map_of es = map_of (entries n) ++ map_of (a # es)"
      by (cases a) (auto simp: fun_eq_iff map_add_def split: option.splits)
    moreover have "distinct (map fst es)" using Cons.prems(2) by simp
    ultimately show ?case unfolding foldl_Cons
      using Cons.IH [OF step(1) [OF Cons.prems(1), of a]] step(2) [OF Cons.prems(1), of a] by metis
  qed simp
  from this [of "ValueNode (hash k) (k, v)" es]
  have "node_ok hash 0 (createNodes hash es k v)" "map_of (entries (createNodes hash es k v)) = [k \<mapsto> v] ++ map_of es"
    using assms(1) by (simp_all add: createNodes_def step_def leaf_ok)
  moreover have "map_of es k = None" using assms(2) by (simp add: map_of_eq_None_iff)
  then have "[k \<mapsto> v] ++ map_of es = (map_of es)(k \<mapsto> v)" by (auto simp: fun_eq_iff map_add_def split: option.splits)
  ultimately show ?thesis by simp
qed

definition root_upd_ok ::
  "('k \<Rightarrow> u32) \<Rightarrow> 'k \<Rightarrow> 'v option \<Rightarrow> ('k, 'v) root \<Rightarrow> ('k, 'v) root option \<times> bool \<times> bool \<Rightarrow> bool" where
  "root_upd_ok hash k v r res = (case res of (h, i, a) \<Rightarrow>
     map_of (case h of None \<Rightarrow> [] | Some r' \<Rightarrow> root_entries r') = (map_of (root_entries r))(k := v)
     \<and> (\<forall>r'. h = Some r' \<longrightarrow> root_ok hash r')
     \<and> (a \<longleftrightarrow> map_of (root_entries r) k \<noteq> v)
     \<and> (i \<longleftrightarrow> (map_of (root_entries r) k = None) \<noteq> (v = None)))"

lemma array_root_step:
  "root_update hash k v (ArrayMapNode s) =
    (if map_of s k = v then (Some (ArrayMapNode s), False, False)
     else (if v \<noteq> None \<or> length s \<noteq> 1
           then (if k \<notin> fst ` set s \<and> v \<noteq> None \<and> length s \<ge> 8 then Some (Trie (createNodes hash s k (the v)))
                 else Some (ArrayMapNode (entries_update s k v)))
           else None, v = None \<or> k \<notin> fst ` set s, True))"
proof -
  have f: "entry_index k s < length s \<longleftrightarrow> k \<in> fst ` set s" by (rule entry_index_less)
  have val: "(if entry_index k s < length s then Some (snd (s ! entry_index k s)) = v else v = None) \<longleftrightarrow> map_of s k = v"
    using f entry_index_value [of k s] by (auto simp: map_of_eq_None_iff)
  show ?thesis unfolding root_update_def root.case Let_def val unfolding f ..
qed

lemma array_root_ok:
  assumes "root_ok hash (ArrayMapNode s)"
  shows "root_upd_ok hash k v (ArrayMapNode s) (root_update hash k v (ArrayMapNode s))"
proof -
  have s: "distinct (map fst s)" "s \<noteq> []" "length s \<le> 8" using assms by (simp_all add: root_ok_def)
  consider (same) "map_of s k = v" | (last) "map_of s k \<noteq> v" "v = None" "length s = 1"
    | (grow) w where "v = Some w" "k \<notin> fst ` set s" "length s = 8"
    | (other) "map_of s k \<noteq> v" "v \<noteq> None \<or> length s \<noteq> 1" "\<not> (k \<notin> fst ` set s \<and> v \<noteq> None \<and> length s \<ge> 8)"
    using s(3) by (cases v) fastforce+
  then show ?thesis
  proof cases
    case same
    then show ?thesis using assms unfolding array_root_step by (auto simp: root_upd_ok_def root_entries_def)
  next
    case last
    obtain x where "s = [x]" using last(3) by (cases s) auto
    then show ?thesis using last unfolding array_root_step
      by (cases x) (auto simp: root_upd_ok_def root_entries_def fun_eq_iff split: if_splits)
  next
    case grow
    have "map_of s k = None" using grow(2) by (simp add: map_of_eq_None_iff)
    then show ?thesis using grow createNodes_ok [OF s(1) grow(2), of hash w] unfolding array_root_step
      by (simp add: root_upd_ok_def root_entries_def root_ok_def)
  next
    case other
    have k: "k \<in> fst ` set s \<or> v \<noteq> None" using other(1) by (metis map_of_eq_None_iff)
    note up = entries_update_ok [OF s(1) k]
    have len: "length (entries_update s k v) \<noteq> 0 \<and> length (entries_update s k v) \<le> 8"
      using other(2,3) s(2,3) unfolding length_entries_update by (cases s) auto
    have r: "root_update hash k v (ArrayMapNode s) = (Some (ArrayMapNode (entries_update s k v)), v = None \<or> k \<notin> fst ` set s, True)"
      unfolding array_root_step using other by (simp only: if_P if_not_P simp_thms)
    have "map_of s k = None \<longleftrightarrow> k \<notin> fst ` set s" by (rule map_of_eq_None_iff)
    then show ?thesis using other(1) up len k unfolding r
      by (auto simp: root_upd_ok_def root_entries_def root_ok_def)
  qed
qed

lemma root_update_ok:
  assumes "root_ok hash r"
  shows "root_upd_ok hash k v r (root_update hash k v r)"
proof (cases r)
  case (Trie c)
  obtain h i a where u: "node_update hash 0 k v c = (h, i, a)" by (metis prod_cases3)
  have "upd_ok hash 0 k v (Some c) (h, i, a)" using node_update_ok [of hash 0 c k v] assms Trie u by (simp add: root_ok_def)
  then show ?thesis
    by (cases h) (simp_all add: root_update_def u Trie upd_ok_def root_upd_ok_def root_entries_def root_ok_def)
qed (use assms array_root_ok in simp)

lemma root_distinct: "root_ok hash r \<Longrightarrow> distinct (map fst (root_entries r))"
  by (auto simp: root_ok_def root_entries_def distinct_entries split: root.splits)

lemma root_get_entries: "root_ok hash r \<Longrightarrow> root_get hash k r = map_of (root_entries r) k"
  by (auto simp: root_ok_def root_entries_def root_get_def get_entries entry_get_map_of split: root.splits)

lemma map_get_entries: "map_ok hash m \<Longrightarrow> map_get hash m = map_of (map_entries m)"
  by (auto simp: map_ok_def map_get_def map_entries_def root_get_entries split: option.splits)

lemma map_distinct: "map_ok hash m \<Longrightarrow> distinct (map fst (map_entries m))"
  by (auto simp: map_ok_def map_entries_def root_distinct split: option.splits)

lemma map_size_card: "map_ok hash m \<Longrightarrow> map_size m = int (card (dom (map_get hash m)))"
proof -
  assume ok: "map_ok hash m"
  have "card (dom (map_get hash m)) = length (map fst (map_entries m))"
    using distinct_card [OF map_distinct [OF ok]] by (simp add: map_get_entries [OF ok] dom_map_of_conv_image_fst)
  then show ?thesis using ok by (simp add: map_ok_def)
qed

lemma card_dom_update:
  assumes "finite (dom m)"
  shows "int (card (dom (m(k := v)))) = int (card (dom m))
    + (if (m k = None) \<noteq> (v = None) then if v = None then -1 else 1 else 0)"
proof (cases "m k = None")
  case True
  then have "k \<notin> dom m" by auto
  then show ?thesis using assms True by (cases v) (auto simp: insert_absorb)
next
  case False
  then have "k \<in> dom m" by auto
  then show ?thesis using assms False card_Suc_Diff1 [OF assms, of k]
    by (cases v) (auto simp: insert_absorb)
qed

lemma length_map_card: "distinct (map fst es) \<Longrightarrow> length es = card (dom (map_of es))"
  by (metis distinct_card dom_map_of_conv_image_fst length_map list.set_map)

lemma updateMap_ok:
  assumes "map_ok hash m"
  shows "map_ok hash (updateMap hash m k v) \<and> map_get hash (updateMap hash m k v) = (map_get hash m)(k := v)"
proof -
  have "map_ok hash (updateMap hash m k v) \<and> map_of (map_entries (updateMap hash m k v)) = (map_of (map_entries m))(k := v)"
  proof (cases "map_root m")
    case None
    then show ?thesis using assms
      by (cases v) (auto simp: updateMap_def map_ok_def map_entries_def root_ok_def root_entries_def fun_eq_iff)
  next
    case (Some r)
    have r: "root_ok hash r" "map_size m = int (length (root_entries r))" "map_entries m = root_entries r"
      using assms Some by (simp_all add: map_ok_def map_entries_def)
    obtain h i a where u: "root_update hash k v r = (h, i, a)" by (metis prod_cases3)
    have U: "root_upd_ok hash k v r (h, i, a)" using root_update_ok [OF r(1), of k v] u by simp
    note C = U [unfolded root_upd_ok_def prod.case]
    note up = C [THEN conjunct1] C [THEN conjunct2, THEN conjunct1] C [THEN conjunct2, THEN conjunct2, THEN conjunct1]
      C [THEN conjunct2, THEN conjunct2, THEN conjunct2]
    show ?thesis
    proof (cases "a")
      case False
      then have "map_of (root_entries r) k = v" using up(3) by simp
      then show ?thesis using False Some u assms r(3) by (auto simp: updateMap_def fun_eq_iff)
    next
      case True
      show ?thesis
      proof (cases h)
        case None
        then show ?thesis using True Some u up(1) r(3)
          by (simp add: updateMap_def map_ok_def emptyMap_def map_entries_def)
      next
        case (Some r')
        have m': "map_of (root_entries r') = (map_of (root_entries r))(k := v)" "root_ok hash r'" using up Some by simp_all
        have "int (length (root_entries r')) = int (length (root_entries r)) + (if i then if v = None then -1 else 1 else 0)"
          unfolding length_map_card [OF root_distinct [OF m'(2)]] length_map_card [OF root_distinct [OF r(1)]] m'(1)
          using card_dom_update [of "map_of (root_entries r)" k v] up(4) by (simp add: finite_dom_map_of)
        then show ?thesis using True \<open>map_root m = Some r\<close> Some u m' r
          by (simp add: updateMap_def map_ok_def map_entries_def)
      qed
    qed
  qed
  then show ?thesis using map_get_entries assms by metis
qed

section \<open>The interface\<close>

datatype ('k, 'v) map_op = SetOp 'k 'v | RemoveOp 'k | ClearOp

text \<open>The operations on partial functions.\<close>

fun spec_op :: "('k \<rightharpoonup> 'v) \<Rightarrow> ('k, 'v) map_op \<Rightarrow> ('k \<rightharpoonup> 'v)" where
  "spec_op f (SetOp k v) = f(k \<mapsto> v)"
| "spec_op f (RemoveOp k) = f(k := None)"
| "spec_op f ClearOp = (\<lambda>_. None)"

text \<open>What the clients of \<open>Map\<close> rely on: a finite partial function with its number of bindings.\<close>

locale finite_map =
  fixes empty :: 'm and get :: "'m \<Rightarrow> 'k \<Rightarrow> 'v option" and set_at :: "'m \<Rightarrow> 'k \<Rightarrow> 'v \<Rightarrow> 'm"
    and remove :: "'m \<Rightarrow> 'k \<Rightarrow> 'm" and clear :: "'m \<Rightarrow> 'm" and count :: "'m \<Rightarrow> int" and invar :: "'m \<Rightarrow> bool"
  assumes invar_empty: "invar empty" and get_empty: "get empty = (\<lambda>_. None)"
    and set_at: "invar m \<Longrightarrow> invar (set_at m k v) \<and> get (set_at m k v) = (get m)(k \<mapsto> v)"
    and remove: "invar m \<Longrightarrow> invar (remove m k) \<and> get (remove m k) = (get m)(k := None)"
    and clear: "invar m \<Longrightarrow> invar (clear m) \<and> get (clear m) = (\<lambda>_. None)"
    and count: "invar m \<Longrightarrow> count m = int (card (dom (get m)))"
begin

fun apply_op :: "'m \<Rightarrow> ('k, 'v) map_op \<Rightarrow> 'm" where
  "apply_op m (SetOp k v) = set_at m k v"
| "apply_op m (RemoveOp k) = remove m k"
| "apply_op m ClearOp = clear m"

lemma run_invar: "invar m \<Longrightarrow> invar (foldl apply_op m ops)"
proof (induction ops arbitrary: m)
  case (Cons op ops)
  then show ?case by (cases op) (simp_all add: set_at remove clear)
qed simp

lemma run_get: "invar m \<Longrightarrow> get (foldl apply_op m ops) = foldl spec_op (get m) ops"
proof (induction ops arbitrary: m)
  case (Cons op ops)
  then show ?case by (cases op) (simp_all add: set_at remove clear del: fun_upd_apply)
qed simp

lemma run_from_empty:
  "invar (foldl apply_op empty ops)"
  "get (foldl apply_op empty ops) = foldl spec_op (\<lambda>_. None) ops"
  "count (foldl apply_op empty ops) = int (card (dom (get (foldl apply_op empty ops))))"
  using run_invar [OF invar_empty] run_get [OF invar_empty] count get_empty by simp_all

end

text \<open>The operations on the model.\<close>

fun run_op :: "('k \<Rightarrow> u32) \<Rightarrow> ('k, 'v) immutable_map \<Rightarrow> ('k, 'v) map_op \<Rightarrow> ('k, 'v) immutable_map" where
  "run_op hash m (SetOp k v) = map_set hash m k v"
| "run_op hash m (RemoveOp k) = map_remove hash m k"
| "run_op hash m ClearOp = map_clear m"

lemma map_clear_ok: "map_ok hash m \<Longrightarrow> map_ok hash (map_clear m) \<and> map_get hash (map_clear m) = (\<lambda>_. None)"
proof -
  assume ok: "map_ok hash m"
  have "map_entries m = []" if "map_size m = 0" using ok that by (simp add: map_ok_def)
  then show ?thesis using ok map_get_entries [OF ok]
    by (auto simp: map_clear_def map_ok_def emptyMap_def map_entries_def map_get_def)
qed

interpretation hamt: finite_map emptyMap "map_get hash" "map_set hash" "map_remove hash" map_clear map_size "map_ok hash"
  for hash :: "'k \<Rightarrow> u32"
  by unfold_locales
    (auto simp: updateMap_ok map_set_def map_remove_def map_clear_ok map_size_card,
     simp_all add: map_ok_def emptyMap_def map_entries_def map_get_def fun_eq_iff)

lemma hamt_apply_op: "hamt.apply_op hash = run_op hash"
  by (intro ext) (rename_tac m op, case_tac op, simp_all)

lemmas hamt_run = hamt.run_from_empty [unfolded hamt_apply_op]

section \<open>Iteration\<close>

lemma visit_append:
  "visit f st (xs @ ys) = (case visit f st xs of (st', go) \<Rightarrow> if go then visit f st' ys else (st', False))"
  by (induction xs arbitrary: st) (auto split: prod.splits)

lemma visit_concat: "visit (\<lambda>st x. visit f st (g x)) st xs = visit f st (concat (map g xs))"
  by (induction xs arbitrary: st) (auto simp: visit_append split: prod.splits)

lemma in_order_simps: "in_order True = rev" "in_order False = (\<lambda>xs. xs)"
  by (simp_all add: in_order_def fun_eq_iff)

lemma in_order_concat: "in_order t (concat xs) = concat (map (in_order t) (in_order t xs))"
  by (cases t) (simp_all add: in_order_simps rev_concat)

lemma in_order_map: "in_order t (map f xs) = map f (in_order t xs)"
  by (simp add: in_order_def rev_map)

lemma node_iterate_visits: "node_iterate f t st n = visit f st (in_order t (entries n))"
proof (induction f t st n rule: node_iterate.induct)
  case (1 f t st l p)
  have "visit (\<lambda>st c. node_iterate f t st c) st (in_order t p) = visit (\<lambda>st c. visit f st (in_order t (entries c))) st (in_order t p)"
    by (rule visit_cong) (use 1 in auto)
  then show ?case by (simp add: visit_concat in_order_concat in_order_map comp_def)
next
  case (2 f t st n p)
  let ?e = "\<lambda>c. case c of None \<Rightarrow> [] | Some c \<Rightarrow> entries c"
  have "visit (\<lambda>st c. case c of None \<Rightarrow> (st, True) | Some c \<Rightarrow> node_iterate f t st c) st (in_order t p)
      = visit (\<lambda>st c. visit f st (in_order t (?e c))) st (in_order t p)"
    by (rule visit_cong) (use 2 in \<open>auto simp: in_order_def split: option.splits\<close>)
  then show ?case by (simp add: visit_concat in_order_concat in_order_map comp_def)
next
  case (4 f t st h e)
  show ?case by (cases "f st e") (simp add: in_order_def)
qed simp

definition item_entries :: "bool \<Rightarrow> ('k, 'v) item \<Rightarrow> ('k \<times> 'v) list" where
  "item_entries t it = (case it of Entry e \<Rightarrow> [e] | Child c \<Rightarrow> in_order t (entries c) | Hole \<Rightarrow> [])"

definition pending :: "bool \<Rightarrow> ('k, 'v) iter_stack \<Rightarrow> ('k \<times> 'v) list" where
  "pending t st = concat (map (\<lambda>(r, i). concat (map (item_entries t) (drop i (in_order t (root_items r))))) st)"

lemma concat_single: "concat (map (\<lambda>x. [x]) xs) = xs"
  by (induction xs) simp_all

lemma items_entries: "concat (map (item_entries t) (in_order t (node_items n))) = in_order t (entries n)"
proof (cases n)
  case (HashArrayMapNode m p)
  have "item_entries t \<circ> (\<lambda>c. case c of None \<Rightarrow> Hole | Some c \<Rightarrow> Child c) = in_order t \<circ> (\<lambda>c. case c of None \<Rightarrow> [] | Some c \<Rightarrow> entries c)"
    by (rule ext) (simp add: item_entries_def in_order_def split: option.splits)
  then show ?thesis unfolding HashArrayMapNode node_items.simps entries.simps in_order_concat in_order_map map_map by metis
qed (simp_all add: in_order_concat in_order_map comp_def item_entries_def concat_single, simp add: in_order_def item_entries_def)

lemma root_items_entries: "concat (map (item_entries t) (in_order t (root_items r))) = in_order t (root_entries r)"
  by (cases r) (simp_all add: root_items_def root_entries_def items_entries in_order_map comp_def item_entries_def concat_single)

lemma iter_next_pending:
  "case iter_next t st of None \<Rightarrow> pending t st = [] | Some (e, st') \<Rightarrow> pending t st = e # pending t st'"
proof (induction t st rule: iter_next.induct)
  case (1 t)
  then show ?case by (simp add: pending_def)
next
  case (2 t r i st)
  let ?its = "in_order t (root_items r)"
  show ?case
  proof (cases "i < length ?its")
    case False
    then have "pending t ((r, i) # st) = pending t st" by (simp add: pending_def)
    then show ?thesis using "2.IH"(5) False by (auto simp: iter_next.simps split: option.splits)
  next
    case True
    have p: "pending t ((r, i) # st) = item_entries t (?its ! i) @ pending t ((r, Suc i) # st)"
      using True by (simp add: pending_def Cons_nth_drop_Suc [symmetric])
    have new: "pending t ((Trie c, 0) # st') = in_order t (entries c) @ pending t st'" for c :: "('a, 'b) node" and st'
      using items_entries [of t c] by (simp add: pending_def root_items_def)
    have unfold: "iter_next t ((r, i) # st) = (case ?its ! i of
              Entry e \<Rightarrow> Some (e, (r, Suc i) # st)
            | Hole \<Rightarrow> iter_next t ((r, Suc i) # st)
            | Child c \<Rightarrow> (case c of ValueNode h e \<Rightarrow> Some (e, (r, Suc i) # st)
                         | _ \<Rightarrow> iter_next t ((Trie c, 0) # (r, Suc i) # st)))"
      using True by (subst iter_next.simps) simp
    show ?thesis
    proof (cases "?its ! i")
      case (Child c)
      have pc: "pending t ((r, i) # st) = pending t ((Trie c, 0) # (r, Suc i) # st)"
        unfolding p Child new by (simp add: item_entries_def)
      show ?thesis
      proof (cases c)
        case (ValueNode h e)
        then show ?thesis unfolding unfold p using Child by (simp add: item_entries_def in_order_def)
      next
        case (BitmapIndexedNode l p)
        show ?thesis unfolding unfold pc using "2.IH" True Child unfolding BitmapIndexedNode by simp
      next
        case (HashArrayMapNode n p)
        show ?thesis unfolding unfold pc using "2.IH" True Child unfolding HashArrayMapNode by simp
      next
        case (HashCollisionNode h es)
        show ?thesis unfolding unfold pc using "2.IH" True Child unfolding HashCollisionNode by simp
      qed
    next
      case Hole
      have ph: "pending t ((r, i) # st) = pending t ((r, Suc i) # st)" unfolding p Hole by (simp add: item_entries_def)
      show ?thesis unfolding unfold ph using Hole True "2.IH" by simp
    qed (simp add: unfold p item_entries_def)
  qed
qed

lemma iter_calls_pending: "iter_calls t n st = take n (pending t st)"
proof (induction n arbitrary: st)
  case (Suc n)
  then show ?case using iter_next_pending [of t st] by (auto split: option.splits prod.splits)
qed simp

lemma iterator_pending: "pending t (map_iterator m) = in_order t (map_entries m)"
  using root_items_entries [of t]
  by (auto simp: map_iterator_def pending_def map_entries_def in_order_def split: option.splits)

section \<open>Depth\<close>

fun depth :: "('k, 'v) node \<Rightarrow> nat" where
  "depth (BitmapIndexedNode l p) = Suc (fold max (map depth p) 0)"
| "depth (HashArrayMapNode n p) = Suc (fold max (map (\<lambda>c. case c of None \<Rightarrow> 0 | Some c \<Rightarrow> depth c) p) 0)"
| "depth (HashCollisionNode h es) = 1"
| "depth (ValueNode h e) = 1"

lemma fold_max_le: "fold max xs m \<le> b \<longleftrightarrow> m \<le> b \<and> (\<forall>x \<in> set xs. x \<le> b)" for b :: nat
  by (induction xs arbitrary: m) auto

lemma depth_kids:
  assumes "\<not> isLeafNode n" "shape_ok hash n" "\<forall>u c. map_of (kids n) u = Some c \<longrightarrow> depth c \<le> d"
  shows "depth n \<le> Suc d"
proof -
  have kid: "depth c \<le> d" if "(u, c) \<in> set (kids n)" for u c
    using assms(3) map_of_is_SomeI [OF distinct_kids that] by blast
  show ?thesis
  proof (cases n)
    case (BitmapIndexedNode l p)
    have "depth c \<le> d" if mem: "c \<in> set p" for c
    proof -
      obtain i where i: "i < length p" "c = p ! i" using mem by (auto simp: in_set_conv_nth)
      then have "(slots l ! i, c) \<in> set (zip (slots l) p)"
        using assms(2) BitmapIndexedNode unfolding in_set_zip by (intro exI [of _ i]) simp
      then have "(slots l ! i, c) \<in> set (kids n)" using BitmapIndexedNode by simp
      then show ?thesis by (rule kid)
    qed
    then show ?thesis using BitmapIndexedNode by (simp add: fold_max_le)
  next
    case (HashArrayMapNode m p)
    have "depth c \<le> d" if mem: "Some c \<in> set p" for c
    proof -
      obtain i where i: "i < length p" "p ! i = Some c" using mem by (auto simp: in_set_conv_nth)
      then have "(i, Some c) \<in> set (zip [0..<length p] p)" unfolding in_set_zip by (intro exI [of _ i]) simp
      then have "(i, c) \<in> set (kids n)" using HashArrayMapNode by (simp add: present_set)
      then show ?thesis by (rule kid)
    qed
    then show ?thesis using HashArrayMapNode by (auto simp: fold_max_le split: option.splits)
  qed (use assms(1) in auto)
qed

lemma chunk_bit: "t < 32 \<Longrightarrow> j < 5 \<Longrightarrow> bit (chunk t h) j \<longleftrightarrow> bit h (t + j)"
proof -
  assume t: "t < 32" and j: "j < 5"
  have m: "(31 :: u32) = mask 5" by (simp add: mask_eq_exp_minus_1)
  have "bit (unat (x AND 31)) j \<longleftrightarrow> bit x j" for x :: u32
    using j unfolding m by (auto simp: bit_unsigned_iff bit_and_iff bit_mask_iff)
  then show ?thesis using t by (simp add: chunk_def bit_drop_bit_eq)
qed

lemma chunks_determine:
  assumes "\<forall>i < 7. chunk (5 * i) h = chunk (5 * i) r"
  shows "h = r"
proof (rule bit_word_eqI)
  fix n assume "n < LENGTH(32)"
  then have n: "n div 5 < 7" "5 * (n div 5) < 32" "n = 5 * (n div 5) + n mod 5" by simp_all
  have "bit h n \<longleftrightarrow> bit (chunk (5 * (n div 5)) h) (n mod 5)" using chunk_bit [OF n(2), of "n mod 5" h] n(3) by simp
  also have "\<dots> \<longleftrightarrow> bit r n" using assms n(1) chunk_bit [OF n(2), of "n mod 5" r] n(3) by simp
  finally show "bit h n = bit r n" .
qed

lemma one_hash_leaf: "node_ok hash s n \<Longrightarrow> \<forall>e \<in> set (entries n). hash (fst e) = h \<Longrightarrow> isLeafNode n"
proof (induction n arbitrary: s rule: measure_induct_rule [of size])
  case (less n)
  show ?case
  proof (rule ccontr)
    assume nl: "\<not> isLeafNode n"
    have ok: "shape_ok hash n" "\<forall>u c. map_of (kids n) u = Some c \<longrightarrow> kid_ok hash s u c"
      using less.prems by (simp_all add: node_ok_kids)
    have one: "u = chunk s h" if "map_of (kids n) u = Some c" for u c
    proof -
      have c: "node_ok hash (s + 5) c" "list_all (\<lambda>e. chunk s (hash (fst e)) = u) (entries c)"
        using ok(2) that by (auto simp: kid_ok_def)
      obtain e where e: "e \<in> set (entries c)" using enough_entries [OF c(1)] by (cases "entries c") (auto split: if_splits)
      then have "e \<in> set (entries n)" unfolding entries_kids [OF nl ok(1)] using map_of_SomeD [OF that] by force
      then show ?thesis using c(2) e less.prems(2) by (auto simp: list_all_iff)
    qed
    have "length (kids n) \<le> 1"
    proof -
      have "set (map fst (kids n)) \<subseteq> {chunk s h}" using one distinct_kids [of n] by (auto simp: map_of_eq_Some_iff)
      then have "card (set (map fst (kids n))) \<le> 1" using card_mono [of "{chunk s h}"] by fastforce
      then show ?thesis using distinct_card [OF distinct_kids, of n] by simp
    qed
    then obtain u c where c: "kids n = [(u, c)]" "\<not> isLeafNode c" using kids_count [OF nl ok(1)] by auto
    then have "node_ok hash (s + 5) c" using ok(2) by (simp add: kid_ok_def)
    moreover have "\<forall>e \<in> set (entries c). hash (fst e) = h" using less.prems(2) c unfolding entries_kids [OF nl ok(1)] by simp
    moreover have "size c < size n" using kid_size [of u c n] c by simp
    ultimately show False using less.IH c(2) by blast
  qed
qed

definition agree :: "('k \<Rightarrow> u32) \<Rightarrow> nat \<Rightarrow> ('k, 'v) node \<Rightarrow> bool" where
  "agree hash i n \<longleftrightarrow> (\<forall>e \<in> set (entries n). \<forall>e' \<in> set (entries n). \<forall>j < i.
     chunk (5 * j) (hash (fst e)) = chunk (5 * j) (hash (fst e')))"

lemma agree_kid:
  assumes "node_ok hash (5 * i) n" "\<not> isLeafNode n" "agree hash i n" "map_of (kids n) u = Some c"
  shows "agree hash (Suc i) c" "node_ok hash (5 * Suc i) c"
proof -
  have ok: "shape_ok hash n" "kid_ok hash (5 * i) u c" using assms by (simp_all add: node_ok_kids)
  have sub: "set (entries c) \<subseteq> set (entries n)"
    unfolding entries_kids [OF assms(2) ok(1)] using map_of_SomeD [OF assms(4)] by force
  show "agree hash (Suc i) c"
    using assms(3) sub ok(2) by (auto simp: agree_def kid_ok_def list_all_iff less_Suc_eq)
  show "node_ok hash (5 * Suc i) c" using ok(2) by (simp add: kid_ok_def add.commute)
qed

lemma depth_bound: "node_ok hash (5 * i) n \<Longrightarrow> agree hash i n \<Longrightarrow> i \<le> 7 \<Longrightarrow> depth n \<le> 8 - i"
proof (induction "7 - i" arbitrary: i n)
  case 0
  then have i: "i = 7" by simp
  have "\<exists>h. \<forall>e \<in> set (entries n). hash (fst e) = h"
    using "0.prems"(2) chunks_determine unfolding agree_def i by blast
  then have "isLeafNode n" using one_hash_leaf "0.prems"(1) by blast
  then show ?case using i by (cases n) auto
next
  case (Suc d)
  show ?case
  proof (cases "isLeafNode n")
    case True
    then show ?thesis using Suc.prems(3) by (cases n) auto
  next
    case False
    have "depth c \<le> 8 - Suc i" if "map_of (kids n) u = Some c" for u c
      using Suc.hyps(1) [of "Suc i" c] Suc.hyps(2) agree_kid [OF Suc.prems(1) False Suc.prems(2) that] by simp
    moreover have "shape_ok hash n" using Suc.prems(1) by (simp add: node_ok_kids)
    ultimately show ?thesis using depth_kids [OF False, of hash "8 - Suc i"] Suc.hyps(2) by fastforce
  qed
qed

lemma run_ok: "map_ok hash (foldl (run_op hash) emptyMap ops)"
  by (rule hamt_run)

lemma trie_depth:
  assumes "map_ok hash m" "map_root m = Some (Trie c)"
  shows "node_ok hash 0 c \<and> depth c \<le> 8"
proof -
  have ok: "node_ok hash (5 * 0) c" using assms by (simp add: map_ok_def root_ok_def)
  have "agree hash 0 c" by (simp add: agree_def)
  then show ?thesis using depth_bound [OF ok] ok by simp
qed

lemma smi_bits: "bit (smi e) i \<longleftrightarrow> (if i = 30 then bit e 31 else bit e i)"
proof -
  have a: "(1073741824 :: u32) = 2 ^ 30" by simp
  have n: "(3221225471 :: u32) = NOT (2 ^ 30)" by simp
  show ?thesis
    unfolding smi_def a n bit_or_iff bit_and_iff bit_not_iff bit_exp_iff bit_drop_bit_eq possible_bit_word
    by (auto dest: bit_imp_le_length)
qed

section \<open>Properties\<close>

text \<open>
  C3: after any sequence of \<open>set\<close>, \<open>remove\<close> and \<open>clear\<close> from the empty map, whatever the hash function,
  \<open>get\<close> is the partial function that the same sequence gives on partial functions, and \<open>size\<close> is the
  number of its bindings.\<close>

theorem map_refines:
  "map_get hash (foldl (run_op hash) emptyMap ops) = foldl spec_op (\<lambda>_. None) ops
   \<and> map_size (foldl (run_op hash) emptyMap ops) = int (card (dom (foldl spec_op (\<lambda>_. None) ops)))"
  using hamt_run by metis

text \<open>
  C7: every reachable map is well formed: an array of one to eight entries with different keys, or a
  trie whose bitmaps, counts and hash fragments agree with its children, without superfluous levels,
  of at most eight levels.\<close>

theorem map_wellformed:
  "case map_root (foldl (run_op hash) emptyMap ops) of
     None \<Rightarrow> map_size (foldl (run_op hash) emptyMap ops) = 0
   | Some (ArrayMapNode es) \<Rightarrow> distinct (map fst es) \<and> 1 \<le> length es \<and> length es \<le> 8
   | Some (Trie c) \<Rightarrow> node_ok hash 0 c \<and> depth c \<le> 8"
proof -
  let ?m = "foldl (run_op hash) emptyMap ops"
  have ok: "map_ok hash ?m" by (rule run_ok)
  show ?thesis
    using ok trie_depth [OF ok]
    by (auto simp: map_ok_def map_entries_def root_ok_def Suc_le_eq split: option.splits root.splits)
qed

text \<open>
  C20: an iterator returns the entries of its map one by one, forwards or backwards, and then \<open>done\<close>: \<open>n\<close>
  calls of \<open>next\<close> return the first \<open>n\<close> entries. On a reachable map the entries are its bindings, each
  key once, and \<open>__iterate\<close> calls its callback on the same sequence until the callback returns \<open>false\<close>.\<close>

theorem map_iterates:
  "let m = foldl (run_op hash) emptyMap ops; es = in_order reverse (map_entries m)
   in iter_calls reverse n (map_iterator m) = take n es
      \<and> distinct (map fst es) \<and> map_of es = foldl spec_op (\<lambda>_. None) ops
      \<and> map_iterate f reverse st m =
          fst (visit (\<lambda>(st, r) x. case f st x of (st', go) \<Rightarrow> ((st', Suc r), go)) (st, 0) es)"
proof -
  let ?m = "foldl (run_op hash) emptyMap ops"
  let ?es = "in_order reverse (map_entries ?m)"
  have ok: "map_ok hash ?m" by (rule run_ok)
  have d: "distinct (map fst (map_entries ?m))" by (rule map_distinct [OF ok])
  have d': "distinct (map fst ?es)" using d by (cases reverse) (simp_all add: in_order_simps rev_map [symmetric])
  have "map_of ?es = map_of (map_entries ?m)" using map_of_inject_set [OF d' d] by simp
  also have "\<dots> = foldl spec_op (\<lambda>_. None) ops" using map_get_entries [OF ok] hamt_run(2) by metis
  finally have m: "map_of ?es = foldl spec_op (\<lambda>_. None) ops" .
  have "map_iterate f reverse st ?m =
      fst (visit (\<lambda>(st, r) x. case f st x of (st', go) \<Rightarrow> ((st', Suc r), go)) (st, 0) ?es)"
    by (simp add: map_iterate_def map_entries_def root_entries_def node_iterate_visits in_order_def split: option.splits root.splits)
  then show ?thesis using d' m by (simp add: Let_def iter_calls_pending iterator_pending)
qed

end
