(* ===== verification/Swagger_System.thy ===== *)
theory Swagger_System
  imports Redux_Store Immutable_Map_Correct
begin

text \<open>
  The \<open>System\<close> of Swagger UI: every state plugin has a slice of the state, kept under the plugin's name in an
  immutable map, and handlers by action type. The root reducer of the store is \<open>combineReducers\<close> of
  redux-immutable on the reducers of the slices. Handlers and wrappers are code of the plugins; what a
  call of them can end in is an \<open>outcome\<close>.
\<close>

section \<open>Handlers\<close>

datatype 'v outcome = Value 'v | Undefined_value | Null_value | Threw

text \<open>\<open>wrapWithTryCatch\<close> (\<open>E\<close>): an exception is logged and becomes \<open>null\<close>.\<close>

definition wrapWithTryCatch :: "('a \<Rightarrow> 'v outcome) \<Rightarrow> 'a \<Rightarrow> 'v outcome" where
  "wrapWithTryCatch e x = (case e x of Threw \<Rightarrow> Null_value | o' \<Rightarrow> o')"

type_synonym ('v, 'p) handlers = "jsstring \<Rightarrow> ('v \<times> 'p action \<Rightarrow> 'v outcome) option"

text \<open>
  \<open>makeReducer\<close>: the reducer of a slice, from the handlers of its plugin (\<open>None\<close> for a plugin without
  reducers); \<open>fresh\<close> is the new \<open>Map\<close> that a missing slice starts from. Its result \<open>None\<close> is \<open>undefined\<close>, and what
  the wrapped handler throws, it throws. The action has passed \<open>dispatch\<close>, so that it has a type.
\<close>

definition makeReducer :: "'v \<Rightarrow> ('v, 'p) handlers option \<Rightarrow> 'v option \<Rightarrow> 'p action \<Rightarrow> 'v option result" where
  "makeReducer fresh r e t =
     (let e = (case e of None \<Rightarrow> fresh | Some e \<Rightarrow> e)
      in case r of
           None \<Rightarrow> Inr (Some e)
         | Some r \<Rightarrow>
             (case Option.bind (a_type t) r of
                None \<Rightarrow> Inr (Some e)
              | Some n \<Rightarrow> (case wrapWithTryCatch n (e, t) of
                            Null_value \<Rightarrow> Inr (Some e) | Undefined_value \<Rightarrow> Inr None | Value o' \<Rightarrow> Inr (Some o')
                          | Threw \<Rightarrow> Inl (GenericError ''thrown by a handler''))))"

section \<open>The root reducer\<close>

definition validateNextState :: "'v option \<Rightarrow> 'v result" where
  "validateNextState e = (case e of None \<Rightarrow> Inl (GenericError ''Reducer returned undefined'') | Some v \<Rightarrow> Inr v)"

text \<open>\<open>combineReducers\<close> of redux-immutable, on the own keys of its argument in their order.\<close>

fun combine_loop ::
  "(jsstring \<Rightarrow> u32) \<Rightarrow> (jsstring \<times> ('v option \<Rightarrow> 'p action \<Rightarrow> 'v option result)) list \<Rightarrow> (jsstring, 'v) immutable_map \<Rightarrow> 'p action
   \<Rightarrow> (jsstring, 'v) immutable_map result" where
  "combine_loop hash [] n r = Inr n"
| "combine_loop hash ((t, e) # ts) n r =
     (case e (map_get hash n t) r of
        Inl err \<Rightarrow> Inl err
      | Inr o' \<Rightarrow>
          (case validateNextState o' of
             Inl err \<Rightarrow> Inl err
           | Inr o' \<Rightarrow> combine_loop hash ts (map_set hash n t o') r))"

definition combineReducers ::
  "(jsstring \<Rightarrow> u32) \<Rightarrow> (jsstring \<times> ('v option \<Rightarrow> 'p action \<Rightarrow> 'v option result)) list
   \<Rightarrow> (jsstring, 'v) immutable_map option \<Rightarrow> 'p action \<Rightarrow> (jsstring, 'v) immutable_map option result" where
  "combineReducers hash e n r =
     (case combine_loop hash e (case n of None \<Rightarrow> emptyMap | Some n \<Rightarrow> n) r of Inl err \<Rightarrow> Inl err | Inr n \<Rightarrow> Inr (Some n))"

text \<open>\<open>rebuildReducer\<close>: the identity without plugins.\<close>

definition rebuildReducer ::
  "(jsstring \<Rightarrow> u32) \<Rightarrow> 'v \<Rightarrow> (jsstring \<times> ('v, 'p) handlers option) list
   \<Rightarrow> (jsstring, 'v) immutable_map option \<Rightarrow> 'p action \<Rightarrow> (jsstring, 'v) immutable_map option result" where
  "rebuildReducer hash fresh plugins =
     (let t = map (\<lambda>(n, r). (n, makeReducer fresh r)) plugins
      in if t \<noteq> [] then combineReducers hash t else (\<lambda>e a. Inr e))"

section \<open>Actions\<close>

text \<open>\<open>getBoundActions\<close>: an action creator that throws yields the action that reports the error.\<close>

definition thrown_err :: "'p \<Rightarrow> 'p action" where
  "thrown_err payload = \<lparr>a_plain = True, a_type = Some (lit ''err_new_thrown_err''), a_payload = payload\<rparr>"

definition bound_creator :: "('a \<Rightarrow> 'p action outcome) \<Rightarrow> ('a \<Rightarrow> 'p) \<Rightarrow> 'a \<Rightarrow> 'p action outcome" where
  "bound_creator t err x = (case t x of Threw \<Rightarrow> Value (thrown_err (err x)) | o' \<Rightarrow> o')"

text \<open>\<open>getWrappedAndBoundActions\<close>: each wrapper gets what the wrappers before it have made of the action.\<close>

definition wrap_action :: "(('a \<Rightarrow> 'r outcome) \<Rightarrow> 'a \<Rightarrow> 'r outcome) list \<Rightarrow> ('a \<Rightarrow> 'r outcome) \<Rightarrow> 'a \<Rightarrow> 'r outcome" where
  "wrap_action o' e = foldl (\<lambda>e n. wrapWithTryCatch (n e)) e o'"

section \<open>Slices\<close>

definition slice_step :: "('v, 'p) handlers option \<Rightarrow> 'v \<Rightarrow> 'p action \<Rightarrow> 'v" where
  "slice_step r e t = (case Option.bind r (\<lambda>r. Option.bind (a_type t) r) of
     None \<Rightarrow> e | Some n \<Rightarrow> (case n (e, t) of Value o' \<Rightarrow> o' | _ \<Rightarrow> e))"

definition defined_results :: "('v, 'p) handlers option \<Rightarrow> bool" where
  "defined_results r \<longleftrightarrow> (\<forall>h ty n x. r = Some h \<and> h ty = Some n \<longrightarrow> n x \<noteq> Undefined_value)"

lemma makeReducer_slice:
  "defined_results r \<Longrightarrow> makeReducer fresh r e t = Inr (Some (slice_step r (case e of None \<Rightarrow> fresh | Some e \<Rightarrow> e) t))"
proof (cases "Option.bind r (\<lambda>r. Option.bind (a_type t) r)")
  case None
  then show ?thesis by (auto simp: makeReducer_def slice_step_def Let_def split: option.splits Option.bind_splits)
next
  case (Some n)
  assume "defined_results r"
  then have "n x \<noteq> Undefined_value" for x using Some by (cases x) (auto simp: defined_results_def split: Option.bind_splits)
  then show ?thesis using Some
    by (auto simp: makeReducer_def slice_step_def wrapWithTryCatch_def Let_def split: option.splits Option.bind_splits outcome.splits)
qed

lemma combine_loop_slices:
  assumes "map_ok hash m" "distinct (map fst rs)" "\<forall>(k, e) \<in> set rs. e (map_get hash m k) a = Inr (Some (v k))"
  shows "\<exists>m'. combine_loop hash rs m a = Inr m' \<and> map_ok hash m'
    \<and> map_get hash m' = (\<lambda>k. case map_of rs k of Some e \<Rightarrow> Some (v k) | None \<Rightarrow> map_get hash m k)"
  using assms
proof (induction rs arbitrary: m)
  case (Cons x rs)
  obtain t e where x: "x = (t, e)" "e (map_get hash m t) a = Inr (Some (v t))" using Cons.prems(3) by (cases x) auto
  let ?m = "map_set hash m t (v t)"
  have set: "map_ok hash ?m" "map_get hash ?m = (map_get hash m)(t \<mapsto> v t)"
    using hamt.set_at [OF Cons.prems(1), of t "v t"] by simp_all
  have "\<forall>(k, e) \<in> set rs. e (map_get hash ?m k) a = Inr (Some (v k))"
  proof (rule ballI, rule case_prodI2)
    fix x k f
    assume "x \<in> set rs" "x = (k, f)"
    then have kf: "(k, f) \<in> set rs" by simp
    have "k \<noteq> t" using kf Cons.prems(2) x(1) by force
    then show "f (map_get hash ?m k) a = Inr (Some (v k))" using kf Cons.prems(3) unfolding set(2) by auto
  qed
  then obtain m' where m': "combine_loop hash rs ?m a = Inr m'" "map_ok hash m'"
    "map_get hash m' = (\<lambda>k. case map_of rs k of Some e \<Rightarrow> Some (v k) | None \<Rightarrow> map_get hash ?m k)"
    using Cons.IH [OF set(1)] Cons.prems(2) by auto
  have "map_of rs t = None" using Cons.prems(2) x by (simp add: map_of_eq_None_iff)
  then have "map_get hash m' = (\<lambda>k. case map_of (x # rs) k of Some e \<Rightarrow> Some (v k) | None \<Rightarrow> map_get hash m k)"
    unfolding m'(3) set(2) using x by (auto simp: fun_eq_iff split: option.splits)
  then show ?case using m'(1,2) x by (simp add: validateNextState_def)
qed simp

definition slice_of :: "'v \<Rightarrow> 'v option \<Rightarrow> 'v" where
  "slice_of fresh e = (case e of None \<Rightarrow> fresh | Some e \<Rightarrow> e)"

lemma root_reducer_slices:
  assumes "map_ok hash m" "distinct (map fst plugins)" "\<forall>(k, r) \<in> set plugins. defined_results r"
  shows "\<exists>m'. rebuildReducer hash fresh plugins (Some m) a = Inr (Some m') \<and> map_ok hash m'
    \<and> map_get hash m' = (\<lambda>k. case map_of plugins k of
        Some r \<Rightarrow> Some (slice_step r (slice_of fresh (map_get hash m k)) a) | None \<Rightarrow> map_get hash m k)"
proof (cases "plugins = []")
  case True
  have r: "rebuildReducer hash fresh plugins (Some m) a = Inr (Some m)" using True by (simp add: rebuildReducer_def)
  show ?thesis by (intro exI conjI, rule r, rule assms(1)) (simp add: True)
next
  case False
  let ?rs = "map (\<lambda>(n, r). (n, makeReducer fresh r)) plugins"
  have keys: "map fst ?rs = map fst plugins" by (simp add: case_prod_beta comp_def)
  have red: "makeReducer fresh r e a = Inr (Some (slice_step r (slice_of fresh e) a))" if kr: "(k, r) \<in> set plugins" for k r e
  proof -
    have "defined_results r" using bspec [OF assms(3) kr] by simp
    then show ?thesis unfolding slice_of_def by (rule makeReducer_slice)
  qed
  have look: "map_of ?rs k = map_option (makeReducer fresh) (map_of plugins k)" for k
    by (simp add: map_of_map)
  let ?v = "\<lambda>k. slice_step (the (map_of plugins k)) (slice_of fresh (map_get hash m k)) a"
  have "\<forall>(k, e) \<in> set ?rs. e (map_get hash m k) a = Inr (Some (?v k))"
  proof (rule ballI, rule case_prodI2)
    fix x k e
    assume "x \<in> set ?rs" "x = (k, e)"
    then obtain r where r: "(k, r) \<in> set plugins" "e = makeReducer fresh r" by auto
    then have "map_of plugins k = Some r" using assms(2) by (simp add: map_of_eq_Some_iff)
    then show "e (map_get hash m k) a = Inr (Some (?v k))" using red [OF r(1)] r(2) by simp
  qed
  then obtain m' where m': "combine_loop hash ?rs m a = Inr m'" "map_ok hash m'"
    "map_get hash m' = (\<lambda>k. case map_of ?rs k of Some e \<Rightarrow> Some (?v k) | None \<Rightarrow> map_get hash m k)"
    using combine_loop_slices [OF assms(1), of ?rs a ?v] assms(2) unfolding keys by blast
  have "map_get hash m' = (\<lambda>k. case map_of plugins k of
        Some r \<Rightarrow> Some (slice_step r (slice_of fresh (map_get hash m k)) a) | None \<Rightarrow> map_get hash m k)"
    unfolding m'(3) look by (auto simp: fun_eq_iff split: option.splits)
  moreover have "rebuildReducer hash fresh plugins (Some m) a = Inr (Some m')"
    using False m'(1) by (simp add: rebuildReducer_def combineReducers_def)
  ultimately show ?thesis using m'(2) by blast
qed

lemma all_slices:
  assumes "distinct (map fst plugins)" "\<forall>(k, r) \<in> set plugins. defined_results r" "map_ok hash m"
  shows "\<exists>m'. reduce_all (rebuildReducer hash fresh plugins) (Some m) as = Inr (Some m') \<and> map_ok hash m'
    \<and> (\<forall>k. map_get hash m' k = (case map_of plugins k of
         Some r \<Rightarrow> if as = [] then map_get hash m k
                   else Some (foldl (slice_step r) (slice_of fresh (map_get hash m k)) as)
       | None \<Rightarrow> map_get hash m k))"
  using assms(3)
proof (induction as arbitrary: m)
  case Nil
  then show ?case by (auto split: option.splits)
next
  case (Cons a as)
  obtain m1 where m1: "rebuildReducer hash fresh plugins (Some m) a = Inr (Some m1)" "map_ok hash m1"
    "map_get hash m1 = (\<lambda>k. case map_of plugins k of
        Some r \<Rightarrow> Some (slice_step r (slice_of fresh (map_get hash m k)) a) | None \<Rightarrow> map_get hash m k)"
    using root_reducer_slices [OF Cons.prems assms(1,2)] by blast
  obtain m' where m': "reduce_all (rebuildReducer hash fresh plugins) (Some m1) as = Inr (Some m')" "map_ok hash m'"
    "\<forall>k. map_get hash m' k = (case map_of plugins k of
         Some r \<Rightarrow> if as = [] then map_get hash m1 k else Some (foldl (slice_step r) (slice_of fresh (map_get hash m1 k)) as)
       | None \<Rightarrow> map_get hash m1 k)"
    using Cons.IH [OF m1(2)] by blast
  have "map_get hash m' k = (case map_of plugins k of
         Some r \<Rightarrow> Some (foldl (slice_step r) (slice_of fresh (map_get hash m k)) (a # as))
       | None \<Rightarrow> map_get hash m k)" for k
    unfolding m'(3) [rule_format] m1(3) by (auto simp: slice_of_def split: option.splits)
  then show ?case using m'(1,2) m1(1) by (auto split: option.splits)
qed

section \<open>Property\<close>


definition counter_plugin :: "(jsstring \<times> (nat, nat) handlers option) list" where
  "counter_plugin = [(lit ''layout'', Some (\<lambda>ty. if ty = lit ''inc'' then Some (\<lambda>(v, a). Value (v + a_payload a)) else None))]"

definition inc_action :: "nat action" where
  "inc_action = \<lparr>a_plain = True, a_type = Some (lit ''inc''), a_payload = 3\<rparr>"

definition counter_store :: "((jsstring, nat) immutable_map, nat, nat) redux" where
  "counter_store = createStore (rebuildReducer hashString 0 counter_plugin) (Some emptyMap)"


end
