(* ===== verification/Punycode.thy ===== *)
theory Punycode
  imports JS_Prelude
begin

text \<open>
  The Punycode module of the bundle (\<open>punycode\<close> 1.3.2), with which the URL parser turns host names into ASCII:
  conversion between strings and code points, the decoder and encoder of labels, and the two
  conversions of whole domain names. Numbers stay below \<open>2 ^ 53\<close> and are integers; \<open>Math.floor\<close> of a
  quotient is \<open>div\<close>. The encoder's outer loop is a partial function whose value \<open>None\<close> is not returning;
  that it returns is a theorem.
\<close>

section \<open>Code points\<close>

fun ucs2_decode :: "jsstring \<Rightarrow> int list" where
  "ucs2_decode [] = []"
| "ucs2_decode [t] = [uint t]"
| "ucs2_decode (t # n # e) =
     (if 55296 \<le> t \<and> t \<le> 56319
      then if 64512 AND uint n = 56320
           then (push_bit 10 (1023 AND uint t) + (1023 AND uint n) + 65536) # ucs2_decode e
           else uint t # ucs2_decode (n # e)
      else uint t # ucs2_decode (n # e))"

definition point_units :: "int \<Rightarrow> jsstring" where
  "point_units e =
     (if 65535 < e
      then (let e = e - 65536
            in [of_int (bor (band (shru e 10) 1023) 55296), of_int (bor 56320 (band 1023 e))])
      else [of_int e])"

definition ucs2_encode :: "int list \<Rightarrow> jsstring" where
  "ucs2_encode e = concat (map point_units e)"

section \<open>Digits and bias\<close>

definition maxInt :: int where
  "maxInt = 2147483647"

definition digitToBasic :: "int \<Rightarrow> int \<Rightarrow> int" where
  "digitToBasic e t = e + 22 + 75 * (if e < 26 then 1 else 0) - shl (if 0 \<noteq> t then 1 else 0) 5"

definition basicToDigit :: "code_unit \<Rightarrow> int" where
  "basicToDigit y =
     (let y = uint y
      in if y - 48 < 10 then y - 22 else if y - 65 < 26 then y - 65 else if y - 97 < 26 then y - 97 else 36)"

definition threshold :: "int \<Rightarrow> int \<Rightarrow> int" where
  "threshold u C = (if u \<le> C then 1 else if C + 26 \<le> u then 26 else u - C)"

text \<open>
  \<open>adapt\<close> (\<open>T\<close>). The quotient by 0 is \<open>-Infinity\<close> in the code and 0 here, which gives the same thresholds: both
  are at least 26 below the first \<open>u\<close>.
\<close>

function adapt_loop :: "int \<Rightarrow> int \<Rightarrow> int \<times> int" where
  "adapt_loop e r = (if 455 < e then adapt_loop (e div 35) (r + 36) else (e, r))"
  by pat_completeness auto
termination
  by (relation "measure (\<lambda>(e, r). nat e)") auto

declare adapt_loop.simps [simp del]

definition adapt :: "int \<Rightarrow> int \<Rightarrow> bool \<Rightarrow> int" where
  "adapt e t n =
     (let e = (if n then e div 700 else drop_bit 1 (ToInt32 e));
          e = e + e div t;
          (e, r) = adapt_loop e 0
      in r + (36 * e) div (e + 38))"

section \<open>The decoder\<close>

text \<open>The inner loop: the digits of one number, least significant first.\<close>

fun decode_delta :: "int \<Rightarrow> jsstring \<Rightarrow> int \<Rightarrow> int \<Rightarrow> int \<Rightarrow> (int \<times> jsstring) result" where
  "decode_delta C [] w a u = Inl (RangeError ''Invalid input'')"
| "decode_delta C (y # e) w a u =
     (let p = basicToDigit y
      in if 36 \<le> p \<or> (maxInt - w) div a < p then Inl (RangeError ''Overflow'')
         else (let w = w + p * a; d = threshold u C
               in if p < d then Inr (w, e)
                  else if maxInt div (36 - d) < a then Inl (RangeError ''Overflow'')
                  else decode_delta C e w (a * (36 - d)) (u + 36)))"

text \<open>\<open>b.splice(w, 0, x)\<close>: a negative index counts from the end.\<close>

definition splice_in :: "int list \<Rightarrow> int \<Rightarrow> int \<Rightarrow> int list" where
  "splice_in b w x =
     (let i = nat (if w < 0 then max 0 (int (length b) + w) else w) in take i b @ [x] @ drop i b)"

lemma decode_delta_shorter: "decode_delta C e w a u = Inr (w', e') \<Longrightarrow> length e' < length e"
  by (induction C e w a u rule: decode_delta.induct)
    (auto simp: Let_def split: if_splits dest: less_SucI)

function decode_points :: "jsstring \<Rightarrow> int \<Rightarrow> int \<Rightarrow> int \<Rightarrow> int list \<Rightarrow> int list result" where
  "decode_points e i x C b =
     (if e = [] then Inr b
      else (case decode_delta C e i 1 36 of
              Inl err \<Rightarrow> Inl err
            | Inr (w, e) \<Rightarrow>
                (let t = int (length b) + 1;
                     C = adapt (w - i) t (0 = i)
                 in if maxInt - x < w div t then Inl (RangeError ''Overflow'')
                    else (let x = x + w div t;
                              w = w - t * js_quot w t
                          in decode_points e (w + 1) x C (splice_in b w x)))))"
  by pat_completeness auto
termination
  by (relation "measure (\<lambda>(e, i, x, C, b). length e)") (auto dest: decode_delta_shorter)

declare decode_points.simps [simp del]

text \<open>\<open>lastIndexOf\<close> for one code unit.\<close>

fun last_index_of :: "'a \<Rightarrow> 'a list \<Rightarrow> nat option" where
  "last_index_of c [] = None"
| "last_index_of c (x # xs) =
     (case last_index_of c xs of Some i \<Rightarrow> Some (Suc i) | None \<Rightarrow> if x = c then Some 0 else None)"

definition decode :: "jsstring \<Rightarrow> jsstring result" where
  "decode e =
     (let n = (case last_index_of 45 e of None \<Rightarrow> 0 | Some n \<Rightarrow> n)
      in if \<exists>y \<in> set (take n e). 128 \<le> y then Inl (RangeError ''Illegal input >= 0x80 (not a basic code point)'')
         else (case decode_points (drop (if 0 < n then n + 1 else 0) e) 0 128 72 (map uint (take n e)) of
                 Inl err \<Rightarrow> Inl err
               | Inr b \<Rightarrow> Inr (ucs2_encode b)))"

section \<open>The encoder\<close>

function emit_delta :: "int \<Rightarrow> int \<Rightarrow> int \<Rightarrow> jsstring" where
  "emit_delta i p d =
     (let g = threshold d i
      in if p < g then [of_int (digitToBasic p 0)]
         else of_int (digitToBasic (g + (p - g) mod (36 - g)) 0) # emit_delta i ((p - g) div (36 - g)) (d + 36))"
  by pat_completeness auto
termination
proof (relation "measure (\<lambda>(i, p, d). nat p)")
  fix i p d g :: int
  assume g: "g = threshold d i" "\<not> p < g"
  then have "1 \<le> g" "g \<le> 26" by (auto simp: threshold_def)
  then have "(p - g) div (36 - g) \<le> p - g" using zdiv_mono2 [of "p - g" 1 "36 - g"] g(2) by simp
  then show "((i, (p - g) div (36 - g), d + 36), (i, p, d)) \<in> measure (\<lambda>(i, p, d). nat p)"
    using \<open>1 \<le> g\<close> g(2) by auto
qed simp

declare emit_delta.simps [simp del]

text \<open>The least code point that is not below \<open>t\<close>.\<close>

definition next_point :: "int list \<Rightarrow> int \<Rightarrow> int" where
  "next_point e t = foldl (\<lambda>u y. if t \<le> y \<and> y < u then y else u) maxInt e"

text \<open>One pass over the code points: \<open>n\<close> is the delta, \<open>i\<close> the bias, \<open>r\<close> the number of handled points, \<open>k\<close> the output.\<close>

fun encode_pass ::
  "int \<Rightarrow> int \<Rightarrow> int \<Rightarrow> int list \<Rightarrow> int \<Rightarrow> int \<Rightarrow> int \<Rightarrow> jsstring \<Rightarrow> (int \<times> int \<times> int \<times> jsstring) result" where
  "encode_pass t o' h [] n i r k = Inr (n, i, r, k)"
| "encode_pass t o' h (y # e) n i r k =
     (let n = (if y < t then n + 1 else n)
      in if y < t \<and> maxInt < n then Inl (RangeError ''Overflow'')
         else if y = t then encode_pass t o' h e 0 (adapt n h (r = o')) (r + 1) (k @ emit_delta i n 36)
         else encode_pass t o' h e n i r k)"

partial_function (option) encode_loop ::
  "int list \<Rightarrow> int \<Rightarrow> int \<Rightarrow> int \<Rightarrow> int \<Rightarrow> int \<Rightarrow> jsstring \<Rightarrow> jsstring result option" where
  "encode_loop e o' t n i r k =
     (if r < int (length e)
      then (let u = next_point e t
            in if (maxInt - n) div (r + 1) < u - t then Some (Inl (RangeError ''Overflow''))
               else (case encode_pass u o' (r + 1) e (n + (u - t) * (r + 1)) i r k of
                       Inl err \<Rightarrow> Some (Inl err)
                     | Inr (n, i, r, k) \<Rightarrow> encode_loop e o' (u + 1) (n + 1) i r k))
      else Some (Inr k))"

declare encode_loop.simps [code]

definition encode :: "jsstring \<Rightarrow> jsstring result option" where
  "encode s =
     (let e = ucs2_decode s;
          k = map of_int (filter (\<lambda>y. y < 128) e);
          o' = int (length k)
      in encode_loop e o' 128 0 72 o' (if o' \<noteq> 0 then k @ [45] else k))"

section \<open>Domain names\<close>

text \<open>\<open>map\<close> (\<open>C\<close>) goes from the last element to the first, so the error of the last label that has one is thrown.\<close>

fun map_labels :: "('a \<Rightarrow> 'b result option) \<Rightarrow> 'a list \<Rightarrow> 'b list result option" where
  "map_labels f [] = Some (Inr [])"
| "map_labels f (x # xs) =
     Option.bind (map_labels f xs) (\<lambda>ys.
       case ys of Inl err \<Rightarrow> Some (Inl err)
       | Inr ys \<Rightarrow> map_option (\<lambda>y. case y of Inl err \<Rightarrow> Inl err | Inr y \<Rightarrow> Inr (y # ys)) (f x))"

definition separator :: "code_unit \<Rightarrow> bool" where
  "separator c \<longleftrightarrow> c = 46 \<or> c = 12290 \<or> c = 65294 \<or> c = 65377"

definition mapDomain :: "jsstring \<Rightarrow> (jsstring \<Rightarrow> jsstring result option) \<Rightarrow> jsstring result option" where
  "mapDomain e t =
     (let n = split_on 64 e;
          (r, e) = (if 1 < length n then (n ! 0 @ [64], n ! 1) else ([], e))
      in map_option (\<lambda>l. case l of Inl err \<Rightarrow> Inl err | Inr l \<Rightarrow> Inr (r @ join_with 46 l))
           (map_labels t (split_on 46 (map (\<lambda>c. if separator c then 46 else c) e))))"

definition label_to_ascii :: "jsstring \<Rightarrow> jsstring result option" where
  "label_to_ascii e =
     (if \<exists>c \<in> set e. \<not> (32 \<le> c \<and> c \<le> 126)
      then map_option (\<lambda>k. case k of Inl err \<Rightarrow> Inl err | Inr k \<Rightarrow> Inr (lit ''xn--'' @ k)) (encode e)
      else Some (Inr e))"

definition toASCII :: "jsstring \<Rightarrow> jsstring result option" where
  "toASCII e = mapDomain e label_to_ascii"

text \<open>\<open>lower\<close> is \<open>toLowerCase\<close> of JavaScript.\<close>

definition label_to_unicode :: "(jsstring \<Rightarrow> jsstring) \<Rightarrow> jsstring \<Rightarrow> jsstring result option" where
  "label_to_unicode lower e =
     Some (if take 4 e = lit ''xn--'' then decode (lower (drop 4 e)) else Inr e)"

definition toUnicode :: "(jsstring \<Rightarrow> jsstring) \<Rightarrow> jsstring \<Rightarrow> jsstring result option" where
  "toUnicode lower e = mapDomain e (label_to_unicode lower)"

section \<open>Code points and digits\<close>

lemma point_units_small: "point_units (uint (t :: code_unit)) = [t]"
proof -
  have "uint t < 65536" using unsigned_less [of t, where 'a = int] by simp
  then show ?thesis by (simp add: point_units_def)
qed

lemma unit_fields:
  "1023 AND uint (t :: code_unit) = uint t mod 1024"
  "64512 AND uint n = 56320 \<longleftrightarrow> 56320 \<le> uint (n :: code_unit) \<and> uint n \<le> 57343"
proof -
  show "1023 AND uint t = uint t mod 1024"
    using take_bit_eq_mask [of 10 "uint t"] by (simp add: take_bit_eq_mod mask_eq_exp_minus_1 and.commute)
  have n: "uint n < 65536" "0 \<le> uint n" using unsigned_less [of n, where 'a = int] by simp_all
  have m: "(64512 :: int) = push_bit 10 (mask 6)" by (simp add: mask_eq_exp_minus_1 push_bit_eq_mult)
  have "64512 AND uint n = push_bit 10 (drop_bit 10 (uint n))"
    unfolding m by (rule bit_eqI) (auto simp: bit_and_iff bit_push_bit_iff bit_drop_bit_eq bit_mask_iff bit_uint_iff)
  then have "64512 AND uint n = 1024 * (uint n div 1024)" by (simp add: push_bit_eq_mult drop_bit_eq_div)
  moreover have "1024 * (uint n div 1024) \<le> uint n" "uint n < 1024 * (uint n div 1024) + 1024"
    using mult_div_mod_eq [of 1024 "uint n"] pos_mod_bound [of 1024 "uint n"] pos_mod_sign [of 1024 "uint n"] by linarith+
  ultimately show "64512 AND uint n = 56320 \<longleftrightarrow> 56320 \<le> uint n \<and> uint n \<le> 57343" by auto
qed

lemma or_disjoint_int: "0 \<le> x \<Longrightarrow> x < 1024 \<Longrightarrow> bor x (1024 * m) = x + 1024 * m" if "0 \<le> m" "m < 64" for x m :: int
proof -
  assume x: "0 \<le> x" "x < 1024"
  have "x = take_bit 10 x" using x by (simp add: take_bit_eq_mod)
  then have low: "bit x i \<Longrightarrow> i < 10" for i by (metis bit_take_bit_iff)
  have "1024 * m = push_bit 10 m" by (simp add: push_bit_eq_mult)
  then have "x OR (1024 * m) = x + 1024 * m"
    by (intro disjunctive_add [symmetric]) (use low in \<open>auto simp: bit_push_bit_iff dest: leD\<close>)
  then show ?thesis using that x by (simp add: bor_def ToInt32_small)
qed

lemma point_units_pair:
  assumes "55296 \<le> uint t" "uint t \<le> 56319" "56320 \<le> uint n" "uint n \<le> 57343"
  shows "point_units (push_bit 10 (1023 AND uint t) + (1023 AND uint n) + 65536) = [t, n :: code_unit]"
proof -
  define x y where "x = uint t mod 1024" and "y = uint n mod 1024"
  have xy: "0 \<le> x" "x < 1024" "0 \<le> y" "y < 1024" by (simp_all add: x_def y_def)
  have q: "uint t div 1024 = 54" "uint n div 1024 = 55"
    using assms int_div_pos_eq [of "uint t" 1024 54 "uint t - 55296"] int_div_pos_eq [of "uint n" 1024 55 "uint n - 56320"]
    by simp_all
  have tn: "uint t = 55296 + x" "uint n = 56320 + y"
    using mult_div_mod_eq [of 1024 "uint t"] mult_div_mod_eq [of 1024 "uint n"] unfolding x_def y_def q by linarith+
  let ?e = "1024 * x + y"
  have e: "0 \<le> ?e" "?e < 1048576" using xy by auto
  have "shru ?e 10 = x"
    using e xy by (simp add: shru_def ToUint32_def take_bit_int_eq_self drop_bit_eq_div)
  moreover have b: "band z 1023 = z mod 1024" "band 1023 z = z mod 1024" if "0 \<le> z" "z < 2147483648" for z
    using that take_bit_eq_mask [of 10 z] by (simp_all add: band_def ToInt32_small take_bit_eq_mod mask_eq_exp_minus_1 and.commute)
  ultimately have "bor (band (shru ?e 10) 1023) 55296 = uint t"
    using xy or_disjoint_int [of 54 x] tn(1) by simp
  moreover have "bor 56320 (band 1023 ?e) = bor y 56320"
    using e xy b(2) [of ?e] by (simp add: bor_def or.commute)
  then have "bor 56320 (band 1023 ?e) = uint n"
    using xy or_disjoint_int [of 55 y] tn(2) by simp
  moreover have "point_units (?e + 65536) = [of_int (bor (band (shru ?e 10) 1023) 55296), of_int (bor 56320 (band 1023 ?e))]"
    using e by (simp add: point_units_def Let_def)
  moreover have "push_bit 10 (1023 AND uint t) + (1023 AND uint n) + 65536 = ?e + 65536"
    unfolding unit_fields x_def y_def by (simp add: push_bit_eq_mult)
  ultimately show ?thesis by simp
qed

lemma ucs2_encode_decode: "ucs2_encode (ucs2_decode s) = s"
proof (induction s rule: ucs2_decode.induct)
  case (3 t n e)
  show ?case
  proof (cases "55296 \<le> t \<and> t \<le> 56319 \<and> 64512 AND uint n = 56320")
    case True
    then have "55296 \<le> uint t" "uint t \<le> 56319" by (simp_all add: word_le_def)
    then show ?thesis using True "3.IH"(1) point_units_pair [of t n] unit_fields(2) [of n] by (simp add: ucs2_encode_def)
  next
    case False
    then show ?thesis using "3.IH" by (auto simp: ucs2_encode_def point_units_small)
  qed
qed (simp_all add: ucs2_encode_def point_units_small)

lemma ucs2_decode_range: "y \<in> set (ucs2_decode s) \<Longrightarrow> 0 \<le> y \<and> y < 1114112"
proof (induction s rule: ucs2_decode.induct)
  case (3 t n e)
  have "uint t < 65536" using unsigned_less [of t, where 'a = int] by simp
  then show ?case using 3 unfolding ucs2_decode.simps unit_fields(1)
    by (auto simp: push_bit_eq_mult split: if_splits)
next
  case (2 t)
  then show ?case using unsigned_less [of t, where 'a = int] by simp
qed simp

text \<open>The characters of encoded numbers.\<close>

definition puny_digit :: "code_unit \<Rightarrow> bool" where
  "puny_digit c \<longleftrightarrow> 48 \<le> c \<and> c \<le> 57 \<or> 97 \<le> c \<and> c \<le> 122"

lemma puny_digit_others: "puny_digit c \<Longrightarrow> c \<noteq> 45 \<and> c < 128 \<and> \<not> (65 \<le> c \<and> c \<le> 90) \<and> c \<noteq> 46 \<and> c \<noteq> 64"
  by (auto simp: puny_digit_def word_le_def word_less_def word_uint_eq_iff)

lemma digit_round:
  assumes q: "0 \<le> q" "q < 36"
  shows "basicToDigit (of_int (digitToBasic q 0)) = q" "puny_digit (of_int (digitToBasic q 0))"
proof -
  have d: "digitToBasic q 0 = (if q < 26 then 97 + q else 22 + q)" by (simp add: digitToBasic_def shl_def ToInt32_def)
  have u: "uint (of_int (digitToBasic q 0) :: code_unit) = digitToBasic q 0"
    using q by (simp add: d uint_word_of_int)
  show "basicToDigit (of_int (digitToBasic q 0)) = q" "puny_digit (of_int (digitToBasic q 0))"
    unfolding word_le_def puny_digit_def basicToDigit_def u using q by (auto simp: d)
qed

lemma threshold_range: "1 \<le> threshold u C \<and> threshold u C \<le> 26"
  by (auto simp: threshold_def)

lemma first_digit:
  fixes p g :: int
  assumes "\<not> p < g" "1 \<le> g" "g \<le> 26"
  shows "g \<le> g + (p - g) mod (36 - g)" "g + (p - g) mod (36 - g) < 36" "0 \<le> (p - g) div (36 - g)"
    "g + (p - g) mod (36 - g) + (36 - g) * ((p - g) div (36 - g)) = p"
proof -
  show "g \<le> g + (p - g) mod (36 - g)" "0 \<le> (p - g) div (36 - g)"
    using assms by (simp_all add: pos_imp_zdiv_nonneg_iff)
  have "(p - g) mod (36 - g) < 36 - g" using assms(3) by simp
  then show "g + (p - g) mod (36 - g) < 36" by simp
  show "g + (p - g) mod (36 - g) + (36 - g) * ((p - g) div (36 - g)) = p"
    using mult_div_mod_eq [of "36 - g" "p - g"] by linarith
qed

lemma emit_code: "0 \<le> p \<Longrightarrow> c \<in> set (emit_delta i p d) \<Longrightarrow> puny_digit c"
proof (induction i p d rule: emit_delta.induct)
  case (1 i p d)
  let ?g = "threshold d i"
  have g: "1 \<le> ?g" "?g \<le> 26" using threshold_range by auto
  show ?case
  proof (cases "p < ?g")
    case True
    then show ?thesis using 1 g digit_round [of p] by (simp add: emit_delta.simps [of i p d] Let_def)
  next
    case False
    note fd = first_digit [OF False g]
    consider "c = of_int (digitToBasic (?g + (p - ?g) mod (36 - ?g)) 0)" | "c \<in> set (emit_delta i ((p - ?g) div (36 - ?g)) (d + 36))"
      using "1.prems"(2) False by (auto simp: emit_delta.simps [of i p d] Let_def)
    then show ?thesis
    proof cases
      case 1
      then show ?thesis using digit_round [of "?g + (p - ?g) mod (36 - ?g)"] fd(1,2) g(1) by simp
    next
      case 2
      then show ?thesis using "1.IH" [OF refl False fd(3)] by simp
    qed
  qed
qed

lemma emit_not_Nil: "emit_delta i p d \<noteq> []"
  by (simp add: emit_delta.simps [of i p d] Let_def)

section \<open>One number\<close>

lemma le_div_pos: "0 < a \<Longrightarrow> q * a \<le> m \<Longrightarrow> q \<le> m div (a :: int)"
  using zdiv_mono1 [of "q * a" m a] by simp

text \<open>What the encoder writes for a delta, the decoder reads; \<open>a\<close> is the weight of the first digit.\<close>

lemma decode_emit:
  "0 \<le> p \<Longrightarrow> 0 < a \<Longrightarrow> w + a * p \<le> maxInt \<Longrightarrow> 35 * (a * p) \<le> maxInt \<Longrightarrow>
   decode_delta C (emit_delta C p u @ e) w a u = Inr (w + a * p, e)"
proof (induction C p u arbitrary: a w rule: emit_delta.induct)
  case (1 C p u)
  let ?g = "threshold u C"
  have g: "1 \<le> ?g" "?g \<le> 26" using threshold_range by auto
  have fits: "q \<le> (maxInt - w) div a" if "q \<le> p" for q
  proof -
    have "q * a \<le> p * a" using that "1.prems"(2) by (simp add: mult_right_mono)
    then have "q * a \<le> maxInt - w" using "1.prems"(3) by (simp add: mult.commute)
    then show ?thesis using "1.prems"(2) by (intro le_div_pos)
  qed
  show ?case
  proof (cases "p < ?g")
    case True
    then show ?thesis using "1.prems" g digit_round [of p] fits [of p]
      by (simp add: emit_delta.simps [of C p u] Let_def mult.commute not_less)
  next
    case False
    note fd = first_digit [OF False g]
    define q r where "q = ?g + (p - ?g) mod (36 - ?g)" and "r = (p - ?g) div (36 - ?g)"
    note fd = fd [folded q_def r_def]
    have "a * 1 \<le> a * p" using False g "1.prems"(2) by (intro mult_left_mono) auto
    then have "a * (36 - ?g) \<le> 35 * (a * p)" using g "1.prems"(2) mult_left_mono [of "36 - ?g" 35 a] by simp
    then have weight: "a \<le> maxInt div (36 - ?g)" using "1.prems"(4) g by (intro le_div_pos) auto
    have sum: "w + q * a + a * (36 - ?g) * r = w + a * p" using fd(4) by (simp add: algebra_simps flip: distrib_left)
    have "0 \<le> q * a" using fd(1) g "1.prems"(2) by simp
    then have le: "35 * (a * (36 - ?g) * r) \<le> maxInt" using sum "1.prems"(4) by linarith
    have a': "0 < a * (36 - ?g)" using "1.prems"(2) g by simp
    have "decode_delta C (emit_delta C r (u + 36) @ e) (w + q * a) (a * (36 - ?g)) (u + 36)
        = Inr (w + q * a + a * (36 - ?g) * r, e)"
      unfolding r_def using "1.prems"(3) sum
      by (intro "1.IH" [OF refl False] fd(3) [unfolded r_def] a' le [unfolded r_def]) (simp add: r_def)
    then have "decode_delta C (emit_delta C r (u + 36) @ e) (w + q * a) (a * (36 - ?g)) (u + 36) = Inr (w + a * p, e)"
      unfolding sum .
    moreover have "0 \<le> r * (36 - ?g)" using fd(3) g by simp
    then have "q \<le> p" using fd(4) by (simp add: mult.commute)
    ultimately show ?thesis using False g fd(1,2) digit_round [of q] fits [of q] weight
      by (simp add: emit_delta.simps [of C p u] Let_def q_def [symmetric] r_def [symmetric] not_less)
  qed
qed

text \<open>The number of points matters to \<open>adapt\<close> only if it is at most half the delta.\<close>

lemma adapt_small:
  assumes "0 \<le> n" "n \<le> h" "h < t" "h < t'" "h \<le> maxInt"
  shows "adapt n t False = adapt n t' False"
proof -
  have n: "drop_bit 1 (ToInt32 n) = n div 2" using assms by (simp add: ToInt32_small maxInt_def drop_bit_eq_div)
  have "n div 2 div t = 0" "n div 2 div t' = 0" using assms by (auto intro!: div_pos_pos_trivial)
  then show ?thesis unfolding adapt_def if_False n by (simp only: Let_def)
qed

section \<open>The next code point\<close>

lemma next_point_fold:
  fixes u t :: int
  defines "v \<equiv> \<lambda>u ys. foldl (\<lambda>u y. if t \<le> y \<and> y < u then y else u) u ys"
  shows "v u ys \<le> u \<and> (v u ys = u \<or> v u ys \<in> set ys \<and> t \<le> v u ys) \<and> (\<forall>y \<in> set ys. t \<le> y \<longrightarrow> v u ys \<le> y)"
proof (induction ys arbitrary: u)
  case (Cons y ys)
  have "v u (y # ys) = v (if t \<le> y \<and> y < u then y else u) ys" by (simp add: v_def)
  then show ?case using Cons [of "if t \<le> y \<and> y < u then y else u"] by (auto split: if_splits)
qed (simp add: v_def)

lemma next_point_props:
  assumes "y \<in> set e" "t \<le> y" "\<forall>y \<in> set e. y < maxInt"
  shows "next_point e t \<in> set e" "t \<le> next_point e t" "\<forall>y \<in> set e. t \<le> y \<longrightarrow> next_point e t \<le> y"
  using next_point_fold [of t maxInt e] assms unfolding next_point_def by force+

lemma next_point_filter:
  assumes "y \<in> set e" "t \<le> y" "\<forall>y \<in> set e. y < maxInt"
  shows "filter (\<lambda>y. y < next_point e t) e = filter (\<lambda>y. y < t) e"
  using next_point_props [OF assms] by (intro filter_cong) force+

lemma handled_more:
  fixes u :: int
  assumes "u \<in> set e"
  shows "length (filter (\<lambda>y. y < u) e) < length (filter (\<lambda>y. y < u + 1) e)"
  using assms
proof (induction e)
  case (Cons y e)
  have "length (filter (\<lambda>y. y < u) e) \<le> length (filter (\<lambda>y. y < u + 1) e)"
    by (induction e) auto
  then show ?case using Cons by auto
qed simp

lemma not_handled:
  fixes t :: int
  assumes "int (length (filter (\<lambda>y. y < t) e)) < int (length e)"
  obtains y where "y \<in> set e" "t \<le> y"
proof (cases "\<exists>y \<in> set e. t \<le> y")
  case False
  then have "filter (\<lambda>y. y < t) e = e" by (intro filter_True) auto
  then show ?thesis using assms by simp
qed (use that in blast)

section \<open>Termination\<close>

lemma pass_count: "encode_pass t o' h e n i r k = Inr (n', i', r', k') \<Longrightarrow> r' = r + int (length (filter (\<lambda>y. y = t) e))"
  by (induction t o' h e n i r k rule: encode_pass.induct) (auto simp: Let_def split: if_splits)

lemma filter_split: "length (filter (\<lambda>y. y < t) e) + length (filter (\<lambda>y. y = t) e) = length (filter (\<lambda>y. y < t + 1) e)"
  for t :: int by (induction e) auto

lemma encode_loop_returns:
  assumes "\<forall>y \<in> set e. y < maxInt"
  shows "r = int (length (filter (\<lambda>y. y < t) e)) \<Longrightarrow> \<exists>v. encode_loop e o' t n i r k = Some v"
proof (induction "length e - nat r" arbitrary: t n i r k rule: less_induct)
  case less
  show ?case
  proof (cases "r < int (length e)")
    case False
    then show ?thesis by (simp add: encode_loop.simps [of e])
  next
    case True
    then obtain y where y: "y \<in> set e" "t \<le> y" using not_handled less.prems by metis
    define u where "u = next_point e t"
    note u = next_point_props [OF y assms, folded u_def] next_point_filter [OF y assms, folded u_def]
    show ?thesis
    proof (cases "encode_pass u o' (r + 1) e (n + (u - t) * (r + 1)) i r k")
      case (Inl err)
      then show ?thesis using True by (simp add: encode_loop.simps [of e] Let_def u_def)
    next
      case (Inr v)
      obtain n' i' r' k' where v: "v = (n', i', r', k')" by (cases v)
      have "r' = int (length (filter (\<lambda>y. y < u + 1) e))"
        using pass_count [OF Inr [unfolded v]] less.prems u(4) filter_split [of u e] by simp
      moreover have "r < r'" using handled_more [OF u(1)] u(4) less.prems calculation by simp
      moreover have "0 \<le> r" using less.prems by simp
      ultimately have "\<exists>v. encode_loop e o' (u + 1) (n' + 1) i' r' k' = Some v"
        using less.hyps [of r' "u + 1" "n' + 1" i' k'] True by simp
      then show ?thesis using Inr v True by (simp add: encode_loop.simps [of e _ t] Let_def u_def)
    qed
  qed
qed

section \<open>The decoder follows the encoder\<close>

lemma decode_step:
  assumes "0 \<le> n" "0 \<le> w" "w + n = (t - x) * (int (length b) + 1) + int p" "p \<le> length b" "x \<le> t" "t \<le> maxInt"
    and "w + n \<le> maxInt" "35 * n \<le> maxInt"
  shows "decode_points (emit_delta C n 36 @ e) w x C b
    = decode_points e (int p + 1) t (adapt n (int (length b) + 1) (0 = w)) (take p b @ [t] @ drop p b)"
proof -
  let ?L = "int (length b) + 1"
  have d: "decode_delta C (emit_delta C n 36 @ e) w 1 36 = Inr (w + n, e)"
    using decode_emit [of n 1 w C 36 e] assms(1,7,8) by simp
  have q: "(w + n) div ?L = t - x" "(w + n) mod ?L = int p"
    using assms(4) unfolding assms(3) by (simp_all add: div_pos_pos_trivial)
  have "js_quot (w + n) ?L = (w + n) div ?L" using assms(1,2) by (auto simp: js_quot_def sgn_if)
  then have r: "w + n - ?L * js_quot (w + n) ?L = int p"
    using q(2) minus_mult_div_eq_mod [of "w + n" ?L] by simp
  have "splice_in b (int p) t = take p b @ [t] @ drop p b" by (simp add: splice_in_def)
  then show ?thesis using assms(6) emit_not_Nil [of C n 36]
    by (subst decode_points.simps) (simp add: d Let_def q(1) r)
qed

text \<open>
  During a pass for the code point \<open>t\<close>, with \<open>xs\<close> behind and \<open>ys\<close> ahead: the decoder has the handled points \<open>b\<close>,
  its position \<open>w\<close> and code point \<open>x\<close> are those of the last insertion, and the encoder's delta is the
  distance to the place of the next one.
\<close>

definition small_points :: "int list \<Rightarrow> bool" where
  "small_points e \<longleftrightarrow> (\<exists>B. (\<forall>y \<in> set e. 0 \<le> y \<and> y < B) \<and> 35 * (B * (int (length e) + 1)) \<le> maxInt)"

definition pass_inv ::
  "int \<Rightarrow> int \<Rightarrow> int \<Rightarrow> int list \<Rightarrow> int list \<Rightarrow> int \<Rightarrow> int \<Rightarrow> int \<Rightarrow> int \<Rightarrow> int list \<Rightarrow> bool" where
  "pass_inv t o' h xs ys n r w x b \<longleftrightarrow>
     b = filter (\<lambda>y. y \<le> t) xs @ filter (\<lambda>y. y < t) ys \<and> r = int (length b)
     \<and> w + n = (t - x) * (r + 1) + int (length (filter (\<lambda>y. y \<le> t) xs))
     \<and> 0 \<le> n \<and> 0 \<le> w \<and> 0 \<le> x \<and> x \<le> t \<and> (w = 0 \<longleftrightarrow> r = o') \<and> o' + 1 \<le> h
     \<and> int (length (filter (\<lambda>y. y < t) (xs @ ys))) + 1 = h
     \<and> (r + 1 = h \<or> n \<le> int (length (filter (\<lambda>y. y < t) xs)))"

lemma pass_inv_bound:
  assumes "pass_inv t o' h xs ys n r w x b" "small_points (xs @ ys)" "t \<in> set (xs @ ys)"
  shows "35 * (w + n) \<le> maxInt" "t \<le> maxInt" "h \<le> maxInt"
proof -
  define L where "L = int (length (xs @ ys)) + 1"
  obtain B where B: "\<forall>y \<in> set (xs @ ys). 0 \<le> y \<and> y < B" "35 * (B * L) \<le> maxInt"
    using assms(2) unfolding small_points_def L_def by blast
  have t: "0 \<le> t" "t < B" using B(1) assms(3) by blast+
  have b: "r = int (length b)" "w + n = (t - x) * (r + 1) + int (length (filter (\<lambda>y. y \<le> t) xs))"
    and o: "0 \<le> x" "x \<le> t" "int (length (filter (\<lambda>y. y < t) (xs @ ys))) + 1 = h"
    and eq: "b = filter (\<lambda>y. y \<le> t) xs @ filter (\<lambda>y. y < t) ys"
    using assms(1) unfolding pass_inv_def by blast+
  have len: "length (filter (\<lambda>y. y \<le> t) xs) \<le> length b" by (simp add: eq)
  have "length b \<le> length (xs @ ys)" using length_filter_le [of _ xs] length_filter_le [of _ ys] by (simp add: eq add_mono)
  then have r: "0 \<le> r" "r + 1 \<le> L" using b(1) unfolding L_def by linarith+
  have "w + n \<le> (t - x) * (r + 1) + (r + 1)" using b len by linarith
  also have "\<dots> = (t - x + 1) * (r + 1)" by (simp add: algebra_simps)
  also have "\<dots> \<le> B * L" using o t r by (intro mult_mono) auto
  finally have "35 * (w + n) \<le> 35 * (B * L)" by (rule mult_left_mono) simp
  then show "35 * (w + n) \<le> maxInt" using B(2) by (rule order_trans)
  have one: "1 \<le> B" "1 \<le> L" using t by (simp_all add: L_def)
  have "B * 1 \<le> B * L" "1 * L \<le> B * L" using one by (intro mult_left_mono mult_right_mono; linarith)+
  moreover have "h \<le> L" using o(3) length_filter_le [of "\<lambda>y. y < t" "xs @ ys"] unfolding L_def by linarith
  ultimately have "B \<le> B * L" "h \<le> B * L" by simp_all
  then show "t \<le> maxInt" "h \<le> maxInt" using B(2) t(2) one(1) by linarith+
qed

lemma less_le_filter: "length (filter (\<lambda>y. y < t) xs) \<le> length (filter (\<lambda>y. y \<le> t) xs)" for t :: int
  by (induction xs) auto

lemma pass_smaller:
  assumes "pass_inv t o' h xs (y # ys) n r w x b" "y < t"
  shows "pass_inv t o' h (xs @ [y]) ys (n + 1) r w x b"
  using assms unfolding pass_inv_def by auto

lemma pass_greater:
  assumes "pass_inv t o' h xs (y # ys) n r w x b" "t < y"
  shows "pass_inv t o' h (xs @ [y]) ys n r w x b"
  using assms unfolding pass_inv_def by auto

lemma pass_equal:
  assumes "pass_inv t o' h xs (t # ys) n r w x b"
  defines "p \<equiv> length (filter (\<lambda>y. y \<le> t) xs)"
  shows "pass_inv t o' h (xs @ [t]) ys 0 (r + 1) (int p + 1) t (take p b @ [t] @ drop p b)"
proof -
  have b: "b = filter (\<lambda>y. y \<le> t) xs @ filter (\<lambda>y. y < t) ys" "r = int (length b)"
    "0 \<le> x" "x \<le> t" "o' + 1 \<le> h" "int (length (filter (\<lambda>y. y < t) (xs @ ys))) + 1 = h"
    using assms(1) unfolding pass_inv_def by auto
  then have "o' \<le> r" using less_le_filter [of t xs] by simp
  then show ?thesis using b unfolding pass_inv_def p_def by auto
qed

lemma pass_adapt:
  assumes "pass_inv t o' h xs ys n r w x b" "h \<le> maxInt"
  shows "adapt n h (r = o') = adapt n (int (length b) + 1) (0 = w)"
proof (cases "r + 1 = h")
  case True
  then show ?thesis using assms(1) unfolding pass_inv_def by auto
next
  case False
  have i: "n \<le> int (length (filter (\<lambda>y. y < t) xs))" "0 \<le> n" "o' + 1 \<le> h" "r = int (length b)" "w = 0 \<longleftrightarrow> r = o'"
    "int (length (filter (\<lambda>y. y < t) (xs @ ys))) + 1 = h" "b = filter (\<lambda>y. y \<le> t) xs @ filter (\<lambda>y. y < t) ys"
    using assms(1) False unfolding pass_inv_def by blast+
  have "h \<le> r + 1" using less_le_filter [of t xs] i(4,6,7) by simp
  then have "r \<noteq> o'" "h < r + 1" using False i(3) by linarith+
  moreover have "n \<le> h - 1" using i(1,6) by simp
  ultimately show ?thesis
    using adapt_small [of n "h - 1" h "int (length b) + 1"] i(2,4,5) assms(2) by auto
qed

text \<open>The decoder goes from one state to another on the digits \<open>ds\<close>.\<close>

definition follows :: "jsstring \<Rightarrow> int \<times> int \<times> int \<times> int list \<Rightarrow> int \<times> int \<times> int \<times> int list \<Rightarrow> bool" where
  "follows ds s s' \<longleftrightarrow> (case (s, s') of ((w, x, i, b), (w', x', i', b')) \<Rightarrow>
     (\<forall>e. decode_points (ds @ e) w x i b = decode_points e w' x' i' b'))
     \<and> (\<forall>c \<in> set ds. puny_digit c)"

lemma follows_refl: "follows [] s s"
  by (cases s) (simp add: follows_def)

lemma follows_trans: "follows ds s s' \<Longrightarrow> follows ds' s' s'' \<Longrightarrow> follows (ds @ ds') s s''"
  by (cases s; cases s'; cases s'') (auto simp: follows_def)

lemma emit_follows:
  assumes inv: "pass_inv t o' h xs (t # ys) n r w x b" and sm: "small_points (xs @ t # ys)"
  defines "p \<equiv> length (filter (\<lambda>y. y \<le> t) xs)"
  shows "follows (emit_delta i n 36) (w, x, i, b) (int p + 1, t, adapt n h (r = o'), take p b @ [t] @ drop p b)"
proof -
  have bd: "35 * (w + n) \<le> maxInt" "t \<le> maxInt" "h \<le> maxInt" using pass_inv_bound [OF inv sm] by simp_all
  have i: "0 \<le> n" "0 \<le> w" "w + n = (t - x) * (int (length b) + 1) + int p" "p \<le> length b" "x \<le> t"
    using inv unfolding pass_inv_def p_def by auto
  have n: "w + n \<le> maxInt" "35 * n \<le> maxInt" using bd(1) i(1,2) by (simp_all add: distrib_left)
  show ?thesis using decode_step [OF i bd(2) n] emit_code [OF i(1)] pass_adapt [OF inv bd(3)] by (simp add: follows_def)
qed

lemma pass_simulates:
  assumes "pass_inv t o' h xs ys n r w x b" "small_points (xs @ ys)" "t \<in> set (xs @ ys)"
  shows "\<exists>n' i' r' ds w' x' b'. encode_pass t o' h ys n i r k = Inr (n', i', r', k @ ds)
    \<and> pass_inv t o' h (xs @ ys) [] n' r' w' x' b' \<and> follows ds (w, x, i, b) (w', x', i', b')"
  using assms
proof (induction ys arbitrary: xs n i r k w x b)
  case Nil
  then show ?case using follows_refl [of "(w, x, i, b)"] by fastforce
next
  case (Cons y ys)
  have e: "xs @ y # ys = (xs @ [y]) @ ys" by simp
  note IH = Cons.IH [of "xs @ [y]", OF _ Cons.prems(2,3) [unfolded e], folded e]
  consider "y < t" | "y = t" | "t < y" by linarith
  then show ?case
  proof cases
    case 1
    note inv = pass_smaller [OF Cons.prems(1) 1]
    have "35 * (w + (n + 1)) \<le> maxInt" using pass_inv_bound(1) [OF inv Cons.prems(2,3) [unfolded e]] .
    moreover have "0 \<le> w" "0 \<le> n" using Cons.prems(1) unfolding pass_inv_def by blast+
    ultimately have "n + 1 \<le> maxInt" by (simp add: distrib_left)
    then have "encode_pass t o' h (y # ys) n i r k = encode_pass t o' h ys (n + 1) i r k" using 1 by simp
    then show ?thesis using IH [OF inv, of i k] by (simp only:)
  next
    case 2
    let ?p = "length (filter (\<lambda>y. y \<le> t) xs)" and ?k = "k @ emit_delta i n 36" and ?i = "adapt n h (r = o')"
    obtain n' i' r' ds w' x' b' where
      pass: "encode_pass t o' h ys 0 ?i (r + 1) ?k = Inr (n', i', r', ?k @ ds)"
      and inv: "pass_inv t o' h (xs @ y # ys) [] n' r' w' x' b'"
      and f: "follows ds (int ?p + 1, t, ?i, take ?p b @ [t] @ drop ?p b) (w', x', i', b')"
      using IH [unfolded 2, OF pass_equal [OF Cons.prems(1) [unfolded 2]], of ?i ?k] unfolding 2 by blast
    have "encode_pass t o' h (y # ys) n i r k = Inr (n', i', r', k @ (emit_delta i n 36 @ ds))" using pass 2 by simp
    then show ?thesis using inv follows_trans [OF emit_follows [OF Cons.prems(1,2) [unfolded 2]] f] by blast
  next
    case 3
    then have "encode_pass t o' h (y # ys) n i r k = encode_pass t o' h ys n i r k" by simp
    then show ?thesis using IH [OF pass_greater [OF Cons.prems(1) 3], of i k] by (simp only:)
  qed
qed

definition loop_inv :: "int list \<Rightarrow> int \<Rightarrow> int \<Rightarrow> int \<Rightarrow> int \<Rightarrow> int \<Rightarrow> int \<Rightarrow> int list \<Rightarrow> bool" where
  "loop_inv e o' t n r w x b \<longleftrightarrow> b = filter (\<lambda>y. y < t) e \<and> r = int (length b) \<and> w + n = (t - x) * (r + 1)
     \<and> 0 \<le> n \<and> 0 \<le> w \<and> 0 \<le> x \<and> x \<le> t \<and> (w = 0 \<longleftrightarrow> r = o') \<and> o' \<le> r"

lemma loop_enters_pass:
  assumes "loop_inv e o' t n r w x b" "filter (\<lambda>y. y < u) e = filter (\<lambda>y. y < t) e" "t \<le> u"
  shows "pass_inv u o' (r + 1) [] e (n + (u - t) * (r + 1)) r w x b"
proof -
  have "0 \<le> (u - t) * (r + 1)" using assms(1,3) unfolding loop_inv_def by simp
  moreover have "w + (n + (u - t) * (r + 1)) = (u - x) * (r + 1)"
  proof -
    have "w + n = (t - x) * (r + 1)" using assms(1) unfolding loop_inv_def by blast
    then show ?thesis by (simp add: algebra_simps)
  qed
  ultimately show ?thesis using assms unfolding loop_inv_def pass_inv_def by auto
qed

lemma pass_leaves_to_loop:
  assumes "pass_inv u o' h e [] n r w x b"
  shows "loop_inv e o' (u + 1) (n + 1) r w x b"
proof -
  have "filter (\<lambda>y. y \<le> u) e = filter (\<lambda>y. y < u + 1) e" by (intro filter_cong) auto
  then show ?thesis using assms less_le_filter [of u e] unfolding pass_inv_def loop_inv_def by (auto simp: algebra_simps)
qed

lemma small_points_below: "small_points e \<Longrightarrow> \<forall>y \<in> set e. y < maxInt"
proof
  fix y
  assume "small_points e" "y \<in> set e"
  then obtain B where B: "0 \<le> y" "y < B" "35 * (B * (int (length e) + 1)) \<le> maxInt" unfolding small_points_def by blast
  then have "B * 1 \<le> B * (int (length e) + 1)" by (intro mult_left_mono) auto
  then show "y < maxInt" using B by linarith
qed

lemma filter_same_length: "length (filter P xs) = length xs \<Longrightarrow> filter P xs = xs"
  by (metis filter_id_conv length_filter_less less_irrefl)

lemma loop_simulates:
  assumes "small_points e" "loop_inv e o' t n r w x b"
  shows "\<exists>ds w' x' i'. encode_loop e o' t n i r k = Some (Inr (k @ ds)) \<and> follows ds (w, x, i, b) (w', x', i', e)"
  using assms(2)
proof (induction "length e - nat r" arbitrary: t n i r k w x b rule: less_induct)
  case less
  have b: "b = filter (\<lambda>y. y < t) e" "r = int (length b)" using less.prems unfolding loop_inv_def by blast+
  show ?case
  proof (cases "r < int (length e)")
    case False
    then have "length (filter (\<lambda>y. y < t) e) = length e" using b length_filter_le [of "\<lambda>y. y < t" e] by simp
    then have "b = e" unfolding b(1) by (rule filter_same_length)
    then show ?thesis using False follows_refl [of "(w, x, i, b)"] by (auto simp: encode_loop.simps [of e])
  next
    case True
    then obtain y where y: "y \<in> set e" "t \<le> y" using not_handled b by metis
    define u where "u = next_point e t"
    note u = next_point_props [OF y small_points_below [OF assms(1)], folded u_def]
      next_point_filter [OF y small_points_below [OF assms(1)], folded u_def]
    let ?n = "n + (u - t) * (r + 1)"
    note inv = loop_enters_pass [OF less.prems u(4) u(2)]
    have sm: "small_points ([] @ e)" "u \<in> set ([] @ e)" using assms(1) u(1) by simp_all
    have "35 * (w + ?n) \<le> maxInt" using pass_inv_bound(1) [OF inv sm] .
    moreover have "0 \<le> w" "0 \<le> ?n" using inv unfolding pass_inv_def by blast+
    ultimately have "?n \<le> maxInt" by (simp only: distrib_left)
    then have over: "\<not> (maxInt - n) div (r + 1) < u - t"
      using le_div_pos [of "r + 1" "u - t" "maxInt - n"] b(2) by simp
    obtain n' i' r' ds w' x' b' where pass: "encode_pass u o' (r + 1) e ?n i r k = Inr (n', i', r', k @ ds)"
      and inv': "pass_inv u o' (r + 1) e [] n' r' w' x' b'" and f: "follows ds (w, x, i, b) (w', x', i', b')"
      using pass_simulates [OF inv sm, of i k] by auto
    note inv'' = pass_leaves_to_loop [OF inv']
    have "r' = int (length (filter (\<lambda>y. y < u + 1) e))" using inv'' unfolding loop_inv_def by blast
    then have "r < r'" using handled_more [OF u(1)] u(4) b by simp
    then have "length e - nat r' < length e - nat r" using True b(2) by simp
    then obtain ds' w'' x'' i'' where l: "encode_loop e o' (u + 1) (n' + 1) i' r' (k @ ds) = Some (Inr ((k @ ds) @ ds'))"
      "follows ds' (w', x', i', b') (w'', x'', i'', e)"
      using less.hyps [OF _ inv'', of i' "k @ ds"] by blast
    have "encode_loop e o' t n i r k = Some (Inr (k @ (ds @ ds')))"
      using l(1) pass True over by (simp add: encode_loop.simps [of e _ t] Let_def u_def [symmetric])
    then show ?thesis using follows_trans [OF f l(2)] by blast
  qed
qed

lemma last_index_of_None: "last_index_of c xs = None \<longleftrightarrow> c \<notin> set xs"
  by (induction xs) (auto split: option.splits)

lemma last_index_of_append: "c \<notin> set ys \<Longrightarrow> last_index_of c (xs @ c # ys) = Some (length xs)"
  by (induction xs) (simp_all add: last_index_of_None [THEN iffD2])

text \<open>The encoding of a label, and what decoding it gives.\<close>

lemma encode_label:
  assumes "small_points (ucs2_decode s)"
  defines "k \<equiv> map of_int (filter (\<lambda>y. y < 128) (ucs2_decode s)) :: jsstring"
  shows "\<exists>ds. encode s = Some (Inr ((if k = [] then [] else k @ [45]) @ ds)) \<and> decode ((if k = [] then [] else k @ [45]) @ ds) = Inr s
    \<and> (\<forall>c \<in> set ds. puny_digit c)"
proof -
  let ?e = "ucs2_decode s" and ?b = "filter (\<lambda>y. y < 128) (ucs2_decode s)"
  have inv: "loop_inv ?e (int (length ?b)) 128 0 (int (length ?b)) 0 128 ?b" by (simp add: loop_inv_def)
  obtain ds w x i where ds: "encode_loop ?e (int (length ?b)) 128 0 72 (int (length ?b)) (if k = [] then [] else k @ [45])
      = Some (Inr ((if k = [] then [] else k @ [45]) @ ds))" and f: "follows ds (0, 128, 72, ?b) (w, x, i, ?e)"
    using loop_simulates [OF assms(1) inv, of 72] by blast
  have code: "\<forall>c \<in> set ds. puny_digit c" using f by (simp add: follows_def)
  have dec: "decode_points ds 0 128 72 ?b = Inr ?e" using f unfolding follows_def
    by (auto simp: decode_points.simps [of "[]"] dest!: spec [of _ "[]"])
  have u: "uint (of_int y :: code_unit) = y" if "y \<in> set ?b" for y
    using that ucs2_decode_range [of y s] by (simp add: uint_word_of_int)
  then have k: "map uint k = ?b" unfolding k_def map_map comp_def by (intro map_idI) auto
  have basic: "\<not> 128 \<le> c" if "c \<in> set k" for c
    using that u unfolding k_def by (auto simp: word_le_def)
  have "encode s = Some (Inr ((if k = [] then [] else k @ [45]) @ ds))"
  proof -
    have len: "length ?b = length k" by (simp add: k_def)
    show ?thesis unfolding encode_def Let_def k_def [symmetric] using ds unfolding len by (cases k) simp_all
  qed
  moreover have "decode ((if k = [] then [] else k @ [45]) @ ds) = Inr s"
  proof (cases "k = []")
    case True
    have "last_index_of 45 ds = None" using code puny_digit_others by (auto simp: last_index_of_None)
    then show ?thesis using True k dec by (simp add: decode_def Let_def ucs2_encode_decode)
  next
    case False
    have "last_index_of 45 ((k @ [45]) @ ds) = Some (length k)" using code puny_digit_others last_index_of_append [of 45 ds k] by auto
    then show ?thesis using False k dec basic by (simp add: decode_def Let_def ucs2_encode_decode)
  qed
  ultimately show ?thesis using code by blast
qed

section \<open>Domain names\<close>

lemma basic_point_unit: "y \<in> set (ucs2_decode s) \<Longrightarrow> y < 128 \<Longrightarrow> of_int y \<in> set s"
proof (induction s rule: ucs2_decode.induct)
  case (3 t n e)
  define z where "z = push_bit 10 (1023 AND uint t) + (1023 AND uint n) + 65536"
  have "65536 \<le> z" unfolding z_def unit_fields by (simp add: push_bit_eq_mult)
  then show ?case using 3 unfolding ucs2_decode.simps z_def [symmetric] by (auto split: if_splits)
qed auto

text \<open>A label that survives the conversion to ASCII and back.\<close>

definition good_label :: "jsstring \<Rightarrow> bool" where
  "good_label l \<longleftrightarrow> (\<forall>c \<in> set l. \<not> separator c \<and> c \<noteq> 64)
     \<and> (if \<forall>c \<in> set l. 32 \<le> c \<and> c \<le> 126 then take 4 l \<noteq> lit ''xn--''
        else (\<forall>c \<in> set l. \<not> (65 \<le> c \<and> c \<le> 90)) \<and> small_points (ucs2_decode l))"

lemma label_roundtrip:
  assumes "good_label l" and lower: "\<And>s. \<forall>c \<in> set s. c < 128 \<Longrightarrow> lower s = toLowerCase s"
  shows "\<exists>a. label_to_ascii l = Some (Inr a) \<and> label_to_unicode lower a = Some (Inr l) \<and> (\<forall>c \<in> set a. c < 128 \<and> c \<noteq> 46 \<and> c \<noteq> 64)"
proof (cases "\<forall>c \<in> set l. 32 \<le> c \<and> c \<le> 126")
  case True
  then have "\<forall>c \<in> set l. c < 128" by (auto simp: word_le_def word_less_def)
  then show ?thesis using True assms(1) by (auto simp: label_to_ascii_def label_to_unicode_def good_label_def separator_def)
next
  case False
  define k :: jsstring where "k = map of_int (filter (\<lambda>y. y < 128) (ucs2_decode l))"
  let ?k = "if k = [] then [] else k @ [45]"
  have g: "\<forall>c \<in> set l. \<not> separator c \<and> c \<noteq> 64 \<and> \<not> (65 \<le> c \<and> c \<le> 90)" "small_points (ucs2_decode l)"
    using assms(1) False by (auto simp: good_label_def)
  obtain ds where ds: "encode l = Some (Inr (?k @ ds))" "decode (?k @ ds) = Inr l"
    "\<forall>c \<in> set ds. puny_digit c"
    using encode_label [OF g(2), folded k_def] by blast
  have "c < 128 \<and> c \<in> set l" if "c \<in> set k" for c
    using that basic_point_unit [of _ l] ucs2_decode_range [of _ l] by (auto simp: k_def word_less_def uint_word_of_int)
  then have c: "\<forall>c \<in> set (?k @ ds). c < 128 \<and> \<not> (65 \<le> c \<and> c \<le> 90) \<and> c \<noteq> 46 \<and> c \<noteq> 64"
    using g(1) ds(3) puny_digit_others by (auto simp: separator_def)
  have "toLowerCase (?k @ ds) = ?k @ ds" unfolding toLowerCase_def using c by (intro map_idI) auto
  then have "lower (?k @ ds) = ?k @ ds" using lower [of "?k @ ds"] c by auto
  then have "label_to_unicode lower (lit ''xn--'' @ ?k @ ds) = Some (Inr l)"
    using ds(2) by (simp add: label_to_unicode_def)
  moreover have "label_to_ascii l = Some (Inr (lit ''xn--'' @ ?k @ ds))" using False ds(1) by (auto simp: label_to_ascii_def)
  moreover have "\<forall>c \<in> set (lit ''xn--''). c < 128 \<and> c \<noteq> 46 \<and> c \<noteq> 64" by (simp add: lit_def)
  ultimately show ?thesis using c by (intro exI [of _ "lit ''xn--'' @ ?k @ ds"]) auto
qed

lemma set_join: "set (join_with d ls) \<subseteq> insert d (\<Union>l \<in> set ls. set l)"
  by (induction d ls rule: join_with.induct) auto

text \<open>On a domain without \<open>@\<close> whose labels have no separators, \<open>mapDomain\<close> works label by label.\<close>

lemma mapDomain_labels:
  assumes "ls \<noteq> []" "\<forall>l \<in> set ls. \<forall>c \<in> set l. \<not> separator c \<and> c \<noteq> 64"
    and "list_all2 (\<lambda>l a. t l = Some (Inr a)) ls as"
  shows "mapDomain (join_with 46 ls) t = Some (Inr (join_with 46 as))"
proof -
  have mem: "c = 46 \<or> \<not> separator c \<and> c \<noteq> 64" if "c \<in> set (join_with 46 ls)" for c
    using subsetD [OF set_join that] assms(2) by auto
  then have no64: "64 \<notin> set (join_with 46 ls)" by force
  have id: "map (\<lambda>c. if separator c then 46 else c) (join_with 46 ls) = join_with 46 ls"
    using mem by (intro map_idI) auto
  have "split_on 46 (join_with 46 ls) = ls" using assms(1,2) by (intro split_join) (auto simp: separator_def)
  moreover have "map_labels t ls = Some (Inr as)" using assms(3) by (induction rule: list_all2_induct) auto
  ultimately show ?thesis by (simp add: mapDomain_def split_on_none [OF no64] id)
qed

lemma labels_roundtrip:
  assumes "\<forall>l \<in> set ls. good_label l" and "\<And>s. \<forall>c \<in> set s. c < 128 \<Longrightarrow> lower s = toLowerCase s"
  shows "\<exists>as. list_all2 (\<lambda>l a. label_to_ascii l = Some (Inr a)) ls as \<and> list_all2 (\<lambda>a l. label_to_unicode lower a = Some (Inr l)) as ls
    \<and> (\<forall>a \<in> set as. \<forall>c \<in> set a. c < 128 \<and> c \<noteq> 46 \<and> c \<noteq> 64)"
  using assms(1)
proof (induction ls)
  case (Cons l ls)
  obtain as where "list_all2 (\<lambda>l a. label_to_ascii l = Some (Inr a)) ls as"
    "list_all2 (\<lambda>a l. label_to_unicode lower a = Some (Inr l)) as ls" "\<forall>a \<in> set as. \<forall>c \<in> set a. c < 128 \<and> c \<noteq> 46 \<and> c \<noteq> 64"
    using Cons by auto
  moreover obtain a where "label_to_ascii l = Some (Inr a)" "label_to_unicode lower a = Some (Inr l)"
    "\<forall>c \<in> set a. c < 128 \<and> c \<noteq> 46 \<and> c \<noteq> 64"
    using label_roundtrip [of l lower] Cons.prems assms(2) by auto
  ultimately show ?case by (intro exI [of _ "a # as"]) auto
qed simp

lemma small_pointsI:
  "\<forall>y \<in> set (ucs2_decode s). y < B \<Longrightarrow> 35 * (B * (int (length (ucs2_decode s)) + 1)) \<le> maxInt \<Longrightarrow> small_points (ucs2_decode s)"
  using ucs2_decode_range [of _ s] unfolding small_points_def by blast

lemma map_labels_returns: "(\<And>x. \<exists>v. f x = Some v) \<Longrightarrow> \<exists>v. map_labels f xs = Some v"
proof (induction xs)
  case (Cons x xs)
  obtain v ys where "f x = Some v" "map_labels f xs = Some ys" using Cons by meson
  then show ?case by (auto split: sum.splits)
qed simp

lemma encode_total: "\<exists>v. encode s = Some v"
proof -
  have "\<forall>y \<in> set (ucs2_decode s). y < maxInt" using ucs2_decode_range [of _ s] by (force simp: maxInt_def)
  then show ?thesis unfolding encode_def Let_def by (intro encode_loop_returns) auto
qed

section \<open>Properties\<close>

text \<open>
  C23: the loops of the encoder end for every string, lone surrogates and overflowing inputs included, and so
  does the conversion of a domain name to ASCII.\<close>

theorem encode_terminates: "(\<exists>v. encode s = Some v) \<and> (\<exists>v. toASCII d = Some v)"
proof -
  have "\<exists>v. label_to_ascii l = Some v" for l using encode_total [of l] by (auto simp: label_to_ascii_def)
  then have "\<exists>v. toASCII d = Some v" unfolding toASCII_def mapDomain_def Let_def
    using map_labels_returns [of label_to_ascii] by (auto split: prod.splits)
  then show ?thesis using encode_total by blast
qed

text \<open>
  C5: every label whose code points are below \<open>B\<close> and whose length is such that \<open>35 * B * (length + 1)\<close> is at most
  \<open>2 ^ 31 - 1\<close> (55 code points of any plane, 935 of the basic plane) is encoded without an error, and decoding the result gives the
  label back. The decoder adapts its bias to the number of points decoded so far, the encoder to the
  number at the start of a pass; they agree all the same.\<close>

theorem punycode_roundtrip:
  assumes "\<forall>y \<in> set (ucs2_decode s). y < B" "35 * (B * (int (length (ucs2_decode s)) + 1)) \<le> maxInt"
  shows "\<exists>k. encode s = Some (Inr k) \<and> decode k = Inr s"
  using encode_label [OF small_pointsI [OF assms]] by blast

theorem punycode_roundtrip_witness:
  "\<exists>k. encode (lit ''b'' @ [252] @ lit ''cher'') = Some (Inr k) \<and> decode k = Inr (lit ''b'' @ [252] @ lit ''cher'')"
  by (rule punycode_roundtrip [of _ 256]) (simp_all add: lit_def maxInt_def)

text \<open>
  C26: a domain name whose labels have no separator and no \<open>@\<close>, and are printable ASCII without the prefix \<open>xn--\<close>, or have other
  characters, no upper case ASCII letters and moderate length, is converted to ASCII and back to itself. Of
  \<open>toLowerCase\<close> of the runtime this uses what it does to ASCII.\<close>

theorem domain_roundtrip:
  assumes "ls \<noteq> []" "\<forall>l \<in> set ls. good_label l" and "\<And>s. \<forall>c \<in> set s. c < 128 \<Longrightarrow> lower s = toLowerCase s"
  shows "\<exists>a. toASCII (join_with 46 ls) = Some (Inr a) \<and> (\<forall>c \<in> set a. c < 128) \<and> toUnicode lower a = Some (Inr (join_with 46 ls))"
proof -
  obtain as where as: "list_all2 (\<lambda>l a. label_to_ascii l = Some (Inr a)) ls as"
    "list_all2 (\<lambda>a l. label_to_unicode lower a = Some (Inr l)) as ls" "\<forall>a \<in> set as. \<forall>c \<in> set a. c < 128 \<and> c \<noteq> 46 \<and> c \<noteq> 64"
    using labels_roundtrip [of ls lower] assms(2,3) by blast
  have "toASCII (join_with 46 ls) = Some (Inr (join_with 46 as))"
    unfolding toASCII_def using assms(1,2) as(1) by (intro mapDomain_labels) (auto simp: good_label_def)
  moreover have "c < 128 \<Longrightarrow> separator c \<Longrightarrow> c = 46" for c by (auto simp: separator_def)
  then have "toUnicode lower (join_with 46 as) = Some (Inr (join_with 46 ls))"
    unfolding toUnicode_def using assms(1) as(1,3) by (intro mapDomain_labels as(2)) auto
  moreover have "\<forall>c \<in> set (join_with 46 as). c < 128" using as(3) set_join [of 46 as] by auto
  ultimately show ?thesis by blast
qed

theorem domain_roundtrip_witness:
  "\<exists>a. toASCII (join_with 46 [lit ''b'' @ [252] @ lit ''cher'', lit ''de'']) = Some (Inr a) \<and> (\<forall>c \<in> set a. c < 128)
     \<and> toUnicode toLowerCase a = Some (Inr (join_with 46 [lit ''b'' @ [252] @ lit ''cher'', lit ''de'']))"
proof (rule domain_roundtrip)
  have "small_points (ucs2_decode (lit ''b'' @ [252] @ lit ''cher''))"
    by (rule small_pointsI [of _ 256]) (simp_all add: lit_def maxInt_def)
  then show "\<forall>l \<in> set [lit ''b'' @ [252] @ lit ''cher'', lit ''de'']. good_label l"
    by (simp add: good_label_def separator_def lit_def)
qed simp_all

text \<open>
  The digit test of the decoder has no lower bounds, so the characters between the digits and the
  letters pass as negative digits: behind one ASCII character such a label decodes to an ASCII code point,
  which the encoder never writes that way.\<close>

lemma decode_accepts_non_digits:
  assumes "y < 128" "58 \<le> c" "c \<le> 64"
  shows "decode [y, 45, c] = Inr [of_int (128 + (uint c - 65) div 2), y]"
proof -
  define v where "v = uint c"
  have c: "58 \<le> v" "v \<le> 64" using assms(2,3) by (simp_all add: v_def word_le_def)
  then have c': "v = 58 \<or> v = 59 \<or> v = 60 \<or> v = 61 \<or> v = 62 \<or> v = 63 \<or> v = 64" by linarith
  have d: "basicToDigit c = v - 65" using c by (simp add: basicToDigit_def v_def [symmetric])
  have i: "last_index_of 45 [y, 45, c] = Some 1" using assms(2) by (auto simp: word_le_def)
  have x: "uint y < 128" "0 \<le> uint y" using assms(1) by (simp_all add: word_less_def)
  have r: "v - 65 - 2 * js_quot (v - 65) 2 = (if even v then -1 else 0)" using c' by (auto simp: js_quot_def)
  have q: "-4 \<le> (v - 65) div 2" "(v - 65) div 2 \<le> -1" using c' by auto
  have delta: "decode_delta 72 [c] 0 1 36 = Inr (v - 65, [])" using c by (simp add: d maxInt_def threshold_def)
  have "decode_points [c] 0 128 72 [uint y] = Inr [128 + (v - 65) div 2, uint y]"
    using q r by (simp add: decode_points.simps delta maxInt_def Let_def splice_in_def del: decode_delta.simps)
  then show ?thesis using i assms(1) x q by (simp add: decode_def ucs2_encode_def point_units_def v_def not_le)
qed

lemma decode_accepts_non_digits_witness: "decode [97, 45, 64] = Inr [127, 97]"
  using decode_accepts_non_digits [of 97 64] by simp

end
