(* ===== verification/String_Decoder.thy ===== *)
theory String_Decoder
  imports Buffer_Text
begin

text \<open>
  \<open>StringDecoder\<close> of the bundle's streams: text from a sequence of buffers, in which a buffer may end inside a
  character. The bytes of an unfinished character are kept in \<open>lastChar\<close>, with the number of bytes it
  has (\<open>lastTotal\<close>) and still needs (\<open>lastNeed\<close>). \<open>utf8\<close>, \<open>utf16le\<close> and \<open>base64\<close> have their own operations, the other
  encodings translate each buffer by itself.
\<close>

record string_decoder =
  sd_encoding :: encoding
  lastNeed :: nat
  lastTotal :: nat
  lastChar :: "byte list"

text \<open>The constructor; \<open>fresh\<close> is what \<open>allocUnsafe(4)\<close> returns, of which base64 has three bytes only. The encodings
  without unfinished characters do not read the last three fields.\<close>

definition newDecoder :: "byte list \<Rightarrow> jsstring \<Rightarrow> string_decoder result" where
  "newDecoder fresh e =
     (case resolve_encoding (if e = [] then lit ''utf8'' else e) of
        None \<Rightarrow> Inl (GenericError ''Unknown encoding'')
      | Some c \<Rightarrow> Inr \<lparr>sd_encoding = c, lastNeed = 0, lastTotal = 0,
                       lastChar = (if c = Base64 then take 3 fresh else fresh)\<rparr>)"

text \<open>\<open>b.toString(encoding, t, n)\<close> for an encoding that is known.\<close>

fun encoding_name :: "encoding \<Rightarrow> jsstring" where
  "encoding_name Hex = lit ''hex''"
| "encoding_name Utf8 = lit ''utf8''"
| "encoding_name Ascii = lit ''ascii''"
| "encoding_name Latin1 = lit ''latin1''"
| "encoding_name Base64 = lit ''base64''"
| "encoding_name Ucs2 = lit ''utf16le''"

definition string_of :: "encoding \<Rightarrow> byte list \<Rightarrow> nat \<Rightarrow> nat \<Rightarrow> jsstring" where
  "string_of c b t n =
     (case toString b (Some (encoding_name c)) (Some (int t)) (Some (int n)) of Inl _ \<Rightarrow> [] | Inr s \<Rightarrow> s)"

text \<open>\<open>e.copy(this.lastChar, p, ...)\<close> of some bytes of \<open>e\<close>.\<close>

definition copy_in :: "byte list \<Rightarrow> nat \<Rightarrow> byte list \<Rightarrow> byte list" where
  "copy_in b p xs = put b p (take (length b - p) xs)"

section \<open>UTF-8\<close>

definition utf8CheckByte :: "byte \<Rightarrow> int" where
  "utf8CheckByte e =
     (if e \<le> 127 then 0
      else if drop_bit 5 e = 6 then 2
      else if drop_bit 4 e = 14 then 3
      else if drop_bit 3 e = 30 then 4
      else if drop_bit 6 e = 2 then -1
      else -2)"

text \<open>How much of a character the end of \<open>e\<close> (from \<open>n\<close> on) has: \<open>lastNeed\<close> and the character's length.\<close>

definition utf8CheckIncomplete :: "nat \<Rightarrow> byte list \<Rightarrow> nat \<Rightarrow> nat \<times> nat" where
  "utf8CheckIncomplete need t n =
     (let r = int (length t) - 1
      in if r < int n then (need, 0)
         else (let o1 = utf8CheckByte (t ! nat r)
               in if 0 \<le> o1 then (if 0 < o1 then nat (o1 - 1) else need, nat o1)
                  else if r - 1 < int n \<or> o1 = -2 then (need, 0)
                  else (let o2 = utf8CheckByte (t ! nat (r - 1))
                        in if 0 \<le> o2 then (if 0 < o2 then nat (o2 - 2) else need, nat o2)
                           else if r - 2 < int n \<or> o2 = -2 then (need, 0)
                           else (let o3 = utf8CheckByte (t ! nat (r - 2))
                                 in if 0 \<le> o3 then (if o3 = 2 then (need, 0) else (if 0 < o3 then nat (o3 - 3) else need, nat o3))
                                    else (need, 0)))))"

definition utf8Text :: "string_decoder \<Rightarrow> byte list \<Rightarrow> nat \<Rightarrow> string_decoder \<times> jsstring" where
  "utf8Text d e t =
     (let (need, n) = utf8CheckIncomplete (lastNeed d) e t
      in if need = 0 then (d\<lparr>lastNeed := need\<rparr>, string_of Utf8 e t (length e))
         else (let r = length e - (n - need)
               in (d\<lparr>lastNeed := need, lastTotal := n, lastChar := copy_in (lastChar d) 0 (drop r e)\<rparr>, string_of Utf8 e t r)))"

text \<open>The prototype's \<open>fillLast\<close>, and that of UTF-8, which tests that the bytes continue a character. \<open>None\<close> is \<open>undefined\<close>.\<close>

definition fillLast :: "string_decoder \<Rightarrow> byte list \<Rightarrow> string_decoder \<times> jsstring option" where
  "fillLast d e =
     (let t = lastTotal d - lastNeed d
      in if lastNeed d \<le> length e
         then (let b = copy_in (lastChar d) t (take (lastNeed d) e)
               in (d\<lparr>lastChar := b\<rparr>, Some (string_of (sd_encoding d) b 0 (lastTotal d))))
         else (d\<lparr>lastChar := copy_in (lastChar d) t e, lastNeed := lastNeed d - length e\<rparr>, None))"

definition continues :: "byte \<Rightarrow> bool" where
  "continues b \<longleftrightarrow> 192 AND b = 128"

definition utf8FillLast :: "string_decoder \<Rightarrow> byte list \<Rightarrow> string_decoder \<times> jsstring option" where
  "utf8FillLast d e =
     (if \<not> continues (e ! 0) then (d\<lparr>lastNeed := 0\<rparr>, Some [65533])
      else if 1 < lastNeed d \<and> 1 < length e \<and> \<not> continues (e ! 1) then (d\<lparr>lastNeed := 1\<rparr>, Some [65533])
      else if 2 < lastNeed d \<and> 2 < length e \<and> \<not> continues (e ! 2) then (d\<lparr>lastNeed := 2\<rparr>, Some [65533])
      else fillLast d e)"

section \<open>UTF-16 and base64\<close>

definition utf16Text :: "string_decoder \<Rightarrow> byte list \<Rightarrow> nat \<Rightarrow> string_decoder \<times> jsstring" where
  "utf16Text d e t =
     (if (length e - t) mod 2 = 0
      then (let n = string_of Ucs2 e t (length e)
            in if n \<noteq> [] \<and> 55296 \<le> last n \<and> last n \<le> 56319
               then (d\<lparr>lastNeed := 2, lastTotal := 4, lastChar := put (lastChar d) 0 [e ! (length e - 2), e ! (length e - 1)]\<rparr>, butlast n)
               else (d, n))
      else (d\<lparr>lastNeed := 1, lastTotal := 2, lastChar := put (lastChar d) 0 [e ! (length e - 1)]\<rparr>, string_of Ucs2 e t (length e - 1)))"

definition base64Text :: "string_decoder \<Rightarrow> byte list \<Rightarrow> nat \<Rightarrow> string_decoder \<times> jsstring" where
  "base64Text d e t =
     (let n = (length e - t) mod 3
      in if n = 0 then (d, string_of Base64 e t (length e))
         else (d\<lparr>lastNeed := 3 - n, lastTotal := 3,
                lastChar := put (lastChar d) 0 (if n = 1 then [e ! (length e - 1)] else [e ! (length e - 2), e ! (length e - 1)])\<rparr>,
               string_of Base64 e t (length e - n)))"

section \<open>Writing and ending\<close>

definition sd_text :: "string_decoder \<Rightarrow> byte list \<Rightarrow> nat \<Rightarrow> string_decoder \<times> jsstring" where
  "sd_text d e t = (case sd_encoding d of Ucs2 \<Rightarrow> utf16Text d e t | Base64 \<Rightarrow> base64Text d e t | _ \<Rightarrow> utf8Text d e t)"

definition sd_write :: "string_decoder \<Rightarrow> byte list \<Rightarrow> string_decoder \<times> jsstring" where
  "sd_write d e =
     (if sd_encoding d \<in> {Hex, Ascii, Latin1} then (d, string_of (sd_encoding d) e 0 (length e))
      else if e = [] then (d, [])
      else if lastNeed d \<noteq> 0
      then (case (if sd_encoding d = Utf8 then utf8FillLast d e else fillLast d e) of
              (d, None) \<Rightarrow> (d, [])
            | (d, Some t) \<Rightarrow>
                (let n = lastNeed d; d = d\<lparr>lastNeed := 0\<rparr>
                 in if n < length e then (let (d, x) = sd_text d e n in (d, t @ x)) else (d, t)))
      else sd_text d e 0)"

text \<open>What \<open>end\<close> adds for the bytes of an unfinished character.\<close>

definition sd_rest :: "string_decoder \<Rightarrow> jsstring" where
  "sd_rest d =
     (if sd_encoding d \<in> {Hex, Ascii, Latin1} \<or> lastNeed d = 0 then []
      else (case sd_encoding d of
              Ucs2 \<Rightarrow> string_of Ucs2 (lastChar d) 0 (lastTotal d - lastNeed d)
            | Base64 \<Rightarrow> string_of Base64 (lastChar d) 0 (3 - lastNeed d)
            | _ \<Rightarrow> [65533]))"

text \<open>\<open>end(e)\<close>; \<open>[]\<close> also stands for a missing buffer.\<close>

definition sd_end :: "string_decoder \<Rightarrow> byte list \<Rightarrow> jsstring" where
  "sd_end d e = (let (d, t) = (if e = [] then (d, []) else sd_write d e) in t @ sd_rest d)"

text \<open>A stream: the buffers \<open>es\<close> are written one by one, then the last one is passed to \<open>end\<close>.\<close>

fun sd_run :: "string_decoder \<Rightarrow> byte list list \<Rightarrow> byte list \<Rightarrow> jsstring" where
  "sd_run d [] b = sd_end d b"
| "sd_run d (e # es) b = (let (d, s) = sd_write d e in s @ sd_run d es b)"

section \<open>Strings of slices\<close>

definition whole_text :: "encoding \<Rightarrow> byte list \<Rightarrow> jsstring" where
  "whole_text c b = slice_as c b 0 (length b)"

lemma resolve_name: "resolve_encoding (encoding_name c) = Some c"
  by (cases c) (simp_all add: resolve_encoding_def encoding_case_def lit_def)

lemma encoding_name_not_Nil: "encoding_name c \<noteq> []"
  by (cases c) (simp_all add: lit_def)

lemma string_of_slice:
  assumes "t < n" "n \<le> length b" "length b < 2147483648"
  shows "string_of c b t n = slice_as c b t n"
proof -
  have u: "ToUint32 (int n) = int n" "ToUint32 (int t) = int t"
    using assms by (simp_all add: ToUint32_def take_bit_int_eq_self)
  show ?thesis using assms
    by (cases "b = []") (simp_all add: string_of_def toString_def Let_def u resolve_name encoding_name_not_Nil)
qed

lemma string_of_empty: "t \<le> length b \<Longrightarrow> length b < 2147483648 \<Longrightarrow> string_of c b t t = []"
  by (simp add: string_of_def toString_def Let_def)

text \<open>For the encodings that look at the bytes of the slice only, the text of a slice is that of its bytes.\<close>

lemma slice_local:
  assumes "c = Ucs2 \<or> c = Base64" "t \<le> n" "n \<le> length b" "length b < 2147483648"
  shows "string_of c b t n = whole_text c (take (n - t) (drop t b))"
proof (cases "t = n")
  case True
  then show ?thesis using assms string_of_empty [of n b c]
    by (auto simp: whole_text_def utf16leSlice_def base64Slice_def fromByteArray_spec)
next
  case False
  then have "string_of c b t n = slice_as c b t n" using assms by (intro string_of_slice) auto
  then show ?thesis using assms by (auto simp: whole_text_def utf16leSlice_def base64Slice_def)
qed

section \<open>The contract of an encoding\<close>

text \<open>\<open>holds c cap shape d p\<close>: the decoder has kept the bytes \<open>p\<close> of an unfinished character.\<close>

definition holds :: "encoding \<Rightarrow> nat \<Rightarrow> (byte list \<Rightarrow> nat \<Rightarrow> bool) \<Rightarrow> string_decoder \<Rightarrow> byte list \<Rightarrow> bool" where
  "holds c cap shape d p \<longleftrightarrow> sd_encoding d = c \<and> length (lastChar d) = cap
     \<and> (if p = [] then lastNeed d = 0
        else 0 < lastNeed d \<and> lastTotal d = lastNeed d + length p \<and> lastTotal d \<le> cap
             \<and> take (length p) (lastChar d) = p \<and> shape p (lastTotal d))"

text \<open>
  What the operations rely on for one encoding: \<open>text\<close> leaves an unfinished character only, and filling one up gives its
  text. \<open>stream\<close> are the byte sequences the contract is about, \<open>ms\<close> the bytes to come.
\<close>

locale character_decoder =
  fixes c :: encoding and cap :: nat and shape :: "byte list \<Rightarrow> nat \<Rightarrow> bool" and stream :: "byte list \<Rightarrow> bool"
  assumes own: "c \<notin> {Hex, Ascii, Latin1}"
    and text_law: "holds c cap shape d [] \<Longrightarrow> t < length e \<Longrightarrow> length e < 2147483648 \<Longrightarrow> stream (drop t e @ ms) \<Longrightarrow>
      \<exists>s p d'. sd_text d e t = (d', s) \<and> holds c cap shape d' p \<and> stream (p @ ms) \<and> whole_text c (drop t e @ ms) = s @ whole_text c (p @ ms)"
    and fill_law: "shape p n \<Longrightarrow> p \<noteq> [] \<Longrightarrow> x \<noteq> [] \<Longrightarrow> n \<le> cap \<Longrightarrow> length (p @ x @ y) = cap \<Longrightarrow> stream (p @ x @ ms) \<Longrightarrow> length p + length x = n \<Longrightarrow>
      stream ms \<and> whole_text c (p @ x @ ms) = string_of c (p @ x @ y) 0 n @ whole_text c ms"
    and shape_law: "shape p n \<Longrightarrow> p \<noteq> [] \<Longrightarrow> shape (p @ x) n"
    and utf8_law: "c = Utf8 \<Longrightarrow> shape p n \<Longrightarrow> p \<noteq> [] \<Longrightarrow> stream (p @ x) \<Longrightarrow> i < length x \<Longrightarrow> length p + i < n \<Longrightarrow> continues (x ! i)"
    and end_law: "stream p \<Longrightarrow> holds c cap shape d p \<Longrightarrow> sd_rest d = whole_text c p"
begin

lemma fills:
  assumes "holds c cap shape d p" "p \<noteq> []" "e \<noteq> []" "stream (p @ e @ ms)"
  shows "(if sd_encoding d = Utf8 then utf8FillLast d e else fillLast d e) = fillLast d e"
proof (cases "c = Utf8")
  case True
  have h: "lastTotal d = lastNeed d + length p" "shape p (lastTotal d)" "0 < lastNeed d"
    using assms(1,2) by (auto simp: holds_def)
  have "continues (e ! i)" if "i < length e" "i < lastNeed d" for i
    using utf8_law [OF True h(2) assms(2,4), of i] that h(1) by (simp add: nth_append)
  then show ?thesis using assms(3) h(3) by (auto simp: utf8FillLast_def)
qed (use assms(1) in \<open>auto simp: holds_def\<close>)

lemma fill_up:
  assumes d: "holds c cap shape d p" "p \<noteq> []" and e: "e \<noteq> []" "lastNeed d \<le> length e" and st: "stream (p @ e @ ms)"
  shows "\<exists>s b. fillLast d e = (d\<lparr>lastChar := b\<rparr>, Some s) \<and> length b = cap \<and> stream (drop (lastNeed d) e @ ms)
    \<and> whole_text c (p @ e @ ms) = s @ whole_text c (drop (lastNeed d) e @ ms)"
proof -
  let ?k = "lastNeed d"
  define b where "b = copy_in (lastChar d) (length p) (take ?k e)"
  have h: "0 < ?k" "lastTotal d = ?k + length p" "lastTotal d \<le> cap" "take (length p) (lastChar d) = p" "shape p (lastTotal d)"
    "length (lastChar d) = cap" "sd_encoding d = c"
    using d by (auto simp: holds_def)
  have "take (cap - length p) (take ?k e) = take ?k e" using h e by (intro take_all) simp
  then have b: "b = p @ take ?k e @ drop (lastTotal d) (lastChar d)"
    using h e by (simp add: b_def copy_in_def put_def add.commute del: take_take)
  have len: "length b = cap" using h e by (simp add: b)
  have split: "take ?k e @ drop ?k e @ ms = e @ ms" by (metis append.assoc append_take_drop_id)
  have "stream (drop ?k e @ ms) \<and> whole_text c (p @ take ?k e @ drop ?k e @ ms) = string_of c b 0 (lastTotal d) @ whole_text c (drop ?k e @ ms)"
    unfolding b using h e st len [unfolded b] by (intro fill_law d(2)) (auto simp: split)
  moreover have "fillLast d e = (d\<lparr>lastChar := b\<rparr>, Some (string_of c b 0 (lastTotal d)))"
    using h e by (simp add: fillLast_def b_def Let_def)
  ultimately show ?thesis using len unfolding split by blast
qed

lemma fill_part:
  assumes d: "holds c cap shape d p" "p \<noteq> []" and e: "length e < lastNeed d"
  shows "\<exists>d'. fillLast d e = (d', None) \<and> holds c cap shape d' (p @ e)"
proof -
  have h: "lastTotal d = lastNeed d + length p" "lastTotal d \<le> cap" "take (length p) (lastChar d) = p" "shape p (lastTotal d)"
    "length (lastChar d) = cap" "sd_encoding d = c"
    using d by (auto simp: holds_def)
  have "copy_in (lastChar d) (length p) e = p @ e @ drop (length p + length e) (lastChar d)"
    using h e by (simp add: copy_in_def put_def add.commute min_def)
  then show ?thesis using h e d(2) shape_law [OF h(4) d(2)] by (auto simp: fillLast_def Let_def holds_def)
qed

lemma write_law:
  assumes d: "holds c cap shape d p" and e: "length e < 2147483648" and st: "stream (p @ e @ ms)"
  shows "\<exists>s q d'. sd_write d e = (d', s) \<and> holds c cap shape d' q \<and> stream (q @ ms) \<and> whole_text c (p @ e @ ms) = s @ whole_text c (q @ ms)"
proof -
  have enc: "sd_encoding d = c" using d by (auto simp: holds_def)
  consider "e = []" | "e \<noteq> []" "p = []" | "e \<noteq> []" "p \<noteq> []" "lastNeed d \<le> length e" | "e \<noteq> []" "p \<noteq> []" "length e < lastNeed d" by linarith
  then show ?thesis
  proof cases
    case 1
    then show ?thesis using d st enc own by (intro exI [of _ "[]"] exI [of _ p] exI [of _ d]) (auto simp: sd_write_def)
  next
    case 2
    then have "sd_write d e = sd_text d e 0" using d enc own by (auto simp: sd_write_def holds_def)
    then show ?thesis using text_law [of d 0 e ms] 2 assms by auto
  next
    case 3
    obtain s b where b: "fillLast d e = (d\<lparr>lastChar := b\<rparr>, Some s)" "length b = cap" "stream (drop (lastNeed d) e @ ms)"
      "whole_text c (p @ e @ ms) = s @ whole_text c (drop (lastNeed d) e @ ms)"
      using fill_up [OF d 3(2,1,3) st] by blast
    let ?d = "d\<lparr>lastChar := b, lastNeed := 0\<rparr>" and ?k = "lastNeed d"
    have need: "?k \<noteq> 0" using d 3(2) by (auto simp: holds_def)
    have h: "holds c cap shape ?d []" using enc b(2) by (simp add: holds_def)
    have w: "sd_write d e = (if ?k < length e then (let (d', x) = sd_text ?d e ?k in (d', s @ x)) else (?d, s))"
      unfolding sd_write_def unfolding fills [OF d 3(2,1) st] unfolding b(1) using enc own 3(1) need by (auto simp: Let_def)
    show ?thesis
    proof (cases "?k < length e")
      case True
      show ?thesis using text_law [OF h True e b(3)] w True b(4) by (auto split: prod.splits)
    next
      case False
      then show ?thesis using w h b(3,4) 3(3) by (intro exI [of _ s] exI [of _ "[]"] exI [of _ ?d]) auto
    qed
  next
    case 4
    obtain d' where d': "fillLast d e = (d', None)" "holds c cap shape d' (p @ e)" using fill_part [OF d 4(2,3)] by blast
    have "sd_write d e = (d', [])"
      unfolding sd_write_def unfolding fills [OF d 4(2,1) st] unfolding d'(1) using enc own 4 by auto
    then show ?thesis using d'(2) st by (intro exI [of _ "[]"] exI [of _ "p @ e"] exI [of _ d']) auto
  qed
qed

lemma end_any:
  assumes "holds c cap shape d p" "length e < 2147483648" "stream (p @ e)"
  shows "sd_end d e = whole_text c (p @ e)"
proof (cases "e = []")
  case True
  then show ?thesis using assms end_law by (simp add: sd_end_def)
next
  case False
  obtain s q d' where "sd_write d e = (d', s)" "holds c cap shape d' q" "stream q" "whole_text c (p @ e) = s @ whole_text c q"
    using write_law [OF assms(1,2), of "[]"] assms(3) by auto
  then show ?thesis using end_law False by (simp add: sd_end_def)
qed

lemma run_law:
  "holds c cap shape d p \<Longrightarrow> \<forall>e \<in> set (es @ [b]). length e < 2147483648 \<Longrightarrow> stream (p @ concat es @ b) \<Longrightarrow>
    sd_run d es b = whole_text c (p @ concat es @ b)"
proof (induction es arbitrary: d p)
  case Nil
  then show ?case using end_any by simp
next
  case (Cons e es)
  obtain s q d' where w: "sd_write d e = (d', s)" "holds c cap shape d' q" "stream (q @ concat es @ b)"
    "whole_text c (p @ e @ concat es @ b) = s @ whole_text c (q @ concat es @ b)"
    using write_law [OF Cons.prems(1), of e "concat es @ b"] Cons.prems(2,3) by auto
  then show ?case using Cons.IH [OF w(2)] Cons.prems(2) by simp
qed

end

lemma last_bytes:
  "1 \<le> length e \<Longrightarrow> drop (length e - 1) e = [e ! (length e - 1)]"
  "2 \<le> length e \<Longrightarrow> drop (length e - 2) e = [e ! (length e - 2), e ! (length e - 1)]"
proof -
  show "1 \<le> length e \<Longrightarrow> drop (length e - 1) e = [e ! (length e - 1)]"
    using Cons_nth_drop_Suc [of "length e - 1" e] by simp
  show "2 \<le> length e \<Longrightarrow> drop (length e - 2) e = [e ! (length e - 2), e ! (length e - 1)]"
    using Cons_nth_drop_Suc [of "length e - 2" e] Cons_nth_drop_Suc [of "length e - 1" e]
    by (simp add: numeral_2_eq_2 Suc_diff_Suc)
qed

lemma take_put: "length xs \<le> length b \<Longrightarrow> take (length xs) (put b 0 xs) = xs"
  by (simp add: put_def)

lemma take_suffix: "n \<le> length e - t \<Longrightarrow> t \<le> length e \<Longrightarrow> drop t e = take (length e - n - t) (drop t e) @ drop (length e - n) e"
  using append_take_drop_id [of "length e - n - t" "drop t e"] by simp

section \<open>Base64\<close>

lemma whole_base64: "whole_text Base64 b = base64_spec b"
  by (simp add: whole_text_def base64Slice_def fromByteArray_spec)

lemma base64_cut: "length a mod 3 = 0 \<Longrightarrow> whole_text Base64 (a @ b) = whole_text Base64 a @ whole_text Base64 b"
  unfolding whole_base64 by (auto intro: base64_spec_append simp: mod_eq_0_iff_dvd dvd_def)

lemma base64_step:
  assumes d: "holds Base64 3 (\<lambda>p n. n = 3) d []" and t: "t < length e" "length e < 2147483648"
  shows "\<exists>s p d'. sd_text d e t = (d', s) \<and> holds Base64 3 (\<lambda>p n. n = 3) d' p
    \<and> whole_text Base64 (drop t e @ ms) = s @ whole_text Base64 (p @ ms)"
proof -
  define n where "n = (length e - t) mod 3"
  define p where "p = drop (length e - n) e"
  have h: "sd_encoding d = Base64" "length (lastChar d) = 3" using d by (simp_all add: holds_def)
  have n: "n < 3" "n \<le> length e - t" unfolding n_def by simp_all
  have "length p = n" using n t unfolding p_def by simp
  have s: "string_of Base64 e t (length e - n) = whole_text Base64 (take (length e - n - t) (drop t e))"
    using n t by (intro slice_local) auto
  have len: "length (take (length e - n - t) (drop t e)) = length e - t - n" using n t by simp
  have "length e - t - n = 3 * ((length e - t) div 3)" unfolding n_def by (simp add: minus_mod_eq_mult_div)
  then have "length (take (length e - n - t) (drop t e)) mod 3 = 0" unfolding len by simp
  then have cut: "whole_text Base64 (drop t e @ ms) = string_of Base64 e t (length e - n) @ whole_text Base64 (p @ ms)"
    using base64_cut [of "take (length e - n - t) (drop t e)" "p @ ms"] take_suffix [OF n(2), of] t(1) unfolding s p_def
    by (metis append.assoc less_imp_le)
  show ?thesis
  proof (cases "n = 0")
    case True
    then have "sd_text d e t = (d, string_of Base64 e t (length e - n))"
      using h by (simp add: sd_text_def base64Text_def n_def [symmetric])
    then show ?thesis using cut d True by (intro exI [of _ "string_of Base64 e t (length e - n)"] exI [of _ p] exI [of _ d]) (simp add: p_def)
  next
    case False
    have p: "p = (if n = 1 then [e ! (length e - 1)] else [e ! (length e - 2), e ! (length e - 1)])"
    proof -
      have "n = 1 \<or> n = 2" using n(1) False by linarith
      then show ?thesis using last_bytes [of e] n(2) t unfolding p_def by auto
    qed
    let ?d = "d\<lparr>lastNeed := 3 - n, lastTotal := 3, lastChar := put (lastChar d) 0 p\<rparr>"
    have "sd_text d e t = (?d, string_of Base64 e t (length e - n))"
      using h False unfolding p by (simp add: sd_text_def base64Text_def n_def [symmetric] Let_def)
    moreover have "holds Base64 3 (\<lambda>p n. n = 3) ?d p"
      using h n False \<open>length p = n\<close> take_put [of p "lastChar d"] by (auto simp: holds_def)
    ultimately show ?thesis using cut by blast
  qed
qed

interpretation base64_decoder: character_decoder Base64 3 "\<lambda>p n. n = 3" "\<lambda>b. True"
proof
  show "\<exists>s p d'. sd_text d e t = (d', s) \<and> holds Base64 3 (\<lambda>p n. n = 3) d' p \<and> True
      \<and> whole_text Base64 (drop t e @ ms) = s @ whole_text Base64 (p @ ms)"
    if "holds Base64 3 (\<lambda>p n. n = 3) d []" "t < length e" "length e < 2147483648" for d t e ms
    using base64_step [OF that] by simp
  show "True \<and> whole_text Base64 (p @ x @ ms) = string_of Base64 (p @ x @ y) 0 n @ whole_text Base64 ms"
    if "n = 3" "length (p @ x @ y) = 3" "length p + length x = n" for p x y ms n
    using that base64_cut [of "p @ x" ms] slice_local [of Base64 0 n "p @ x @ y"] by simp
  show "sd_rest d = whole_text Base64 p" if "holds Base64 3 (\<lambda>p n. n = 3) d p" for d p
  proof (cases "p = []")
    case False
    then have "3 - lastNeed d = length p" "length p \<le> 3" "take (length p) (lastChar d) = p" "length (lastChar d) = 3"
      using that by (auto simp: holds_def)
    then show ?thesis using that False slice_local [of Base64 0 "length p" "lastChar d"] by (simp add: sd_rest_def holds_def)
  qed (use that in \<open>simp add: sd_rest_def holds_def whole_base64\<close>)
qed simp_all

section \<open>UTF-16\<close>

lemma whole_utf16: "whole_text Ucs2 b = units_le b"
  by (simp add: whole_text_def utf16leSlice_def)

lemma utf16_cut: "even (length a) \<Longrightarrow> whole_text Ucs2 (a @ b) = whole_text Ucs2 a @ whole_text Ucs2 b"
  unfolding whole_utf16 by (induction a rule: units_le.induct) simp_all

lemma utf16_cut_at:
  assumes "t < length e" "k \<le> length e - t" "even (length e - t - k)"
  shows "whole_text Ucs2 (drop t e @ xs) = whole_text Ucs2 (take (length e - k - t) (drop t e)) @ whole_text Ucs2 (drop (length e - k) e @ xs)"
proof -
  have "length (take (length e - k - t) (drop t e)) = length e - t - k" using assms by simp
  moreover have "drop t e @ xs = take (length e - k - t) (drop t e) @ drop (length e - k) e @ xs"
    using arg_cong [OF take_suffix [OF assms(2)], of "\<lambda>x. x @ xs"] assms(1) by (simp only: append.assoc less_imp_le)
  ultimately show ?thesis using assms(3) utf16_cut [of "take (length e - k - t) (drop t e)" "drop (length e - k) e @ xs"] by (simp only:)
qed

lemma utf16_string: "t < length e \<Longrightarrow> length e < 2147483648 \<Longrightarrow> k \<le> length e - t \<Longrightarrow>
    string_of Ucs2 e t (length e - k) = whole_text Ucs2 (take (length e - k - t) (drop t e))"
  by (intro slice_local) auto

lemma utf16_odd:
  assumes d: "holds Ucs2 4 (\<lambda>p n. even n) d []" and t: "t < length e" "length e < 2147483648" "(length e - t) mod 2 \<noteq> 0"
  shows "\<exists>s p d'. utf16Text d e t = (d', s) \<and> holds Ucs2 4 (\<lambda>p n. even n) d' p
    \<and> whole_text Ucs2 (drop t e @ ms) = s @ whole_text Ucs2 (p @ ms)"
proof -
  let ?p = "[e ! (length e - 1)]"
  let ?d = "d\<lparr>lastNeed := 1, lastTotal := 2, lastChar := put (lastChar d) 0 ?p\<rparr>"
  have h: "sd_encoding d = Ucs2" "length (lastChar d) = 4" using d by (simp_all add: holds_def)
  have "holds Ucs2 4 (\<lambda>p n. even n) ?d ?p" using h take_put [of ?p "lastChar d"] by (simp add: holds_def)
  moreover have p: "drop (length e - 1) e = ?p" using t by (intro last_bytes) simp
  have k: "even (length e - t - 1)" "1 \<le> length e - t" using t by (simp_all add: mod_2_eq_odd)
  moreover have "utf16Text d e t = (?d, string_of Ucs2 e t (length e - 1))" using t(3) by (simp add: utf16Text_def)
  ultimately show ?thesis using utf16_cut_at [OF t(1) k(2,1), of ms] utf16_string [OF t(1,2) k(2)] unfolding p by metis
qed

lemma utf16_even:
  assumes d: "holds Ucs2 4 (\<lambda>p n. even n) d []" and t: "t < length e" "length e < 2147483648" "(length e - t) mod 2 = 0"
  shows "\<exists>s p d'. utf16Text d e t = (d', s) \<and> holds Ucs2 4 (\<lambda>p n. even n) d' p
    \<and> whole_text Ucs2 (drop t e @ ms) = s @ whole_text Ucs2 (p @ ms)"
proof -
  let ?n = "whole_text Ucs2 (drop t e)"
  have h: "sd_encoding d = Ucs2" "length (lastChar d) = 4" using d by (simp_all add: holds_def)
  have n: "string_of Ucs2 e t (length e) = ?n" using utf16_string [OF t(1,2), of 0] by simp
  have two: "2 \<le> length e - t" "even (length e - t - 2)" using t by presburger+
  have p: "drop (length e - 2) e = [e ! (length e - 2), e ! (length e - 1)]" (is "_ = ?p") using two by (intro last_bytes) simp
  note cut = utf16_cut_at [OF t(1) two, unfolded p]
  show ?thesis
  proof (cases "?n \<noteq> [] \<and> 55296 \<le> last ?n \<and> last ?n \<le> 56319")
    case True
    let ?d = "d\<lparr>lastNeed := 2, lastTotal := 4, lastChar := put (lastChar d) 0 ?p\<rparr>"
    have "?n = whole_text Ucs2 (take (length e - 2 - t) (drop t e)) @ whole_text Ucs2 ?p"
      using cut [of "[]"] by (simp only: append_Nil2)
    then have "butlast ?n = whole_text Ucs2 (take (length e - 2 - t) (drop t e))" by (simp add: whole_utf16)
    moreover have "utf16Text d e t = (?d, butlast ?n)" unfolding utf16Text_def n Let_def using t(3) True by (simp only: if_True simp_thms)
    moreover have "holds Ucs2 4 (\<lambda>p n. even n) ?d ?p" using h take_put [of ?p "lastChar d"] by (simp add: holds_def)
    ultimately show ?thesis using cut [of ms] by metis
  next
    case False
    have "utf16Text d e t = (d, ?n)" unfolding utf16Text_def n Let_def using t(3) False by (simp only: if_True if_False simp_thms)
    moreover have "whole_text Ucs2 (drop t e @ ms) = ?n @ whole_text Ucs2 ([] @ ms)"
      using utf16_cut [of "drop t e" ms] t(3) by (simp add: even_iff_mod_2_eq_zero)
    ultimately show ?thesis using d by blast
  qed
qed

lemma utf16_text:
  assumes "holds Ucs2 4 (\<lambda>p n. even n) d []" "t < length e" "length e < 2147483648"
  shows "\<exists>s p d'. sd_text d e t = (d', s) \<and> holds Ucs2 4 (\<lambda>p n. even n) d' p
    \<and> whole_text Ucs2 (drop t e @ ms) = s @ whole_text Ucs2 (p @ ms)"
proof -
  have "sd_text d e t = utf16Text d e t" using assms(1) by (simp add: sd_text_def holds_def)
  then show ?thesis using utf16_odd [OF assms, of ms] utf16_even [OF assms, of ms] by (simp only:) blast
qed

interpretation utf16_decoder: character_decoder Ucs2 4 "\<lambda>p n. even n" "\<lambda>b. True"
proof
  show "\<exists>s p d'. sd_text d e t = (d', s) \<and> holds Ucs2 4 (\<lambda>p n. even n) d' p \<and> True
      \<and> whole_text Ucs2 (drop t e @ ms) = s @ whole_text Ucs2 (p @ ms)"
    if "holds Ucs2 4 (\<lambda>p n. even n) d []" "t < length e" "length e < 2147483648" for d t e ms
    using utf16_text [OF that] by simp
  show "True \<and> whole_text Ucs2 (p @ x @ ms) = string_of Ucs2 (p @ x @ y) 0 n @ whole_text Ucs2 ms"
    if "even n" "n \<le> 4" "length (p @ x @ y) = 4" "length p + length x = n" for p x y ms n
    using that utf16_cut [of "p @ x" ms] slice_local [of Ucs2 0 n "p @ x @ y"] by auto
  show "sd_rest d = whole_text Ucs2 p" if "holds Ucs2 4 (\<lambda>p n. even n) d p" for d p
  proof (cases "p = []")
    case False
    then have "lastTotal d - lastNeed d = length p" "length p \<le> 4" "take (length p) (lastChar d) = p" "length (lastChar d) = 4"
      using that by (auto simp: holds_def)
    then show ?thesis using that False slice_local [of Ucs2 0 "length p" "lastChar d"] by (simp add: sd_rest_def holds_def)
  qed (use that in \<open>simp add: sd_rest_def holds_def whole_utf16\<close>)
qed simp_all

section \<open>UTF-8\<close>

lemma shift_byte: "unat (drop_bit k (e :: byte)) = unat e div 2 ^ k"
  unfolding unat_drop_bit_eq by (simp only: drop_bit_eq_div)

lemma shift_byte_eq: "drop_bit k (e :: byte) = w \<longleftrightarrow> unat e div 2 ^ k = unat w"
  by (simp only: word_unat_eq_iff shift_byte)

lemma check_byte_nat:
  "utf8CheckByte e = (let v = unat e in if v \<le> 127 then 0 else if v div 32 = 6 then 2 else if v div 16 = 14 then 3
     else if v div 8 = 30 then 4 else if v div 64 = 2 then -1 else -2)"
  unfolding utf8CheckByte_def word_le_nat_alt shift_byte_eq Let_def
  by (simp only: unat_numeral) simp

lemma continues_nat: "continues b \<longleftrightarrow> unat b div 64 = 2"
proof -
  have m: "(192 :: byte) = push_bit 6 (mask 2)" by (simp add: mask_eq_exp_minus_1 push_bit_eq_mult)
  have p: "192 AND b = push_bit 6 (drop_bit 6 b)"
    unfolding m by (rule bit_word_eqI) (auto simp: bit_and_iff bit_push_bit_iff bit_drop_bit_eq bit_mask_iff)
  have d: "drop_bit 6 (192 AND b) = drop_bit 6 b"
    unfolding m by (rule bit_word_eqI) (auto simp: bit_and_iff bit_push_bit_iff bit_drop_bit_eq bit_mask_iff dest: bit_imp_le_length)
  have "192 AND b = 128 \<longleftrightarrow> drop_bit 6 b = 2"
  proof
    assume "192 AND b = 128"
    then show "drop_bit 6 b = 2" using d by simp
  next
    assume "drop_bit 6 b = 2"
    then show "192 AND b = 128" unfolding p by simp
  qed
  then show ?thesis unfolding continues_def shift_byte_eq by simp
qed

lemma check_lead:
  "unat x < 128 \<Longrightarrow> utf8CheckByte x = 0" "192 \<le> unat x \<Longrightarrow> unat x < 224 \<Longrightarrow> utf8CheckByte x = 2"
  "224 \<le> unat x \<Longrightarrow> unat x < 240 \<Longrightarrow> utf8CheckByte x = 3" "240 \<le> unat x \<Longrightarrow> unat x < 248 \<Longrightarrow> utf8CheckByte x = 4"
proof -
  show "unat x < 128 \<Longrightarrow> utf8CheckByte x = 0" by (simp add: check_byte_nat)
  assume r: "192 \<le> unat x" "unat x < 224"
  then have "unat x div 32 = 6" by (simp add: div_nat_eqI)
  then show "utf8CheckByte x = 2" using r by (simp add: check_byte_nat)
next
  assume r: "224 \<le> unat x" "unat x < 240"
  then have "unat x div 32 = 7" "unat x div 16 = 14" by (simp_all add: div_nat_eqI)
  then show "utf8CheckByte x = 3" using r by (simp add: check_byte_nat)
next
  assume r: "240 \<le> unat x" "unat x < 248"
  then have "unat x div 32 = 7" "unat x div 16 = 15" "unat x div 8 = 30" by (simp_all add: div_nat_eqI)
  then show "utf8CheckByte x = 4" using r by (simp add: check_byte_nat)
qed

lemma unat_low_byte: "w < 256 \<Longrightarrow> unat (ucast (w :: u32) :: byte) = unat w"
  by (simp add: unsigned_ucast_eq word_less_nat_alt take_bit_nat_eq_self)

lemma cont_byte: "unat (ucast (x AND 63 OR 128 :: u32) :: byte) div 64 = 2"
proof -
  have "x AND 63 < (64 :: u32)" by (simp add: word_less_nat_alt unat_and_63)
  then have "unat (x AND 63 OR 128) = unat x mod 64 + 128" using lead_nat(4) [of "x AND 63"] by (simp add: unat_and_63)
  moreover have "x AND 63 OR 128 < (256 :: u32)" using cont_lt [of x] by (simp add: and.commute)
  ultimately have "unat (ucast (x AND 63 OR 128 :: u32) :: byte) = unat x mod 64 + 128" by (simp add: unat_low_byte)
  then show ?thesis by simp
qed

text \<open>The bytes of a character: the first tells their number, the others continue it.\<close>

definition char_bytes :: "byte list \<Rightarrow> bool" where
  "char_bytes b \<longleftrightarrow> 1 \<le> length b \<and> length b \<le> 4 \<and> utf8CheckByte (hd b) = (if length b = 1 then 0 else int (length b))
     \<and> (\<forall>x \<in> set (tl b). utf8CheckByte x = -1 \<and> continues x)"

lemma cont_check: "unat x div 64 = 2 \<Longrightarrow> utf8CheckByte x = -1 \<and> continues x"
proof -
  assume x: "unat x div 64 = 2"
  then have "128 \<le> unat x" "unat x < 192" by linarith+
  then show ?thesis using x unfolding check_byte_nat continues_nat Let_def by auto
qed

lemma utf8_of_char: "scalar c \<Longrightarrow> char_bytes (utf8_of c)"
proof -
  assume s: "scalar c"
  then have c: "c < 1114112" by (auto simp: scalar_def word_less_nat_alt)
  have cb: "code_point_bytes c = Inr (utf8_of c)" using code_point_bytes_scalar [OF c] .
  have t: "ucast (63 AND c OR 128 :: u32) = (ucast (c AND 63 OR 128) :: byte)" by (simp add: and.commute)
  note cont = cont_check [OF cont_byte]
  consider "c < 128" | "\<not> c < 128" "c < 2048" | "\<not> c < 128" "\<not> c < 2048" "c < 65536" | "\<not> c < 128" "\<not> c < 2048" "\<not> c < 65536"
    by blast
  then show ?thesis
  proof cases
    case 1
    then have "unat (ucast c :: byte) = unat c" by (intro unat_low_byte) (simp add: word_less_nat_alt)
    then have "utf8CheckByte (ucast c) = 0" using 1 by (intro check_lead) (simp add: word_less_nat_alt)
    moreover have "utf8_of c = [ucast c]" using cb 1 by (simp add: code_point_bytes_def)
    ultimately show ?thesis by (simp add: char_bytes_def)
  next
    case 2
    have "unat (ucast (drop_bit 6 c OR 192) :: byte) = unat c div 64 + 192"
      using unat_low_byte [OF lead_lt(1) [OF 2(2)]] lead_nat(1) [OF shift_lt(1) [OF 2(2)]] by (simp add: unat_shift_word)
    then have "utf8CheckByte (ucast (drop_bit 6 c OR 192)) = 2" using 2 by (intro check_lead) (simp_all add: word_less_nat_alt less_mult_imp_div_less)
    moreover have "utf8_of c = [ucast (drop_bit 6 c OR 192), ucast (c AND 63 OR 128)]" using cb 2 t by (simp add: code_point_bytes_def)
    ultimately show ?thesis using cont by (simp add: char_bytes_def)
  next
    case 3
    have "unat (ucast (drop_bit 12 c OR 224) :: byte) = unat c div 4096 + 224"
      using unat_low_byte [OF lead_lt(2) [OF 3(3)]] lead_nat(2) [OF shift_lt(2) [OF 3(3)]] by (simp add: unat_shift_word)
    then have "utf8CheckByte (ucast (drop_bit 12 c OR 224)) = 3" using 3 by (intro check_lead) (simp_all add: word_less_nat_alt less_mult_imp_div_less)
    moreover have "utf8_of c = [ucast (drop_bit 12 c OR 224), ucast (drop_bit 6 c AND 63 OR 128), ucast (c AND 63 OR 128)]"
      using cb 3 t by (simp add: code_point_bytes_def)
    ultimately show ?thesis using cont by (simp add: char_bytes_def)
  next
    case 4
    have "unat (ucast (drop_bit 18 c OR 240) :: byte) = unat c div 262144 + 240"
      using unat_low_byte [OF lead_lt(3) [OF c]] lead_nat(3) [OF shift_lt(3) [OF c]] by (simp add: unat_shift_word)
    then have "utf8CheckByte (ucast (drop_bit 18 c OR 240)) = 4" using 4 c by (intro check_lead) (simp_all add: word_less_nat_alt less_mult_imp_div_less)
    moreover have "utf8_of c = [ucast (drop_bit 18 c OR 240), ucast (drop_bit 12 c AND 63 OR 128), ucast (drop_bit 6 c AND 63 OR 128), ucast (c AND 63 OR 128)]"
      using cb 4 c t by (simp add: code_point_bytes_def)
    ultimately show ?thesis using cont by (simp add: char_bytes_def)
  qed
qed

text \<open>The bytes of a text, and the bytes of a text up to somewhere inside a character.\<close>

definition text_bytes8 :: "byte list \<Rightarrow> bool" where
  "text_bytes8 b \<longleftrightarrow> (\<exists>cs. (\<forall>c \<in> set cs. scalar c) \<and> b = concat (map utf8_of cs))"

definition lead_shape :: "byte list \<Rightarrow> nat \<Rightarrow> bool" where
  "lead_shape p n \<longleftrightarrow> 2 \<le> n \<and> utf8CheckByte (hd p) = int n"

lemma utf8_of_not_Nil: "scalar c \<Longrightarrow> utf8_of c \<noteq> []"
  using utf8_of_char [of c] by (auto simp: char_bytes_def)

lemma whole_utf8: "\<forall>c \<in> set cs. scalar c \<Longrightarrow> whole_text Utf8 (concat (map utf8_of cs)) = concat (map utf16_of cs)"
  unfolding whole_text_def slice_as.simps by (rule utf8Slice_text)

lemma string_of_utf8:
  assumes "\<forall>c \<in> set cs. scalar c" "e = pre @ concat (map utf8_of cs) @ post" "n = length pre + length (concat (map utf8_of cs))"
    "length e < 2147483648"
  shows "string_of Utf8 e (length pre) n = concat (map utf16_of cs)"
proof (cases "cs = []")
  case True
  then show ?thesis using assms string_of_empty [of "length pre" e Utf8] by simp
next
  case False
  then have "concat (map utf8_of cs) \<noteq> []" using assms(1) utf8_of_not_Nil by (cases cs) auto
  then have "string_of Utf8 e (length pre) n = utf8Slice e (length pre) n"
    using assms by (subst string_of_slice) auto
  moreover have "min (length e) n = n" using assms(2,3) by simp
  ultimately show ?thesis using utf8_slice_loop_text [OF assms(1-3), of "[]"]
    by (simp add: utf8Slice_def decodeCodePointsArray_eq utf16_of_def [abs_def] map_concat comp_def)
qed

lemma text_prefix:
  assumes "b @ ms = concat (map utf8_of cs)"
  shows "\<exists>ds q cs'. cs = ds @ cs' \<and> b = concat (map utf8_of ds) @ q \<and> q @ ms = concat (map utf8_of cs')
    \<and> (q = [] \<or> cs' \<noteq> [] \<and> length q < length (utf8_of (hd cs')))"
  using assms
proof (induction cs arbitrary: b)
  case Nil
  then show ?case by (intro exI [of _ "[]"]) simp
next
  case (Cons c cs)
  show ?case
  proof (cases "length b < length (utf8_of c)")
    case True
    then show ?thesis using Cons.prems by (intro exI [of _ "[]"] exI [of _ b] exI [of _ "c # cs"]) auto
  next
    case False
    define b' where "b' = drop (length (utf8_of c)) b"
    have b: "b = utf8_of c @ b'" "b' @ ms = concat (map utf8_of cs)"
    proof -
      have "take (length (utf8_of c)) (b @ ms) = utf8_of c" using Cons.prems by simp
      then have "take (length (utf8_of c)) b = utf8_of c" using False by simp
      then show "b = utf8_of c @ b'" unfolding b'_def by (metis append_take_drop_id)
      then show "b' @ ms = concat (map utf8_of cs)" using Cons.prems by simp
    qed
    obtain ds q cs' where i: "cs = ds @ cs'" "b' = concat (map utf8_of ds) @ q" "q @ ms = concat (map utf8_of cs')"
      "q = [] \<or> cs' \<noteq> [] \<and> length q < length (utf8_of (hd cs'))"
      using Cons.IH [OF b(2)] by blast
    then show ?thesis using b(1) by (intro exI [of _ "c # ds"] exI [of _ q] exI [of _ cs']) auto
  qed
qed

text \<open>The first character of a text that starts with the bytes \<open>p\<close> of an unfinished one.\<close>

lemma first_char:
  assumes "text_bytes8 (p @ x)" "lead_shape p n" "p \<noteq> []"
  shows "\<exists>c cs. scalar c \<and> (\<forall>c \<in> set cs. scalar c) \<and> p @ x = utf8_of c @ concat (map utf8_of cs) \<and> length (utf8_of c) = n"
proof -
  obtain cs where cs: "\<forall>c \<in> set cs. scalar c" "p @ x = concat (map utf8_of cs)" using assms(1) by (auto simp: text_bytes8_def)
  then obtain c cs' where c: "cs = c # cs'" using assms(3) by (cases cs) auto
  then have s: "scalar c" using cs by simp
  then have ch: "char_bytes (utf8_of c)" by (rule utf8_of_char)
  have "hd p = hd (utf8_of c)"
    using cs(2) c assms(3) utf8_of_not_Nil [OF s] by (metis concat.simps(2) hd_append2 list.simps(9))
  then have "length (utf8_of c) = n" using ch assms(2) by (auto simp: char_bytes_def lead_shape_def split: if_splits)
  then show ?thesis using cs c s by auto
qed

section \<open>The end of a buffer\<close>

text \<open>\<open>utf8CheckIncomplete\<close> on the bytes from the end.\<close>

definition check_back :: "nat \<Rightarrow> byte list \<Rightarrow> nat \<times> nat" where
  "check_back need z =
     (if z = [] then (need, 0)
      else (let o1 = utf8CheckByte (z ! 0)
            in if 0 \<le> o1 then (if 0 < o1 then nat (o1 - 1) else need, nat o1)
               else if length z < 2 \<or> o1 = -2 then (need, 0)
               else (let o2 = utf8CheckByte (z ! 1)
                     in if 0 \<le> o2 then (if 0 < o2 then nat (o2 - 2) else need, nat o2)
                        else if length z < 3 \<or> o2 = -2 then (need, 0)
                        else (let o3 = utf8CheckByte (z ! 2)
                              in if 0 \<le> o3 then (if o3 = 2 then (need, 0) else (if 0 < o3 then nat (o3 - 3) else need, nat o3))
                                 else (need, 0)))))"

lemma check_incomplete_back:
  assumes "t \<le> length e"
  shows "utf8CheckIncomplete need e t = check_back need (rev (drop t e))"
proof -
  have z: "rev (drop t e) ! k = e ! (length e - 1 - k)" if "k < length e - t" for k
    using that assms by (simp add: rev_nth)
  have n: "nat (int (length e) - 1) = length e - 1" "nat (int (length e) - 1 - 1) = length e - 1 - 1"
    "nat (int (length e) - 1 - 2) = length e - 1 - 2"
    by simp_all
  have g: "int (length e) - 1 < int t \<longleftrightarrow> length e - t = 0" "int (length e) - 1 - 1 < int t \<longleftrightarrow> length e - t < 2"
    "int (length e) - 1 - 2 < int t \<longleftrightarrow> length e - t < 3"
    using assms by linarith+
  have r: "rev (drop t e) = [] \<longleftrightarrow> length e - t = 0" "length (rev (drop t e)) = length e - t" by simp_all
  show ?thesis
    unfolding utf8CheckIncomplete_def check_back_def Let_def g n r
    using z [of 0] z [of 1] z [of 2] by (cases "length e - t = 0"; cases "length e - t < 2"; cases "length e - t < 3") (simp_all only: if_True if_False simp_thms diff_zero)
qed

lemma check_back_cases:
  "0 \<le> utf8CheckByte x \<Longrightarrow> check_back m (x # z) = (if 0 < utf8CheckByte x then nat (utf8CheckByte x - 1) else m, nat (utf8CheckByte x))"
  "utf8CheckByte y = -1 \<Longrightarrow> 0 \<le> utf8CheckByte x \<Longrightarrow>
    check_back m (y # x # z) = (if 0 < utf8CheckByte x then nat (utf8CheckByte x - 2) else m, nat (utf8CheckByte x))"
  "utf8CheckByte y = -1 \<Longrightarrow> utf8CheckByte y' = -1 \<Longrightarrow> 2 < utf8CheckByte x \<Longrightarrow>
    check_back m (y # y' # x # z) = (nat (utf8CheckByte x - 3), nat (utf8CheckByte x))"
  "utf8CheckByte y = -1 \<Longrightarrow> utf8CheckByte y' = -1 \<Longrightarrow> utf8CheckByte y'' = -1 \<Longrightarrow> check_back m (y # y' # y'' # z) = (m, 0)"
  by (simp_all add: check_back_def Let_def)

lemma char_bytes_cases:
  assumes "char_bytes b"
  obtains x where "b = [x]" "utf8CheckByte x = 0"
  | x y where "b = [x, y]" "utf8CheckByte x = 2" "utf8CheckByte y = -1"
  | x y z where "b = [x, y, z]" "utf8CheckByte x = 3" "utf8CheckByte y = -1" "utf8CheckByte z = -1"
  | x y z w where "b = [x, y, z, w]" "utf8CheckByte x = 4" "utf8CheckByte y = -1" "utf8CheckByte z = -1" "utf8CheckByte w = -1"
proof -
  have len: "length b = 1 \<or> length b = 2 \<or> length b = 3 \<or> length b = 4" using assms by (auto simp: char_bytes_def)
  have lead: "utf8CheckByte (hd b) = (if length b = 1 then 0 else int (length b))" and rest: "\<forall>x \<in> set (tl b). utf8CheckByte x = -1"
    using assms by (auto simp: char_bytes_def)
  from len consider x where "b = [x]" | x y where "b = [x, y]" | x y z where "b = [x, y, z]" | x y z w where "b = [x, y, z, w]"
    by (auto simp: length_Suc_conv numeral_2_eq_2 numeral_3_eq_3 eval_nat_numeral)
  then show thesis using lead rest that by cases auto
qed

lemma check_char: "char_bytes b \<Longrightarrow> fst (check_back 0 (rev b @ z)) = 0"
  by (erule char_bytes_cases) (simp_all add: check_back_cases)

lemma check_part:
  assumes "char_bytes b" "0 < k" "k < length b"
  shows "check_back 0 (rev (take k b) @ z) = (length b - k, length b)"
proof -
  have "k = 1 \<or> k = 2 \<or> k = 3" using assms by (auto simp: char_bytes_def)
  then show ?thesis using assms(1)
  proof (elim disjE)
    assume k: "k = 1"
    show ?thesis using assms(1) by (rule char_bytes_cases) (use k assms(3) in \<open>simp_all add: check_back_cases\<close>)
  next
    assume k: "k = 2"
    show ?thesis using assms(1) by (rule char_bytes_cases) (use k assms(3) in \<open>simp_all add: check_back_cases numeral_2_eq_2\<close>)
  next
    assume k: "k = 3"
    show ?thesis using assms(1) by (rule char_bytes_cases) (use k assms(3) in \<open>simp_all add: check_back_cases numeral_3_eq_3\<close>)
  qed
qed

lemma utf8_ends:
  assumes d: "holds Utf8 4 lead_shape d []" and chk: "fst (utf8CheckIncomplete 0 e t) = 0"
  shows "utf8Text d e t = (d\<lparr>lastNeed := 0\<rparr>, string_of Utf8 e t (length e))"
proof -
  obtain n where "utf8CheckIncomplete 0 e t = (0, n)" using chk by (cases "utf8CheckIncomplete 0 e t") simp
  then show ?thesis using d by (simp add: utf8Text_def holds_def)
qed

lemma utf8_keeps:
  assumes d: "holds Utf8 4 lead_shape d []" and c: "char_bytes b" "0 < k" "k < length b"
    and chk: "utf8CheckIncomplete 0 e t = (length b - k, length b)" and e: "drop (length e - k) e = take k b"
  shows "\<exists>d'. utf8Text d e t = (d', string_of Utf8 e t (length e - k)) \<and> holds Utf8 4 lead_shape d' (take k b)"
proof -
  let ?d = "d\<lparr>lastNeed := length b - k, lastTotal := length b, lastChar := copy_in (lastChar d) 0 (take k b)\<rparr>"
  have h: "sd_encoding d = Utf8" "length (lastChar d) = 4" "lastNeed d = 0" using d by (simp_all add: holds_def)
  have n: "length b - (length b - k) = k" "length b \<le> 4" "length (take k b) = k" "take k b \<noteq> []"
    using c by (auto simp: char_bytes_def)
  have "utf8Text d e t = (?d, string_of Utf8 e t (length e - k))"
    using c(3) by (simp add: utf8Text_def h(3) chk n(1) e)
  moreover have "lead_shape (take k b) (length b)" using c by (auto simp: lead_shape_def char_bytes_def)
  moreover have "copy_in (lastChar d) 0 (take k b) = take k b @ drop k (lastChar d)"
    using n c(3) h(2) by (simp add: copy_in_def put_def)
  ultimately show ?thesis using h n c(2,3) by (intro exI [of _ ?d]) (auto simp: holds_def)
qed

lemma utf8_text:
  assumes d: "holds Utf8 4 lead_shape d []" and t: "t < length e" "length e < 2147483648" and st: "text_bytes8 (drop t e @ ms)"
  shows "\<exists>s p d'. sd_text d e t = (d', s) \<and> holds Utf8 4 lead_shape d' p \<and> text_bytes8 (p @ ms)
    \<and> whole_text Utf8 (drop t e @ ms) = s @ whole_text Utf8 (p @ ms)"
proof -
  obtain cs where cs: "\<forall>c \<in> set cs. scalar c" "drop t e @ ms = concat (map utf8_of cs)" using st by (auto simp: text_bytes8_def)
  obtain ds q cs' where x: "cs = ds @ cs'" "drop t e = concat (map utf8_of ds) @ q" "q @ ms = concat (map utf8_of cs')"
    "q = [] \<or> cs' \<noteq> [] \<and> length q < length (utf8_of (hd cs'))"
    using text_prefix [OF cs(2)] by blast
  have sc: "\<forall>c \<in> set ds. scalar c" "\<forall>c \<in> set cs'. scalar c" using cs(1) x(1) by auto
  have e: "e = take t e @ concat (map utf8_of ds) @ q" unfolding x(2) [symmetric] by simp
  have l: "length (take t e) = t" "length (concat (map utf8_of ds)) + length q = length e - t"
    using t(1) arg_cong [OF x(2), of length] by simp_all
  have len: "length e - length q = length (take t e) + length (concat (map utf8_of ds))" using l t(1) by linarith
  have str: "string_of Utf8 e t (length e - length q) = concat (map utf16_of ds)"
    using string_of_utf8 [OF sc(1) e, of "length e - length q"] t(2) len l(1) by (simp only:)
  have whole: "whole_text Utf8 (drop t e @ ms) = concat (map utf16_of ds) @ whole_text Utf8 (q @ ms)"
    unfolding cs(2) x(3) whole_utf8 [OF cs(1)] whole_utf8 [OF sc(2)] by (simp add: x(1))
  have st': "text_bytes8 (q @ ms)" unfolding x(3) text_bytes8_def using sc(2) by blast
  have chk: "utf8CheckIncomplete 0 e t = check_back 0 (rev q @ rev (concat (map utf8_of ds)))"
    using check_incomplete_back [of t e 0] t(1) x(2) by (simp only: rev_append less_imp_le)
  have "sd_text d e t = utf8Text d e t" using d by (simp add: sd_text_def holds_def)
  moreover have "\<exists>d'. utf8Text d e t = (d', string_of Utf8 e t (length e - length q)) \<and> holds Utf8 4 lead_shape d' q"
  proof (cases "q = []")
    case True
    have "ds \<noteq> []" using x(2) True t(1) by auto
    then obtain es c where es: "ds = es @ [c]" by (cases ds rule: rev_cases) auto
    then have "char_bytes (utf8_of c)" using sc(1) utf8_of_char by simp
    then have "fst (utf8CheckIncomplete 0 e t) = 0" unfolding chk using True es check_char by simp
    then show ?thesis using utf8_ends [OF d, of e t] d True by (simp add: holds_def)
  next
    case False
    define b where "b = utf8_of (hd cs')"
    have c: "char_bytes b" "length q < length b" using x(4) False sc(2) utf8_of_char unfolding b_def by auto
    have "concat (map utf8_of cs') = b @ concat (map utf8_of (tl cs'))" using x(4) False unfolding b_def by (cases cs') auto
    then have "take (length q) (q @ ms) = take (length q) (b @ concat (map utf8_of (tl cs')))" using x(3) by (simp only:)
    then have q: "take (length q) b = q" using c(2) by simp
    have k: "0 < length q" using False by simp
    have "drop (length e - length q) e = q"
      using arg_cong [OF e, of "drop (length e - length q)"] unfolding len by simp
    then show ?thesis
      using utf8_keeps [OF d c(1) k c(2), of e t] check_part [OF c(1) k c(2), of "rev (concat (map utf8_of ds))"] unfolding chk q by blast
  qed
  ultimately show ?thesis using whole st' unfolding str by auto
qed

lemma utf8_fill:
  assumes "lead_shape p n" "p \<noteq> []" "n \<le> 4" "length (p @ x @ y) = 4" "text_bytes8 (p @ x @ ms)" "length p + length x = n"
  shows "text_bytes8 ms \<and> whole_text Utf8 (p @ x @ ms) = string_of Utf8 (p @ x @ y) 0 n @ whole_text Utf8 ms"
proof -
  obtain c cs where c: "scalar c" "\<forall>c \<in> set cs. scalar c" "p @ x @ ms = utf8_of c @ concat (map utf8_of cs)" "length (utf8_of c) = n"
    using first_char [OF assms(5,1,2)] by blast
  have "(p @ x) @ ms = utf8_of c @ concat (map utf8_of cs)" "length (p @ x) = length (utf8_of c)" using c(3,4) assms(6) by simp_all
  then have e: "p @ x = utf8_of c" "ms = concat (map utf8_of cs)" using append_eq_append_conv [of "p @ x" "utf8_of c" ms] by blast+
  have s: "string_of Utf8 (utf8_of c @ y) 0 n = utf16_of c"
    using string_of_utf8 [of "[c]" "utf8_of c @ y" "[]" y n] c assms(4,6) e(1) by simp
  have y: "p @ x @ y = utf8_of c @ y" unfolding e(1) [symmetric] by simp
  have "whole_text Utf8 (p @ x @ ms) = utf16_of c @ concat (map utf16_of cs)"
    using whole_utf8 [of "c # cs"] c unfolding c(3) by simp
  moreover have "text_bytes8 ms" unfolding e(2) text_bytes8_def using c(2) by blast
  ultimately show ?thesis unfolding y s using whole_utf8 [OF c(2)] e(2) by (simp only:)
qed

interpretation utf8_decoder: character_decoder Utf8 4 lead_shape text_bytes8
proof
  show "continues (x ! i)"
    if a: "lead_shape p n" "p \<noteq> []" "text_bytes8 (p @ x)" "i < length x" "length p + i < n" for p n x i
  proof -
    obtain c cs where c: "scalar c" "p @ x = utf8_of c @ concat (map utf8_of cs)" "length (utf8_of c) = n"
      using first_char [OF a(3,1,2)] by blast
    have "x ! i = (p @ x) ! (length p + i)" by simp
    also have "\<dots> = utf8_of c ! (length p + i)" unfolding c(2) using a(5) c(3) by (simp add: nth_append)
    also have "\<dots> = tl (utf8_of c) ! (length p + i - 1)" using a(2,5) c(3) by (cases "utf8_of c"; cases "length p + i") auto
    finally have "x ! i \<in> set (tl (utf8_of c))" using a(2,5) c(3) by (simp add: Suc_leI less_diff_conv2)
    then show ?thesis using utf8_of_char [OF c(1)] by (auto simp: char_bytes_def)
  qed
  show "sd_rest d = whole_text Utf8 p" if a: "text_bytes8 p" "holds Utf8 4 lead_shape d p" for d p
  proof (cases "p = []")
    case True
    then show ?thesis using a(2) whole_utf8 [of "[]"] by (simp add: sd_rest_def holds_def)
  next
    case False
    then have h: "lead_shape p (lastTotal d)" "0 < lastNeed d" "lastTotal d = lastNeed d + length p" using a(2) by (auto simp: holds_def)
    obtain c cs where "p @ [] = utf8_of c @ concat (map utf8_of cs)" "length (utf8_of c) = lastTotal d"
      using first_char [OF _ h(1) False, of "[]"] a(1) by auto
    then have "lastTotal d \<le> length p" by (metis append_Nil2 le_add1 length_append)
    then show ?thesis using h by simp
  qed
  show "\<exists>s p d'. sd_text d e t = (d', s) \<and> holds Utf8 4 lead_shape d' p \<and> text_bytes8 (p @ ms)
      \<and> whole_text Utf8 (drop t e @ ms) = s @ whole_text Utf8 (p @ ms)"
    if "holds Utf8 4 lead_shape d []" "t < length e" "length e < 2147483648" "text_bytes8 (drop t e @ ms)" for d t e ms
    using utf8_text [OF that] .
  show "text_bytes8 ms \<and> whole_text Utf8 (p @ x @ ms) = string_of Utf8 (p @ x @ y) 0 n @ whole_text Utf8 ms"
    if "lead_shape p n" "p \<noteq> []" "n \<le> 4" "length (p @ x @ y) = 4" "text_bytes8 (p @ x @ ms)" "length p + length x = n" for p n x y ms
    using utf8_fill [OF that] .
qed (simp_all add: lead_shape_def)

section \<open>Encodings without characters\<close>

lemma map_slice: "map (\<lambda>k. f (e ! k)) [0..<length e] = map f e"
  by (rule nth_equalityI) simp_all

lemma simple_text:
  "whole_text Ascii e = map (\<lambda>x. ucast (127 AND x)) e"
  "whole_text Latin1 e = map ucast e"
  "whole_text Hex e = concat (map toHex e)"
  using hexSlice_all [of e] map_slice [of "\<lambda>x. ucast (127 AND x)" e] map_slice [of ucast e]
  by (simp_all add: whole_text_def asciiSlice_def latin1Slice_def hex_text_def)

lemma simple_write:
  assumes "sd_encoding d \<in> {Hex, Ascii, Latin1}" "length e < 2147483648"
  shows "sd_write d e = (d, whole_text (sd_encoding d) e)"
proof -
  have "string_of (sd_encoding d) e 0 (length e) = whole_text (sd_encoding d) e"
    using assms string_of_slice [of 0 "length e" e "sd_encoding d"] string_of_empty [of 0 e "sd_encoding d"]
    by (cases "e = []") (auto simp: whole_text_def [symmetric] simple_text)
  then show ?thesis using assms(1) by (simp add: sd_write_def)
qed

lemma simple_run:
  "sd_encoding d \<in> {Hex, Ascii, Latin1} \<Longrightarrow> \<forall>e \<in> set (es @ [b]). length e < 2147483648 \<Longrightarrow>
    sd_run d es b = whole_text (sd_encoding d) (concat es @ b)"
proof (induction es)
  case Nil
  then show ?case using simple_write [of d b] by (auto simp: sd_end_def sd_rest_def simple_text)
next
  case (Cons e es)
  have "whole_text (sd_encoding d) (e @ x) = whole_text (sd_encoding d) e @ whole_text (sd_encoding d) x" for x
    using Cons.prems(1) by (auto simp: simple_text)
  then show ?case using Cons simple_write [of d e] by simp
qed

section \<open>Property\<close>

text \<open>
  C8: however a stream of bytes is cut into buffers, the texts the decoder returns for the buffers written and for the
  last one, passed to \<open>end\<close>, make up the text that decoding all bytes at once gives, for every encoding;
  for UTF-8 the bytes are those of a text, while the cuts may fall inside characters.\<close>

theorem chunks_decode_whole:
  assumes "newDecoder fresh name = Inr d" "length fresh = 4" "\<forall>e \<in> set (es @ [b]). length e < 2147483648"
    and "sd_encoding d = Utf8 \<Longrightarrow> text_bytes8 (concat es @ b)"
  shows "sd_run d es b = slice_as (sd_encoding d) (concat es @ b) 0 (length (concat es @ b))"
proof -
  have d: "lastNeed d = 0" "length (lastChar d) = (if sd_encoding d = Base64 then 3 else 4)"
    using assms(1,2) by (auto simp: newDecoder_def split: option.splits)
  show ?thesis unfolding whole_text_def [symmetric]
  proof (cases "sd_encoding d")
    case Utf8
    then show "sd_run d es b = whole_text (sd_encoding d) (concat es @ b)"
      using utf8_decoder.run_law [of d "[]" es b] d assms(3,4) by (simp add: holds_def)
  next
    case Base64
    then show "sd_run d es b = whole_text (sd_encoding d) (concat es @ b)"
      using base64_decoder.run_law [of d "[]" es b] d assms(3) by (simp add: holds_def)
  next
    case Ucs2
    then show "sd_run d es b = whole_text (sd_encoding d) (concat es @ b)"
      using utf16_decoder.run_law [of d "[]" es b] d assms(3) by (simp add: holds_def)
  qed (use simple_run assms(3) in simp_all)
qed

theorem chunks_decode_whole_witness:
  "\<exists>d. newDecoder [0, 0, 0, 0] (lit ''utf8'') = Inr d
     \<and> sd_run d [[97, 226], [130]] [172] = slice_as (sd_encoding d) (concat [[97, 226], [130]] @ [172]) 0 (length (concat [[97, 226], [130]] @ [172 :: byte]))"
proof -
  obtain d where d: "newDecoder [0, 0, 0, 0] (lit ''utf8'') = Inr d" by (simp add: newDecoder_def resolve_encoding_def encoding_case_def lit_def)
  have "text_bytes8 (concat [[97, 226], [130]] @ [172])"
    unfolding text_bytes8_def by (rule exI [of _ "[97, 8364]"]) (simp add: scalar_def utf8_of_def code_point_bytes_def)
  then have "sd_run d [[97, 226], [130]] [172] = slice_as (sd_encoding d) (concat [[97, 226], [130]] @ [172]) 0 (length (concat [[97, 226], [130]] @ [172 :: byte]))"
    by (intro chunks_decode_whole [OF d]) simp_all
  then show ?thesis using d by blast
qed

end
