(* ===== verification/Uri_Codec.thy ===== *)
theory Uri_Codec
  imports String_Decoder
begin

text \<open>
  Percent encoding. The bundle has several encoders beside \<open>encodeURIComponent\<close>: \<open>encode\<close> and \<open>decode\<close> of \<open>qs\<close>, \<open>escape\<close> and
  \<open>unescapeBuffer\<close> of \<open>querystring-browser\<close>, \<open>strict-uri-encode\<close> and \<open>encode-utf8\<close>, all used to build the requests of the API client. They are
  compared with each other, with the UTF-8 encoder of \<open>Buffer\<close> and with the decoder of the language.
\<close>

section \<open>Functions of the language\<close>

definition toUpperCase :: "jsstring \<Rightarrow> jsstring" where
  "toUpperCase s = map (\<lambda>c. if 97 \<le> c \<and> c \<le> 122 then c - 32 else c) s"

definition alphanumeric :: "code_unit \<Rightarrow> bool" where
  "alphanumeric c \<longleftrightarrow> 48 \<le> c \<and> c \<le> 57 \<or> 65 \<le> c \<and> c \<le> 90 \<or> 97 \<le> c \<and> c \<le> 122"

text \<open>The table of escaped bytes that \<open>qs\<close> (\<open>o\<close>) and \<open>querystring\<close> (\<open>a\<close>) compute.\<close>

definition hexTable :: "byte \<Rightarrow> jsstring" where
  "hexTable b = 37 # toUpperCase (toHex b)"

definition uri_plain :: "code_unit \<Rightarrow> bool" where
  "uri_plain c \<longleftrightarrow> alphanumeric c \<or> c \<in> {45, 95, 46, 33, 126, 42, 39, 40, 41}"

definition encodeURIComponent :: "jsstring \<Rightarrow> jsstring result" where
  "encodeURIComponent s =
     (if well_formed s
      then Inr (concat (map (\<lambda>c. if c < 128 \<and> uri_plain (ucast c) then [ucast c] else concat (map hexTable (utf8_of c))) (usv s)))
      else Inl (GenericError ''URI malformed''))"

text \<open>One escaped byte at the front, and a number of them.\<close>

fun octet :: "jsstring \<Rightarrow> (byte \<times> jsstring) option" where
  "octet (p # a # b # s) =
     (if p = 37 then (case (hex_digit a, hex_digit b) of (Some x, Some y) \<Rightarrow> Some (of_int (16 * x + y), s) | _ \<Rightarrow> None) else None)"
| "octet _ = None"

fun octets :: "nat \<Rightarrow> jsstring \<Rightarrow> (byte list \<times> jsstring) option" where
  "octets 0 s = Some ([], s)"
| "octets (Suc n) s = (case octet s of None \<Rightarrow> None | Some (b, s) \<Rightarrow> map_option (\<lambda>(bs, s). (b # bs, s)) (octets n s))"

definition leading_ones :: "byte \<Rightarrow> nat" where
  "leading_ones b = (if b < 128 then 0 else if b < 192 then 1 else if b < 224 then 2 else if b < 240 then 3 else if b < 248 then 4 else 5)"

text \<open>The code point of which \<open>bs\<close> is the UTF-8 encoding.\<close>

definition uri_point :: "byte list \<Rightarrow> u32 option" where
  "uri_point bs = (case snd (utf8_decode1 bs 0 (length bs)) of None \<Rightarrow> None | Some c \<Rightarrow> if scalar c \<and> utf8_of c = bs then Some c else None)"

lemma octet_shorter: "octet s = Some (b, s') \<Longrightarrow> length s' < length s"
  by (induction s rule: octet.induct) (auto split: if_splits option.splits)

lemma octets_shorter: "octets n s = Some (bs, s') \<Longrightarrow> length s' \<le> length s"
  by (induction n arbitrary: s bs) (fastforce dest: octet_shorter split: option.splits prod.splits)+

function decodeURIComponent :: "jsstring \<Rightarrow> jsstring option" where
  "decodeURIComponent [] = Some []"
| "decodeURIComponent (c # s) =
     (if c \<noteq> 37 then map_option ((#) c) (decodeURIComponent s)
      else (case octet (c # s) of
              None \<Rightarrow> None
            | Some (b, s') \<Rightarrow>
                (let n = leading_ones b
                 in if n = 0 then map_option ((#) (ucast b)) (decodeURIComponent s')
                    else if n = 1 \<or> 4 < n then None
                    else (case octets (n - 1) s' of
                            None \<Rightarrow> None
                          | Some (bs, s'') \<Rightarrow>
                              (case uri_point (b # bs) of
                                 None \<Rightarrow> None
                               | Some v \<Rightarrow> map_option ((@) (utf16_of v)) (decodeURIComponent s''))))))"
  by pat_completeness auto
termination
proof (relation "measure length", goal_cases)
  case (3 c s p b s' n)
  then have "length s' < length (c # s)" by (metis octet_shorter)
  then show ?case by simp
next
  case (4 c s p b s' n q bs s'')
  then have "length s' < length (c # s)" "length s'' \<le> length s'" by (metis octet_shorter, metis octets_shorter)
  then show ?case by simp
qed simp_all

section \<open>The encoders of the bundle\<close>

text \<open>The escaped bytes of a code point, as \<open>qs\<close> and \<open>querystring\<close> compute them.\<close>

definition percent_code :: "u32 \<Rightarrow> jsstring" where
  "percent_code i =
     (if i < 128 then hexTable (ucast i)
      else if i < 2048 then hexTable (ucast (192 OR drop_bit 6 i)) @ hexTable (ucast (128 OR (63 AND i)))
      else if i < 65536 then hexTable (ucast (224 OR drop_bit 12 i)) @ hexTable (ucast (128 OR (drop_bit 6 i AND 63))) @ hexTable (ucast (128 OR (63 AND i)))
      else hexTable (ucast (240 OR drop_bit 18 i)) @ hexTable (ucast (128 OR (drop_bit 12 i AND 63)))
           @ hexTable (ucast (128 OR (drop_bit 6 i AND 63))) @ hexTable (ucast (128 OR (63 AND i))))"

text \<open>Two units taken as a surrogate pair, without a test that they are one; a missing second unit is \<open>NaN\<close>.\<close>

definition pair_code :: "code_unit \<Rightarrow> code_unit option \<Rightarrow> u32" where
  "pair_code x y = 65536 + (push_bit 10 (1023 AND ucast x) OR (1023 AND to_u32 y))"

definition surrogate :: "code_unit \<Rightarrow> bool" where
  "surrogate x \<longleftrightarrow> \<not> (x < 55296 \<or> 57344 \<le> x)"

definition qs_plain :: "code_unit \<Rightarrow> bool" where
  "qs_plain c \<longleftrightarrow> c = 45 \<or> c = 46 \<or> c = 95 \<or> c = 126 \<or> alphanumeric c"

fun qs_encode :: "jsstring \<Rightarrow> jsstring" where
  "qs_encode [] = []"
| "qs_encode [x] = (if qs_plain x then [x] else if \<not> surrogate x then percent_code (ucast x) else percent_code (pair_code x None))"
| "qs_encode (x # y # s) =
     (if qs_plain x then x # qs_encode (y # s)
      else if \<not> surrogate x then percent_code (ucast x) @ qs_encode (y # s)
      else percent_code (pair_code x (Some y)) @ qs_encode s)"

definition plus_to :: "jsstring \<Rightarrow> jsstring \<Rightarrow> jsstring" where
  "plus_to r s = concat (map (\<lambda>c. if c = 43 then r else [c]) s)"

definition qs_decode :: "jsstring \<Rightarrow> jsstring" where
  "qs_decode e = (case decodeURIComponent (plus_to [32] e) of None \<Rightarrow> e | Some s \<Rightarrow> s)"

text \<open>
  \<open>escape\<close>: \<open>t\<close> is the result so far, \<open>n\<close> the start of the run of units that is copied as it is, \<open>r\<close> the unit looked at.
\<close>

definition escape_plain :: "code_unit \<Rightarrow> bool" where
  "escape_plain c \<longleftrightarrow> c = 33 \<or> c = 45 \<or> c = 46 \<or> c = 95 \<or> c = 126 \<or> 39 \<le> c \<and> c \<le> 42 \<or> alphanumeric c"

function escape_loop :: "jsstring \<Rightarrow> jsstring \<Rightarrow> nat \<Rightarrow> nat \<Rightarrow> (jsstring \<times> nat) result" where
  "escape_loop e t n r =
     (if r < length e
      then (let x = e ! r
            in if escape_plain x then escape_loop e t n (r + 1)
               else (let t = t @ take (r - n) (drop n e)
                     in if \<not> surrogate x then escape_loop e (t @ percent_code (ucast x)) (r + 1) (r + 1)
                        else if \<not> r + 1 < length e then Inl (GenericError ''URI malformed'')
                        else escape_loop e (t @ percent_code (pair_code x (item_at e (r + 1)))) (r + 2) (r + 2)))
      else Inr (t, n))"
  by pat_completeness auto
termination
  by (relation "measure (\<lambda>(e, t, n, r). length e - r)") auto

declare escape_loop.simps [simp del]

definition escape :: "jsstring \<Rightarrow> jsstring result" where
  "escape e =
     (case escape_loop e [] 0 0 of
        Inl err \<Rightarrow> Inl err
      | Inr (t, n) \<Rightarrow> Inr (if n = 0 then e else if n < length e then t @ drop n e else t))"

text \<open>\<open>strict-uri-encode\<close>: the result of \<open>encodeURIComponent\<close> with five more characters escaped.\<close>

definition strict_unit :: "code_unit \<Rightarrow> jsstring" where
  "strict_unit c = (if c \<in> {33, 39, 40, 41, 42} then 37 # toUpperCase (toHex (ucast c)) else [c])"

definition strict_uri_encode :: "jsstring \<Rightarrow> jsstring result" where
  "strict_uri_encode s = map_sum id (\<lambda>t. concat (map strict_unit t)) (encodeURIComponent s)"

text \<open>\<open>encode-utf8\<close>.\<close>

fun encode_utf8 :: "jsstring \<Rightarrow> nat list" where
  "encode_utf8 [] = []"
| "encode_utf8 (x # s) =
     (let r = unat x
      in if 55296 \<le> r \<and> r \<le> 56319 \<and> s \<noteq> [] \<and> 56320 \<le> unat (hd s) \<and> unat (hd s) \<le> 57343
         then (let i = 1024 * (r - 55296) + unat (hd s) - 56320 + 65536
               in [240 + i div 64 div 64 div 64, 128 + i div 64 div 64 mod 64, 128 + i div 64 mod 64, 128 + i mod 64] @ encode_utf8 (tl s))
         else if 2048 \<le> r then [224 + r div 64 div 64, 128 + r div 64 mod 64, 128 + r mod 64] @ encode_utf8 s
         else if 128 \<le> r then [192 + r div 64, 128 + r mod 64] @ encode_utf8 s
         else r # encode_utf8 s)"

text \<open>
  \<open>unescapeBuffer\<close>: a state machine over the units of the string and a last \<open>NaN\<close>, whose bytes are stored modulo 256; the byte of the
  \<open>NaN\<close> is cut off (the buffer has room for all bytes before it). After \<open>%\<close> the state keeps the first hexadecimal digit with its value.
\<close>

datatype escape_state = Copy | Percent | First code_unit int

definition stored :: "code_unit option \<Rightarrow> byte" where
  "stored c = (case c of None \<Rightarrow> 0 | Some x \<Rightarrow> ucast x)"

definition unit_digit :: "code_unit option \<Rightarrow> int option" where
  "unit_digit c = Option.bind c hex_digit"

definition unescape_step :: "bool \<Rightarrow> escape_state \<Rightarrow> code_unit option \<Rightarrow> escape_state \<times> byte list" where
  "unescape_step spc u c =
     (case u of
        Copy \<Rightarrow> if c = Some 37 then (Percent, []) else if c = Some 43 \<and> spc then (Copy, [32]) else (Copy, [stored c])
      | Percent \<Rightarrow> (case unit_digit c of None \<Rightarrow> (Copy, [37, stored c]) | Some n \<Rightarrow> (First (the c) n, []))
      | First i n \<Rightarrow> (case unit_digit c of None \<Rightarrow> (Copy, [37, ucast i, stored c]) | Some r \<Rightarrow> (Copy, [of_int (16 * n + r)])))"

fun unescape_loop :: "bool \<Rightarrow> escape_state \<Rightarrow> code_unit option list \<Rightarrow> byte list" where
  "unescape_loop spc u [] = []"
| "unescape_loop spc u (c # s) = (let (u, bs) = unescape_step spc u c in bs @ unescape_loop spc u s)"

definition unescapeBuffer :: "jsstring \<Rightarrow> bool \<Rightarrow> byte list" where
  "unescapeBuffer e spc = butlast (unescape_loop spc Copy (map Some e @ [None]))"

text \<open>\<open>querystring.unescape\<close>, which does not fail.\<close>

definition qs_unescape :: "jsstring \<Rightarrow> bool \<Rightarrow> jsstring" where
  "qs_unescape e spc = (case decodeURIComponent e of Some s \<Rightarrow> s | None \<Rightarrow> whole_text Utf8 (unescapeBuffer e spc))"

section \<open>Escaped bytes\<close>

definition upper_hex :: "nat \<Rightarrow> code_unit" where
  "upper_hex d = of_nat (if d < 10 then 48 + d else 55 + d)"

lemma upper_hex_char: "d < 16 \<Longrightarrow> (if 97 \<le> hex_char d \<and> hex_char d \<le> 122 then hex_char d - 32 else hex_char d) = upper_hex d"
  by (cases "d < 10") (simp_all add: hex_char_def upper_hex_def word_le_nat_alt unat_of_nat del: of_nat_add, simp)

lemma hex_digit_upper: "d < 16 \<Longrightarrow> hex_digit (upper_hex d) = Some (int d)"
  by (cases "d < 10") (simp_all add: upper_hex_def hex_digit_def word_le_nat_alt unat_of_nat uint_nat del: of_nat_add)

lemma hexTable_eq: "hexTable b = [37, upper_hex (unat b div 16), upper_hex (unat b mod 16)]"
  using upper_hex_char [of "unat b div 16"] upper_hex_char [of "unat b mod 16"] unat_byte [of b]
  unfolding hexTable_def toUpperCase_def toHex_eq by simp

lemma octet_hexTable: "octet (hexTable b @ s) = Some (b, s)"
proof -
  have "(of_int (16 * int (unat b div 16) + int (unat b mod 16)) :: byte) = of_nat (16 * (unat b div 16) + unat b mod 16)"
    by (metis (no_types) of_int_of_nat_eq of_nat_add of_nat_mult of_nat_numeral)
  then have "(of_int (16 * int (unat b div 16) + int (unat b mod 16)) :: byte) = b" by simp
  then show ?thesis using unat_byte [of b] by (simp add: hexTable_eq hex_digit_upper)
qed

lemma octets_hexTable: "octets (length bs) (concat (map hexTable bs) @ s) = Some (bs, s)"
  by (induction bs) (simp_all add: octet_hexTable)

lemma percent_code_utf8: "c < 1114112 \<Longrightarrow> percent_code c = concat (map hexTable (utf8_of c))"
  by (simp add: percent_code_def utf8_of_bits code_point_bytes_def or.commute and.commute)

section \<open>Decoding a character\<close>

lemma lead_class: "utf8CheckByte b = 0 \<Longrightarrow> leading_ones b = 0" "utf8CheckByte b = 2 \<Longrightarrow> leading_ones b = 2"
  "utf8CheckByte b = 3 \<Longrightarrow> leading_ones b = 3" "utf8CheckByte b = 4 \<Longrightarrow> leading_ones b = 4"
proof -
  have r: "v div 32 = 6 \<Longrightarrow> 192 \<le> v \<and> v < 224" "v div 16 = 14 \<Longrightarrow> 224 \<le> v \<and> v < 240" "v div 8 = 30 \<Longrightarrow> 240 \<le> v \<and> v < 248"
    for v :: nat by linarith+
  show "utf8CheckByte b = 0 \<Longrightarrow> leading_ones b = 0"
    by (simp add: check_byte_nat Let_def leading_ones_def word_less_nat_alt split: if_splits)
  show "utf8CheckByte b = 2 \<Longrightarrow> leading_ones b = 2" using r(1) [of "unat b"]
    by (simp add: check_byte_nat Let_def leading_ones_def word_less_nat_alt split: if_splits)
  show "utf8CheckByte b = 3 \<Longrightarrow> leading_ones b = 3" using r(2) [of "unat b"]
    by (simp add: check_byte_nat Let_def leading_ones_def word_less_nat_alt split: if_splits)
  show "utf8CheckByte b = 4 \<Longrightarrow> leading_ones b = 4" using r(3) [of "unat b"]
    by (simp add: check_byte_nat Let_def leading_ones_def word_less_nat_alt split: if_splits)
qed

lemma leading_ones_char: "char_bytes (b # bs) \<Longrightarrow> leading_ones b = (if bs = [] then 0 else Suc (length bs))"
  by (erule char_bytes_cases) (simp_all add: lead_class)

lemma scalar_lt: "scalar c \<Longrightarrow> c < 1114112"
  by (auto simp: scalar_def word_less_nat_alt)

lemma uri_point_utf8:
  assumes "scalar c"
  shows "uri_point (utf8_of c) = Some c"
proof -
  have "utf8_decode1 (utf8_of c) 0 (length (utf8_of c)) = (length (utf8_of c), Some c)"
    using assms by (intro utf8_decode1_scalar [where m = 0]) (simp_all add: code_point_bytes_scalar scalar_lt)
  then show ?thesis using assms by (simp add: uri_point_def)
qed

lemma one_byte: "utf8_of c = [b] \<Longrightarrow> utf16_of c = [ucast b]"
proof -
  assume b: "utf8_of c = [b]"
  then have "c < 128" by (simp add: utf8_of_ascii(1))
  then have c: "unat c < 128" "b = ucast c" "utf16_of c = [ucast c]"
    using b by (auto simp: utf8_of_ascii(2) word_less_nat_alt utf16_of_def utf16_units_def)
  have u: "unat (ucast c :: code_unit) = unat c" "unat (ucast c :: byte) = unat c" using c(1)
    by (simp_all add: unat_ucast_16 unat_low_byte word_less_nat_alt)
  have "unat (ucast b :: code_unit) = unat b" for b :: byte
    using unat_byte [of b] unfolding unsigned_ucast_eq by (simp add: take_bit_nat_eq_self)
  then have "(ucast c :: code_unit) = ucast (ucast c :: byte)" unfolding word_unat_eq_iff u by (simp only: u)
  then show ?thesis using c by simp
qed

lemma decode_char:
  assumes "scalar c"
  shows "decodeURIComponent (concat (map hexTable (utf8_of c)) @ s) = map_option ((@) (utf16_of c)) (decodeURIComponent s)"
proof -
  have cb: "char_bytes (utf8_of c)" using utf8_of_char assms by blast
  then obtain b bs where u: "utf8_of c = b # bs" by (cases "utf8_of c") (auto simp: char_bytes_def)
  have n: "leading_ones b = (if bs = [] then 0 else Suc (length bs))" "length bs \<le> 3"
    using cb leading_ones_char [of b bs] unfolding u by (auto simp: char_bytes_def)
  obtain z where z: "concat (map hexTable (utf8_of c)) @ s = 37 # z" by (simp add: u hexTable_def)
  have o1: "octet (37 # z) = Some (b, concat (map hexTable bs) @ s)"
    unfolding z [symmetric] u by (simp add: octet_hexTable)
  show ?thesis unfolding z
  proof (cases "bs = []")
    case True
    have "utf16_of c = [ucast b]" using one_byte u True by simp
    then show "decodeURIComponent (37 # z) = map_option ((@) (utf16_of c)) (decodeURIComponent s)"
      using o1 n True by (cases "decodeURIComponent s") (simp_all del: octet.simps)
  next
    case False
    have "uri_point (b # bs) = Some c" using uri_point_utf8 [OF assms] u by simp
    then show "decodeURIComponent (37 # z) = map_option ((@) (utf16_of c)) (decodeURIComponent s)"
      using o1 n False octets_hexTable [of bs s] by (simp add: Let_def del: octet.simps)
  qed
qed

section \<open>Percent encoding of a text\<close>

text \<open>The reference: every character that is not plain is written as its escaped UTF-8 bytes.\<close>

definition percent :: "(code_unit \<Rightarrow> bool) \<Rightarrow> u32 \<Rightarrow> jsstring" where
  "percent plain c = (if c < 128 \<and> plain (ucast c) then [ucast c] else concat (map hexTable (utf8_of c)))"

definition percent_text :: "(code_unit \<Rightarrow> bool) \<Rightarrow> jsstring \<Rightarrow> jsstring" where
  "percent_text plain s = concat (map (percent plain) (usv s))"

text \<open>What the decoders rely on: plain characters are ASCII and not one of those with a meaning.\<close>

locale percent_codec =
  fixes plain :: "code_unit \<Rightarrow> bool"
  assumes plain_ascii: "plain c \<Longrightarrow> c < 128"
    and plain_reserved: "\<not> plain 37" "\<not> plain 43" "\<not> plain 38" "\<not> plain 61" "\<not> plain 59" "\<not> plain 34" "\<not> plain 32"
begin

lemma decode_percent:
  assumes "scalar c"
  shows "decodeURIComponent (percent plain c @ s) = map_option ((@) (utf16_of c)) (decodeURIComponent s)"
proof (cases "c < 128 \<and> plain (ucast c)")
  case True
  then have "ucast c \<noteq> (37 :: code_unit)" using plain_reserved(1) by metis
  moreover have "utf16_of c = [ucast c]" using True by (simp add: utf16_of_def utf16_units_def word_less_nat_alt)
  ultimately show ?thesis using True by (cases "decodeURIComponent s") (simp_all add: percent_def)
next
  case False
  then have "percent plain c = concat (map hexTable (utf8_of c))" unfolding percent_def by (rule if_not_P)
  then show ?thesis using decode_char [OF assms] by (simp only:)
qed

lemma decode_percents:
  "\<forall>c \<in> set cs. scalar c \<Longrightarrow> decodeURIComponent (concat (map (percent plain) cs)) = Some (concat (map utf16_of cs))"
  by (induction cs) (simp_all add: decode_percent)

lemma decode_text: "well_formed s \<Longrightarrow> decodeURIComponent (percent_text plain s) = Some s"
  using decode_percents [OF usv_scalar, of s] usv_well_formed [of s] by (simp add: percent_text_def)

lemma upper_hex_range: "d < 16 \<Longrightarrow> alphanumeric (upper_hex d)"
  by (cases "d < 10") (simp_all add: upper_hex_def alphanumeric_def word_le_nat_alt unat_of_nat del: of_nat_add)

lemma percent_units:
  assumes "x \<in> set (percent_text plain s)"
  shows "plain x \<or> x = 37 \<or> alphanumeric x"
proof -
  have "x \<in> set (hexTable b) \<Longrightarrow> x = 37 \<or> alphanumeric x" for b
    using upper_hex_range [OF less_mult_imp_div_less, of "unat b" 16] upper_hex_range [of "unat b mod 16"] unat_byte [of b] by (auto simp: hexTable_eq)
  then show ?thesis using assms by (auto simp: percent_text_def percent_def split: if_splits)
qed

lemma no_separators: "x \<in> {43, 38, 61, 59, 34, 32} \<Longrightarrow> x \<notin> set (percent_text plain s)"
  using percent_units [of x s] plain_reserved by (auto simp: alphanumeric_def)

lemma percent_units_ascii: "x \<in> set (percent_text plain s) \<Longrightarrow> x < 128"
  using percent_units [of x s] plain_ascii by (auto simp: alphanumeric_def word_less_nat_alt word_le_nat_alt)

end

lemma plain_small: "uri_plain c \<Longrightarrow> c < 128" "qs_plain c \<Longrightarrow> c < 128"
  by (auto simp: uri_plain_def qs_plain_def alphanumeric_def word_less_nat_alt word_le_nat_alt)

interpretation uri: percent_codec uri_plain
  by unfold_locales (simp_all add: plain_small, simp_all add: uri_plain_def alphanumeric_def)

interpretation strict: percent_codec qs_plain
  by unfold_locales (simp_all add: plain_small, simp_all add: qs_plain_def alphanumeric_def)

section \<open>The encoders\<close>

lemma encodeURIComponent_text: "encodeURIComponent s = (if well_formed s then Inr (percent_text uri_plain s) else Inl (GenericError ''URI malformed''))"
  unfolding encodeURIComponent_def percent_text_def percent_def [abs_def] ..

lemma surrogate_units: "surrogate x \<longleftrightarrow> lead_unit x \<or> trail_unit x"
  by (auto simp: surrogate_def lead_unit_def trail_unit_def word_less_nat_alt word_le_nat_alt)

lemma low_bits_nat:
  assumes "unat w = k * 1024 + r" "r < 1024" "unat h = k * 1024"
  shows "1023 AND (w :: u32) = w - h"
proof -
  have "unat (1023 AND w) = unat w mod 1024" using unat_and_1023 [of w] by (simp only: and.commute [of 1023])
  also have "\<dots> = r" unfolding assms(1) using assms(2) by simp
  also have "\<dots> = unat (w - h)" unfolding unat_sub_if' using assms by simp
  finally show ?thesis by (simp only: word_unat_eq_iff)
qed

lemma low_bits: "lead_unit x \<Longrightarrow> 1023 AND (ucast x :: u32) = ucast x - 55296" "trail_unit y \<Longrightarrow> 1023 AND (ucast y :: u32) = ucast y - 56320"
proof -
  show "lead_unit x \<Longrightarrow> 1023 AND (ucast x :: u32) = ucast x - 55296"
    by (rule low_bits_nat [where k = 54 and r = "unat x - 55296"]) (auto simp: unat_ucast_unit lead_unit_def word_less_nat_alt)
  show "trail_unit y \<Longrightarrow> 1023 AND (ucast y :: u32) = ucast y - 56320"
    by (rule low_bits_nat [where k = 55 and r = "unat y - 56320"]) (auto simp: unat_ucast_unit trail_unit_def word_less_nat_alt)
qed

lemma pair_code_join: "lead_unit x \<Longrightarrow> trail_unit y \<Longrightarrow> pair_code x (Some y) = join_units x y"
  by (simp add: pair_code_def join_units_def low_bits to_u32_def)

text \<open>One step of an encoder that works unit by unit, on a plain, an ordinary and a paired unit.\<close>

lemma percent_unit:
  assumes "\<And>c. plain c \<Longrightarrow> c < 128" "\<not> lead_unit x" "\<not> trail_unit x"
  shows "percent plain (ucast x) = (if plain x then [x] else percent_code (ucast x))"
proof (cases "plain x")
  case True
  then have "(ucast x :: u32) < 128" using assms(1) [of x] by (simp add: word_less_nat_alt unat_ucast_unit)
  then show ?thesis using True by (simp add: percent_def ucast_unit_id)
next
  case False
  then show ?thesis using unit_classes(4) [of x] by (simp add: percent_def ucast_unit_id percent_code_utf8)
qed

lemma percent_pair: "lead_unit x \<Longrightarrow> trail_unit y \<Longrightarrow> percent plain (join_units x y) = percent_code (pair_code x (Some y))"
  using join_units_lt [of x y] by (auto simp: percent_def pair_code_join percent_code_utf8 word_less_nat_alt)

lemma plain_not_surrogate: "c < 128 \<Longrightarrow> \<not> lead_unit c \<and> \<not> trail_unit c"
  by (auto simp: lead_unit_def trail_unit_def word_less_nat_alt)

lemma qs_encode_text: "well_formed s \<Longrightarrow> qs_encode s = percent_text qs_plain s"
proof (induction s rule: qs_encode.induct)
  case (2 x)
  then show ?case using percent_unit [of qs_plain x] plain_small(2) by (simp add: percent_text_def surrogate_units)
next
  case (3 x y s)
  show ?case
  proof (cases "lead_unit x")
    case True
    then have y: "trail_unit y" "well_formed s" "\<not> qs_plain x" using 3(4) plain_small(2) [of x] plain_not_surrogate by auto
    then show ?thesis using 3(3) True percent_pair [of x y qs_plain] by (simp add: percent_text_def surrogate_units)
  next
    case False
    then have "\<not> trail_unit x" "well_formed (y # s)" using 3(4) by auto
    then show ?thesis using 3(1,2) False percent_unit [of qs_plain x] plain_small(2)
      by (simp add: percent_text_def surrogate_units usv_Cons)
  qed
qed (simp add: percent_text_def)

text \<open>What the runs of copied units and the escapes of \<open>escape\<close> make up.\<close>

lemma escape_uri: "escape_plain = uri_plain"
proof
  fix c :: code_unit
  have "39 \<le> c \<and> c \<le> 42 \<longleftrightarrow> c = 39 \<or> c = 40 \<or> c = 41 \<or> c = 42" by (auto simp: word_le_nat_alt word_unat_eq_iff)
  then show "escape_plain c = uri_plain c" by (auto simp: escape_plain_def uri_plain_def)
qed

lemma percent_text_plain: "uri_plain x \<Longrightarrow> percent_text uri_plain (x # s) = x # percent_text uri_plain s"
  using percent_unit [of uri_plain x] plain_small(1) [of x] plain_small(1) plain_not_surrogate [of x]
  by (simp add: percent_text_def usv_Cons)

lemma percent_text_unit:
  "\<not> uri_plain x \<Longrightarrow> \<not> surrogate x \<Longrightarrow> percent_text uri_plain (x # s) = percent_code (ucast x) @ percent_text uri_plain s"
  using percent_unit [of uri_plain x] plain_small(1) by (simp add: percent_text_def usv_Cons surrogate_units)

lemma percent_text_pair:
  "lead_unit x \<Longrightarrow> trail_unit y \<Longrightarrow> percent_text uri_plain (x # y # s) = percent_code (pair_code x (Some y)) @ percent_text uri_plain s"
  using percent_pair [of x y uri_plain] by (simp add: percent_text_def)

lemma run_snoc: "n \<le> r \<Longrightarrow> r < length e \<Longrightarrow> take (r + 1 - n) (drop n e) = take (r - n) (drop n e) @ [e ! r]"
  using take_Suc_conv_app_nth [of "r - n" "drop n e"] by (simp add: Suc_diff_le)

lemma escape_loop_text:
  "n \<le> r \<Longrightarrow> r \<le> length e \<Longrightarrow> well_formed (drop r e) \<Longrightarrow> (n = 0 \<longrightarrow> t = []) \<Longrightarrow>
   \<exists>t' n'. escape_loop e t n r = Inr (t', n') \<and> n' \<le> length e \<and> (n' = 0 \<longrightarrow> t' = [])
     \<and> t' @ drop n' e = t @ take (r - n) (drop n e) @ percent_text uri_plain (drop r e)"
proof (induction "length e - r" arbitrary: t n r rule: less_induct)
  case less
  show ?case
  proof (cases "r < length e")
    case False
    then have "escape_loop e t n r = Inr (t, n)" by (simp add: escape_loop.simps)
    then show ?thesis using less.prems False by (simp add: percent_text_def)
  next
    case r: True
    let ?x = "e ! r" and ?run = "take (r - n) (drop n e)"
    have d: "drop r e = ?x # drop (r + 1) e" using r by (simp add: Cons_nth_drop_Suc)
    consider "uri_plain ?x" | "\<not> uri_plain ?x" "\<not> surrogate ?x" | "\<not> uri_plain ?x" "surrogate ?x" by blast
    then show ?thesis
    proof cases
      case 1
      have w: "well_formed (drop (r + 1) e)" using less.prems(3) 1 plain_small(1) [of ?x] plain_not_surrogate [of ?x]
        unfolding d by (simp add: well_formed_append_unit)
      have st: "escape_loop e t n r = escape_loop e t n (r + 1)" using r 1 by (simp add: escape_loop.simps [of e t n r] escape_uri)
      show ?thesis using less.hyps [of "r + 1" n t] w less.prems r 1 unfolding st d
        by (simp add: percent_text_plain run_snoc del: One_nat_def)
    next
      case 2
      let ?t = "t @ ?run @ percent_code (ucast ?x)"
      have w: "well_formed (drop (r + 1) e)" using less.prems(3) 2 unfolding d by (simp add: well_formed_append_unit surrogate_units)
      have st: "escape_loop e t n r = escape_loop e ?t (r + 1) (r + 1)"
        using r 2 by (simp add: escape_loop.simps [of e t n r] escape_uri)
      show ?thesis using less.hyps [of "r + 1" "r + 1" ?t] w r 2 unfolding st d by (simp add: percent_text_unit)
    next
      case 3
      have r2: "r + 1 < length e" and y: "lead_unit ?x" "trail_unit (e ! (r + 1))" "well_formed (drop (r + 2) e)"
      proof -
        have w: "well_formed (?x # drop (r + 1) e)" using less.prems(3) unfolding d .
        show r2: "r + 1 < length e"
        proof (rule ccontr)
          assume "\<not> r + 1 < length e"
          then show False using w 3(2) by (simp add: surrogate_units)
        qed
        then have "drop (r + 1) e = e ! (r + 1) # drop (r + 2) e" by (simp add: Cons_nth_drop_Suc)
        then show "lead_unit ?x" "trail_unit (e ! (r + 1))" "well_formed (drop (r + 2) e)"
          using w 3(2) by (simp_all add: surrogate_units split: if_splits)
      qed
      have d2: "drop r e = ?x # e ! (r + 1) # drop (r + 2) e" unfolding d using r2 by (simp add: Cons_nth_drop_Suc)
      let ?t = "t @ ?run @ percent_code (pair_code ?x (Some (e ! (r + 1))))"
      have st: "escape_loop e t n r = escape_loop e ?t (r + 2) (r + 2)"
        using r r2 3 by (simp add: escape_loop.simps [of e t n r] escape_uri)
      show ?thesis using less.hyps [of "r + 2" "r + 2" ?t] r r2 y unfolding st d2 by (simp add: percent_text_pair)
    qed
  qed
qed

lemma escape_text: "well_formed s \<Longrightarrow> escape s = Inr (percent_text uri_plain s)"
  using escape_loop_text [of 0 0 s "[]"] by (auto simp: escape_def)

lemma strict_hexTable: "concat (map strict_unit (hexTable b)) = hexTable b"
proof -
  have "strict_unit x = [x]" if "x \<in> set (hexTable b)" for x
  proof -
    have "x = 37 \<or> alphanumeric x"
      using that uri.upper_hex_range [OF less_mult_imp_div_less, of "unat b" 16] uri.upper_hex_range [of "unat b mod 16"] unat_byte [of b]
      by (auto simp: hexTable_eq)
    then show ?thesis by (auto simp: strict_unit_def alphanumeric_def)
  qed
  then have m: "map strict_unit (hexTable b) = map (\<lambda>x. [x]) (hexTable b)" by (intro map_cong refl)
  show ?thesis unfolding m by (simp add: concat_map_singleton)
qed

lemma strict_bytes: "concat (map strict_unit (concat (map hexTable bs))) = concat (map hexTable bs)"
  by (induction bs) (simp_all add: strict_hexTable)

lemma strict_percent: "concat (map strict_unit (percent uri_plain c)) = percent qs_plain c"
proof (cases "c < 128 \<and> uri_plain (ucast c)")
  case True
  have u: "utf8_of c = [ucast c]" using True by (simp add: utf8_of_ascii)
  have "(ucast (ucast c :: code_unit) :: byte) = ucast c" by (rule bit_word_eqI) (simp add: bit_ucast_iff)
  moreover have "qs_plain (ucast c) \<longleftrightarrow> ucast c \<notin> {33, 39, 40, 41, 42 :: code_unit}"
    using True by (auto simp: qs_plain_def uri_plain_def alphanumeric_def)
  ultimately show ?thesis using True u by (simp add: percent_def hexTable_def strict_unit_def)
next
  case False
  then have "\<not> (c < 128 \<and> qs_plain (ucast c))" by (auto simp: qs_plain_def uri_plain_def)
  then show ?thesis using False strict_bytes unfolding percent_def by (simp only: if_not_P if_False)
qed

lemma strict_text: "well_formed s \<Longrightarrow> strict_uri_encode s = Inr (percent_text qs_plain s)"
proof -
  have "concat (map strict_unit (concat (map (percent uri_plain) cs))) = concat (map (percent qs_plain) cs)" for cs
    by (induction cs) (simp_all add: strict_percent)
  then show "well_formed s \<Longrightarrow> ?thesis" by (simp add: strict_uri_encode_def encodeURIComponent_text percent_text_def)
qed

section \<open>UTF-8 in numbers\<close>

lemma char_numbers: "scalar c \<Longrightarrow> map unat (utf8_of c) =
   (let r = unat c
    in if r < 128 then [r] else if r < 2048 then [192 + r div 64, 128 + r mod 64]
       else if r < 65536 then [224 + r div 4096, 128 + r div 64 mod 64, 128 + r mod 64]
       else [240 + r div 262144, 128 + r div 4096 mod 64, 128 + r div 64 mod 64, 128 + r mod 64])"
proof -
  assume s: "scalar c"
  have cont: "unat (ucast (x AND 63 OR 128 :: u32) :: byte) = 128 + unat x mod 64" for x
  proof -
    have "x AND 63 < (64 :: u32)" by (simp add: word_less_nat_alt unat_and_63)
    then have "unat (x AND 63 OR 128) = unat x mod 64 + 128" using lead_nat(4) [of "x AND 63"] by (simp add: unat_and_63)
    then show ?thesis using unat_low_byte [of "x AND 63 OR 128"] by (simp add: word_less_nat_alt)
  qed
  have lead: "c < 2048 \<Longrightarrow> unat (ucast (drop_bit 6 c OR 192) :: byte) = 192 + unat c div 64"
    "c < 65536 \<Longrightarrow> unat (ucast (drop_bit 12 c OR 224) :: byte) = 224 + unat c div 4096"
    "c < 1114112 \<Longrightarrow> unat (ucast (drop_bit 18 c OR 240) :: byte) = 240 + unat c div 262144"
    using lead_lt [of c] lead_nat(1) [OF shift_lt(1), of c] lead_nat(2) [OF shift_lt(2), of c] lead_nat(3) [OF shift_lt(3), of c]
    by (simp_all add: unat_low_byte unat_shift_word)
  have b: "unat (ucast c :: byte) = unat c" if "c < 128" using unat_low_byte [of c] that by (simp add: word_less_nat_alt)
  note lt = word_less_nat_alt [of c 128, symmetric] word_less_nat_alt [of c 2048, symmetric] word_less_nat_alt [of c 65536, symmetric]
  have n: "unat c < 128 \<longleftrightarrow> c < 128" "unat c < 2048 \<longleftrightarrow> c < 2048" "unat c < 65536 \<longleftrightarrow> c < 65536" by (simp_all add: word_less_nat_alt)
  have v: "63 AND c = c AND 63" by (simp only: and.commute)
  show ?thesis unfolding Let_def n utf8_of_bits [OF scalar_lt [OF s]] code_point_bytes_def v
    using scalar_lt [OF s] b lead by (simp add: cont unat_shift_word)
qed

lemma encode_unit:
  assumes "\<not> lead_unit x" "\<not> trail_unit x"
  shows "encode_utf8 (x # s) = map unat (utf8_of (ucast x)) @ encode_utf8 s"
proof -
  have "scalar (ucast x)" using usv_scalar [of "[x]"] assms by simp
  moreover have "\<not> (55296 \<le> unat x \<and> unat x \<le> 56319)" using assms(1) by (auto simp: lead_unit_def word_less_nat_alt)
  ultimately show ?thesis using char_numbers [of "ucast x"] unat_unit [of x]
    by (cases s) (auto simp add: unat_ucast_unit Let_def div_mult2_eq [symmetric] simp del: encode_utf8.simps(2) simp: encode_utf8.simps(2) [of x])
qed

lemma encode_pair:
  assumes "lead_unit x" "trail_unit y"
  shows "encode_utf8 (x # y # s) = map unat (utf8_of (join_units x y)) @ encode_utf8 s"
proof -
  have r: "55296 \<le> unat x" "unat x \<le> 56319" "56320 \<le> unat y" "unat y \<le> 57343"
    using assms by (auto simp: lead_unit_def trail_unit_def word_less_nat_alt)
  have j: "unat (join_units x y) = 1024 * (unat x - 55296) + unat y - 56320 + 65536"
    using unat_join_units(1) [OF assms] r by simp
  have "scalar (join_units x y)" using usv_scalar [of "[x, y]"] assms by simp
  then show ?thesis using char_numbers [of "join_units x y"] r unfolding j
    by (simp add: Let_def div_mult2_eq [symmetric])
qed

lemma encode_utf8_text: "well_formed s \<Longrightarrow> encode_utf8 s = map unat (concat (map utf8_of (usv s)))"
proof (induction s rule: well_formed.induct)
  case (3 x y s)
  then show ?case by (cases "lead_unit x") (simp_all add: encode_unit encode_pair usv_Cons del: encode_utf8.simps(2))
qed (simp_all add: encode_unit del: encode_utf8.simps(2))

section \<open>Unescaping\<close>

lemma unescape_hexTable: "unescape_loop spc Copy (map Some (hexTable b) @ z) = b # unescape_loop spc Copy z"
proof -
  have "(of_int (16 * int (unat b div 16) + int (unat b mod 16)) :: byte) = of_nat (16 * (unat b div 16) + unat b mod 16)"
    by (metis (no_types) of_int_of_nat_eq of_nat_add of_nat_mult of_nat_numeral)
  then have "(of_int (16 * int (unat b div 16) + int (unat b mod 16)) :: byte) = b" by simp
  then show ?thesis using unat_byte [of b]
    by (simp add: hexTable_eq unescape_step_def unit_digit_def hex_digit_upper less_mult_imp_div_less)
qed

lemma unescape_bytes: "unescape_loop spc Copy (map Some (concat (map hexTable bs)) @ z) = bs @ unescape_loop spc Copy z"
  by (induction bs) (simp_all add: unescape_hexTable)

context percent_codec begin

lemma unescape_percent: "unescape_loop spc Copy (map Some (percent plain c) @ z) = utf8_of c @ unescape_loop spc Copy z"
proof (cases "c < 128 \<and> plain (ucast c)")
  case True
  then have "ucast c \<noteq> (37 :: code_unit)" "ucast c \<noteq> (43 :: code_unit)" using plain_reserved(1,2) by metis+
  moreover have "utf8_of c = [ucast c]" using True by (simp add: utf8_of_ascii)
  moreover have "(ucast (ucast c :: code_unit) :: byte) = ucast c" by (rule bit_word_eqI) (simp add: bit_ucast_iff)
  ultimately show ?thesis using True by (simp add: percent_def unescape_step_def stored_def)
next
  case False
  then have "percent plain c = concat (map hexTable (utf8_of c))" unfolding percent_def by (rule if_not_P)
  then show ?thesis using unescape_bytes by (simp only:)
qed

lemma unescape_text: "unescapeBuffer (percent_text plain s) spc = concat (map utf8_of (usv s))"
proof -
  have "unescape_loop spc Copy (map Some (concat (map (percent plain) cs)) @ z) = concat (map utf8_of cs) @ unescape_loop spc Copy z" for cs z
    by (induction cs) (simp_all add: unescape_percent)
  then show ?thesis by (simp add: unescapeBuffer_def percent_text_def unescape_step_def)
qed

end

text \<open>The buffer that \<open>unescapeBuffer\<close> allocates, of the length of the string, has room for its bytes.\<close>

fun kept :: "escape_state \<Rightarrow> nat" where
  "kept Copy = 0"
| "kept Percent = 1"
| "kept (First i n) = 2"

lemma unescape_room: "length (unescape_loop spc u s) \<le> kept u + length s"
proof (induction s arbitrary: u)
  case (Cons c s)
  obtain u' bs where st: "unescape_step spc u c = (u', bs)" by fastforce
  have "kept u' + length bs \<le> kept u + 1"
    using st by (cases u) (auto simp: unescape_step_def split: if_splits option.splits)
  then show ?case using Cons [of u'] st by simp
qed simp

lemma unescapeBuffer_room: "length (unescapeBuffer e spc) \<le> length e"
  using unescape_room [of spc Copy "map Some e @ [None]"] by (simp add: unescapeBuffer_def)

section \<open>Properties\<close>

lemma utf8ToBytes_well_formed: "well_formed s \<Longrightarrow> utf8ToBytes s None = Inr (concat (map utf8_of (usv s)))"
  by (simp add: utf8ToBytes_def utf8_loop_text(1) text_bytes_def dropped_well_formed)

lemma plus_to_none: "43 \<notin> set s \<Longrightarrow> plus_to r s = s"
  unfolding plus_to_def by (induction s) auto

text \<open>
  C15: on texts without lone surrogates, \<open>querystring.escape\<close> agrees with \<open>encodeURIComponent\<close>, \<open>strict-uri-encode\<close> with
  \<open>qs.encode\<close> (which escape more characters than the former two), and the numbers of \<open>encode-utf8\<close> are the bytes
  of the encoder of \<open>Buffer\<close>.\<close>

theorem uri_encoders_agree:
  assumes "well_formed s"
  shows "escape s = encodeURIComponent s \<and> strict_uri_encode s = Inr (qs_encode s)
    \<and> (\<exists>b. utf8ToBytes s None = Inr b \<and> encode_utf8 s = map unat b)"
  using assms by (simp add: escape_text encodeURIComponent_text strict_text qs_encode_text encode_utf8_text utf8ToBytes_well_formed)

theorem uri_encoders_agree_witness:
  "escape [233, 33, 55357, 56832] = encodeURIComponent [233, 33, 55357, 56832]
   \<and> strict_uri_encode [233, 33, 55357, 56832] = Inr (qs_encode [233, 33, 55357, 56832])
   \<and> (\<exists>b. utf8ToBytes [233, 33, 55357, 56832] None = Inr b \<and> encode_utf8 [233, 33, 55357, 56832] = map unat b)"
  by (rule uri_encoders_agree) (simp add: lead_unit_def trail_unit_def)

text \<open>
  C16: a text without lone surrogates is recovered from its encodings: \<open>qs.decode\<close> undoes \<open>qs.encode\<close>, \<open>querystring.unescape\<close> undoes
  \<open>querystring.escape\<close>, and \<open>unescapeBuffer\<close> finds the bytes of the UTF-8 form of the text in the escaped string.\<close>

theorem uri_roundtrip:
  assumes "well_formed s"
  shows "qs_decode (qs_encode s) = s
    \<and> (\<exists>t. escape s = Inr t \<and> qs_unescape t spc = s \<and> utf8ToBytes s None = Inr (unescapeBuffer t spc))"
proof -
  have "plus_to [32] (qs_encode s) = qs_encode s"
    using strict.no_separators [of 43 s] by (intro plus_to_none) (simp add: qs_encode_text [OF assms])
  then have "qs_decode (qs_encode s) = s" using strict.decode_text [OF assms] by (simp add: qs_decode_def qs_encode_text [OF assms])
  moreover have "qs_unescape (percent_text uri_plain s) spc = s" using uri.decode_text [OF assms] by (simp add: qs_unescape_def)
  ultimately show ?thesis using assms by (simp add: escape_text utf8ToBytes_well_formed uri.unescape_text)
qed

theorem uri_roundtrip_witness:
  "qs_decode (qs_encode [97, 38, 8364]) = [97, 38, 8364]
   \<and> (\<exists>t. escape [97, 38, 8364] = Inr t \<and> qs_unescape t True = [97, 38, 8364] \<and> utf8ToBytes [97, 38, 8364] None = Inr (unescapeBuffer t True))"
  by (rule uri_roundtrip) (simp add: lead_unit_def trail_unit_def)

lemma bit_1023: "bit (1023 :: code_unit) i \<longleftrightarrow> i < 10"
proof -
  have "(1023 :: code_unit) = mask 10" by (simp add: mask_eq_exp_minus_1)
  then show ?thesis by (simp only: bit_mask_iff) (auto simp: possible_bit_word)
qed

lemma low_ten:
  assumes h: "\<And>i. bit h i \<Longrightarrow> 10 \<le> i"
  shows "1023 AND (ucast (h OR (1023 AND x)) :: u32) = 1023 AND ucast (x :: code_unit)"
proof (rule bit_word_eqI)
  fix i
  show "bit (1023 AND (ucast (h OR (1023 AND x)) :: u32)) i = bit (1023 AND (ucast x :: u32)) i"
    unfolding js_bits bit_1023 using h [of i] by (cases "i < 10") auto
qed

lemma tag_high: "bit (55296 :: code_unit) i \<Longrightarrow> 10 \<le> i" "bit (56320 :: code_unit) i \<Longrightarrow> 10 \<le> i"
proof -
  have "(55296 :: code_unit) = push_bit 10 54" "(56320 :: code_unit) = push_bit 10 55" by (simp_all add: push_bit_eq_mult)
  then show "bit (55296 :: code_unit) i \<Longrightarrow> 10 \<le> i" "bit (56320 :: code_unit) i \<Longrightarrow> 10 \<le> i" by (simp_all only: bit_push_bit_iff)
qed

lemma low_ten_lead: "lead_unit (55296 OR (1023 AND x))"
proof -
  have "1023 AND x = take_bit 10 x" by (simp add: take_bit_eq_mask mask_eq_exp_minus_1 and.commute)
  then have r: "unat (1023 AND x) < 1024" using take_bit_nat_less_exp [of 10 "unat x"] by (simp add: unsigned_take_bit_eq)
  have "55296 OR (1023 AND x) = 55296 + (1023 AND x)"
    by (rule disjunctive_add [symmetric]) (use tag_high(1) bit_1023 in \<open>force simp only: bit_and_iff\<close>)
  then show ?thesis using r by (simp add: unat_word_ariths lead_unit_def word_less_nat_alt)
qed

text \<open>
  C39: \<open>qs.encode\<close> does not test that a surrogate begins a pair: a lone low surrogate, for which \<open>encodeURIComponent\<close> throws, is
  encoded together with the unit behind it, as a pair that the text does not have.\<close>

lemma lone_surrogate_encoded_as_pair:
  assumes "trail_unit x"
  shows "encodeURIComponent (x # y # s) = Inl (GenericError ''URI malformed'')
    \<and> qs_encode (x # y # s) = qs_encode ((55296 OR (1023 AND x)) # (56320 OR (1023 AND y)) # s)"
proof -
  let ?x = "55296 OR (1023 AND x)" and ?y = "56320 OR (1023 AND y)"
  have "surrogate ?x" "\<not> qs_plain ?x"
    using low_ten_lead [of x] plain_small(2) [of ?x] plain_not_surrogate [of ?x] by (auto simp: surrogate_units)
  then have "qs_encode (?x # ?y # s) = percent_code (pair_code ?x (Some ?y)) @ qs_encode s" by simp
  moreover have "pair_code ?x (Some ?y) = pair_code x (Some y)"
  proof -
    have m: "1023 AND (ucast ?x :: u32) = 1023 AND ucast x" "1023 AND (ucast ?y :: u32) = 1023 AND ucast y"
      by (rule low_ten, erule tag_high)+
    show ?thesis unfolding pair_code_def to_u32_def option.case m ..
  qed
  moreover have "surrogate x" "\<not> qs_plain x"
    using assms plain_small(2) [of x] plain_not_surrogate [of x] by (auto simp: surrogate_units)
  ultimately show ?thesis using assms unit_classes(6) [OF assms] by (simp add: encodeURIComponent_def)
qed

lemma lone_surrogate_encoded_as_pair_witness:
  "encodeURIComponent [56320, 97] = Inl (GenericError ''URI malformed'')
   \<and> qs_encode [56320, 97] = qs_encode [55296 OR (1023 AND 56320), 56320 OR (1023 AND 97)]"
  by (rule lone_surrogate_encoded_as_pair) (simp add: trail_unit_def)

end
