(* ===== verification/Json_Patch.thy ===== *)
theory Json_Patch
  imports JS_Prelude "HOL-Library.Finite_Map" "HOL-Library.Multiset"
begin

text \<open>
  JSON Patch (\<open>fast-json-patch\<close>), with which the resolver of Swagger UI edits API descriptions:
  \<open>applyPatch\<close> with its operations, \<open>compare\<close>, which finds the operations that turn one document into another,
  and \<open>deepEqual\<close>, on which the operation \<open>test\<close> relies.

  Documents are JSON values without shared parts, so that the code's changes in place are functions; numbers
  are integers. An object is the list of its properties in the order JavaScript keeps them. Properties that
  objects inherit are not modelled, except that setting \<open>__proto__\<close> makes no property. Where the code would leave JSON (an array with a gap or with a
  property that is no index, an object with another prototype, a document inside itself, a property set to \<open>undefined\<close>), the model
  says \<open>Outside\<close> and nothing is claimed. The optional validation of operations is off, as it is in the
  resolver.
\<close>

section \<open>Values\<close>

datatype json = JNull | JBool bool | JNum int | JStr jsstring | JArr "json list" | JObj "(jsstring \<times> json) list"

datatype patch_error = Test_failed | Type_error | Outside

type_synonym 'a presult = "patch_error + 'a"

definition isInteger :: "jsstring \<Rightarrow> bool" where
  "isInteger e \<longleftrightarrow> (\<forall>t \<in> set e. 48 \<le> t \<and> t \<le> 57)"

definition dec_num :: "jsstring \<Rightarrow> int" where
  "dec_num e = foldl (\<lambda>n c. 10 * n + (uint c - 48)) 0 e"

function nat_text :: "nat \<Rightarrow> jsstring" where
  "nat_text n = (if n < 10 then [of_nat (48 + n)] else nat_text (n div 10) @ [of_nat (48 + n mod 10)])"
  by pat_completeness auto
termination
  by (relation "measure id") auto

declare nat_text.simps [simp del]

text \<open>A property name that is an index of an array or a string.\<close>

definition array_index :: "jsstring \<Rightarrow> nat option" where
  "array_index p = (if isInteger p \<and> dec_num p < 4294967295 \<and> p = nat_text (nat (dec_num p)) then Some (nat (dec_num p)) else None)"

definition container :: "json \<Rightarrow> bool" where
  "container e = (case e of JArr _ \<Rightarrow> True | JObj _ \<Rightarrow> True | _ \<Rightarrow> False)"

text \<open>Own properties: \<open>e[p]\<close>, and the names that \<open>Object.keys\<close> lists.\<close>

definition member :: "json \<Rightarrow> jsstring \<Rightarrow> json option" where
  "member e p =
     (case e of
        JObj m \<Rightarrow> map_of m p
      | JArr xs \<Rightarrow> (case array_index p of Some i \<Rightarrow> item_at xs i
                    | None \<Rightarrow> if p = lit ''length'' then Some (JNum (int (length xs))) else None)
      | JStr s \<Rightarrow> (case array_index p of Some i \<Rightarrow> map_option (\<lambda>c. JStr [c]) (item_at s i)
                   | None \<Rightarrow> if p = lit ''length'' then Some (JNum (int (length s))) else None)
      | _ \<Rightarrow> None)"

definition objectKeys :: "json \<Rightarrow> jsstring list" where
  "objectKeys e =
     (case e of
        JObj m \<Rightarrow> map fst m
      | JArr xs \<Rightarrow> map nat_text [0..<length xs]
      | JStr s \<Rightarrow> map nat_text [0..<length s]
      | _ \<Rightarrow> [])"

text \<open>\<open>e[p] = v\<close> on an object: names that are indices come first, in ascending order.\<close>

fun insert_index :: "nat \<Rightarrow> jsstring \<times> json \<Rightarrow> (jsstring \<times> json) list \<Rightarrow> (jsstring \<times> json) list" where
  "insert_index i kv [] = [kv]"
| "insert_index i kv (x # m) =
     (case array_index (fst x) of
        Some j \<Rightarrow> if j < i then x # insert_index i kv m else kv # x # m
      | None \<Rightarrow> kv # x # m)"

definition obj_put :: "(jsstring \<times> json) list \<Rightarrow> jsstring \<Rightarrow> json \<Rightarrow> (jsstring \<times> json) list" where
  "obj_put m p v =
     (if p \<in> set (map fst m) then map (\<lambda>(k, w). (k, if k = p then v else w)) m
      else case array_index p of Some i \<Rightarrow> insert_index i (p, v) m | None \<Rightarrow> m @ [(p, v)])"

definition obj_delete :: "(jsstring \<times> json) list \<Rightarrow> jsstring \<Rightarrow> (jsstring \<times> json) list" where
  "obj_delete m p = filter (\<lambda>(k, w). k \<noteq> p) m"

section \<open>Pointers\<close>

definition escapePathComponent :: "jsstring \<Rightarrow> jsstring" where
  "escapePathComponent e =
     (if 47 \<notin> set e \<and> 126 \<notin> set e then e
      else concat (map (\<lambda>c. if c = 47 then [126, 49] else [c]) (concat (map (\<lambda>c. if c = 126 then [126, 48] else [c]) e))))"

text \<open>\<open>e.replace(/ab/g, r)\<close>.\<close>

fun replace_pair :: "code_unit \<Rightarrow> code_unit \<Rightarrow> code_unit \<Rightarrow> jsstring \<Rightarrow> jsstring" where
  "replace_pair a b r (x # y # e) = (if x = a \<and> y = b then r # replace_pair a b r e else x # replace_pair a b r (y # e))"
| "replace_pair a b r e = e"

definition unescapePathComponent :: "jsstring \<Rightarrow> jsstring" where
  "unescapePathComponent e = replace_pair 126 48 126 (replace_pair 126 49 47 e)"

text \<open>A component as a key of the value it is applied to; \<open>-\<close> is the end of an array, \<open>~~g\<close> an index.\<close>

datatype pkey = Index int | Name jsstring

definition resolve :: "json \<Rightarrow> jsstring \<Rightarrow> pkey presult" where
  "resolve d g =
     (case d of
        JArr xs \<Rightarrow>
          if g = lit ''-'' then Inr (Index (int (length xs)))
          else if isInteger g then if dec_num g < 2 ^ 53 then Inr (Index (ToInt32 (dec_num g))) else Inl Outside
          else Inr (Name g)
      | _ \<Rightarrow> Inr (Name (if 126 \<in> set g then unescapePathComponent g else g)))"

definition child :: "json \<Rightarrow> pkey \<Rightarrow> json option presult" where
  "child d k =
     (case d of
        JNull \<Rightarrow> Inl Type_error
      | JArr xs \<Rightarrow> Inr (case k of Index i \<Rightarrow> if 0 \<le> i then item_at xs (nat i) else None | Name p \<Rightarrow> member d p)
      | _ \<Rightarrow> Inr (case k of Index i \<Rightarrow> None | Name p \<Rightarrow> member d p))"

text \<open>A changed part in its place; parts of strings are no objects and do not change.\<close>

definition put_child :: "json \<Rightarrow> pkey \<Rightarrow> json \<Rightarrow> json" where
  "put_child d k c =
     (case d of
        JArr xs \<Rightarrow> (case k of Index i \<Rightarrow> JArr (xs[nat i := c]) | Name p \<Rightarrow> d)
      | JObj m \<Rightarrow> (case k of Index i \<Rightarrow> d | Name p \<Rightarrow> JObj (obj_put m p c))
      | _ \<Rightarrow> d)"

text \<open>
  The loop of \<open>applyOperation\<close> along the components of a pointer; \<open>leaf\<close> is called with the last one. Without
  any the component is \<open>undefined\<close>.
\<close>

fun descend :: "(json \<Rightarrow> pkey \<Rightarrow> (json \<times> 'r) presult) \<Rightarrow> json \<Rightarrow> jsstring list \<Rightarrow> (json \<times> 'r) presult" where
  "descend leaf d [] = (case d of JArr _ \<Rightarrow> Inl Type_error | _ \<Rightarrow> leaf d (Name (lit ''undefined'')))"
| "descend leaf d [g] = (case resolve d g of Inl err \<Rightarrow> Inl err | Inr k \<Rightarrow> leaf d k)"
| "descend leaf d (g # g' # gs) =
     (case resolve d g of
        Inl err \<Rightarrow> Inl err
      | Inr k \<Rightarrow>
          (case child d k of
             Inl err \<Rightarrow> Inl err
           | Inr None \<Rightarrow> Inl Type_error
           | Inr (Some c) \<Rightarrow>
               (case descend leaf c (g' # gs) of
                  Inl err \<Rightarrow> Inl err
                | Inr (c, r) \<Rightarrow> Inr (put_child d k c, r))))"

definition at_pointer :: "(json \<Rightarrow> pkey \<Rightarrow> (json \<times> 'r) presult) \<Rightarrow> json \<Rightarrow> jsstring \<Rightarrow> (json \<times> 'r) presult" where
  "at_pointer leaf e path = descend leaf e (tl (split_on 47 path))"

section \<open>Operations\<close>

text \<open>The handlers of objects (\<open>u\<close>) and of arrays (\<open>s\<close>). Assigning to a property of a primitive value has no effect.\<close>

definition splice_index :: "nat \<Rightarrow> int \<Rightarrow> nat" where
  "splice_index n i = nat (if i < 0 then max 0 (int n + i) else min (int n) i)"

definition arr_add :: "json \<Rightarrow> json list \<Rightarrow> int \<Rightarrow> (json \<times> unit) presult" where
  "arr_add v xs t = (let i = splice_index (length xs) t in Inr (JArr (take i xs @ [v] @ drop i xs), ()))"

definition arr_remove :: "json list \<Rightarrow> int \<Rightarrow> (json \<times> json option) presult" where
  "arr_remove xs t = (let i = splice_index (length xs) t in Inr (JArr (take i xs @ drop (Suc i) xs), item_at xs i))"

definition arr_replace :: "json \<Rightarrow> json list \<Rightarrow> int \<Rightarrow> (json \<times> unit) presult" where
  "arr_replace v xs t =
     (if 0 \<le> t \<and> t < int (length xs) then Inr (JArr (xs[nat t := v]), ())
      else if t = int (length xs) then Inr (JArr (xs @ [v]), ())
      else Inl Outside)"

text \<open>
  \<open>e[t] = v\<close> on an object. Without an own property of the name \<open>__proto__\<close> the setter of \<open>Object.prototype\<close> is called: it ignores
  primitive values, and with other ones it changes what the object inherits.
\<close>

definition obj_assign :: "json \<Rightarrow> (jsstring \<times> json) list \<Rightarrow> jsstring \<Rightarrow> (json \<times> unit) presult" where
  "obj_assign v m p =
     (if p = lit ''__proto__'' \<and> p \<notin> set (map fst m)
      then if container v \<or> v = JNull then Inl Outside else Inr (JObj m, ())
      else Inr (JObj (obj_put m p v), ()))"

text \<open>\<open>splice(t, 1)\<close> converts a name to a number: a name that starts with a letter, other than \<open>Infinity\<close>, counts as 0.\<close>

definition nan_name :: "jsstring \<Rightarrow> bool" where
  "nan_name p \<longleftrightarrow> p \<noteq> [] \<and> (65 \<le> hd p \<and> hd p \<le> 90 \<or> 97 \<le> hd p \<and> hd p \<le> 122) \<and> p \<noteq> lit ''Infinity''"

definition add_leaf :: "json \<Rightarrow> json \<Rightarrow> pkey \<Rightarrow> (json \<times> unit) presult" where
  "add_leaf v d k =
     (case (d, k) of
        (JNull, _) \<Rightarrow> Inl Type_error
      | (JArr xs, Index t) \<Rightarrow> arr_add v xs t
      | (JArr xs, Name _) \<Rightarrow> Inl Outside
      | (JObj m, Name p) \<Rightarrow> obj_assign v m p
      | _ \<Rightarrow> Inr (d, ()))"

definition remove_leaf :: "json \<Rightarrow> pkey \<Rightarrow> (json \<times> json option) presult" where
  "remove_leaf d k =
     (case (d, k) of
        (JNull, _) \<Rightarrow> Inl Type_error
      | (JArr xs, Index t) \<Rightarrow> arr_remove xs t
      | (JArr xs, Name p) \<Rightarrow> if nan_name p then arr_remove xs 0 else Inl Outside
      | (JObj m, Name p) \<Rightarrow> Inr (JObj (obj_delete m p), map_of m p)
      | (_, Name p) \<Rightarrow> Inr (d, member d p)
      | _ \<Rightarrow> Inr (d, None))"

definition replace_leaf :: "json \<Rightarrow> json \<Rightarrow> pkey \<Rightarrow> (json \<times> unit) presult" where
  "replace_leaf v d k =
     (case (d, k) of
        (JNull, _) \<Rightarrow> Inl Type_error
      | (JArr xs, Index t) \<Rightarrow> arr_replace v xs t
      | (JArr xs, Name _) \<Rightarrow> Inl Outside
      | (JObj m, Name p) \<Rightarrow> obj_assign v m p
      | _ \<Rightarrow> Inr (d, ()))"

definition get_leaf :: "json \<Rightarrow> pkey \<Rightarrow> (json \<times> json option) presult" where
  "get_leaf d k = (case child d k of Inl err \<Rightarrow> Inl err | Inr v \<Rightarrow> Inr (d, v))"

definition getValueByPointer :: "json \<Rightarrow> jsstring \<Rightarrow> json option presult" where
  "getValueByPointer e t =
     (if t = [] then Inr (Some e) else case at_pointer get_leaf e t of Inl err \<Rightarrow> Inl err | Inr (_, v) \<Rightarrow> Inr v)"

text \<open>
  \<open>deepEqual\<close> in its strict mode, on values that are not the same object: two arrays or objects are equal if they
  list the same names with equal values. A property named \<open>prototype\<close> is compared by identity first.
\<close>

definition same_primitive :: "json option \<Rightarrow> json option \<Rightarrow> bool" where
  "same_primitive a b \<longleftrightarrow> a = b \<and> (case a of Some v \<Rightarrow> \<not> container v | None \<Rightarrow> True)"

lemma member_size: "container e \<Longrightarrow> member e p = Some c \<Longrightarrow> size c < size e"
proof (cases e)
  case (JObj m)
  assume "member e p = Some c"
  then have "(p, c) \<in> set m" using JObj by (simp add: member_def map_of_SomeD)
  then have "size c < size_list (size_prod (\<lambda>_. 0) size) m"
    by (intro less_le_trans [OF _ size_list_estimation' [of "(p, c)" m]]) auto
  then show ?thesis using JObj by (simp add: size_list_conv_sum_list)
next
  case (JArr xs)
  assume "member e p = Some c"
  then have "c \<in> set xs \<or> c = JNum (int (length xs))"
    using JArr by (auto simp: member_def item_at_def split: option.splits if_splits)
  then show ?thesis using JArr by (auto simp: less_Suc_eq_le intro: size_list_estimation')
qed (auto simp: container_def)

function deepEqual :: "json \<Rightarrow> json \<Rightarrow> bool" where
  "deepEqual e t =
     (if container e \<and> container t
      then same_primitive (member e (lit ''prototype'')) (member t (lit ''prototype''))
           \<and> mset (objectKeys e) = mset (objectKeys t)
           \<and> list_all (\<lambda>c. case member e c of None \<Rightarrow> False | Some x \<Rightarrow>
                              (case member t c of None \<Rightarrow> False | Some y \<Rightarrow> deepEqual x y)) (objectKeys e)
      else e = t)"
  by pat_completeness auto
termination
  by (relation "measure (\<lambda>(e, t). size e)") (auto dest: member_size)

declare deepEqual.simps [simp del]

definition test_leaf :: "json \<Rightarrow> json \<Rightarrow> pkey \<Rightarrow> (json \<times> unit) presult" where
  "test_leaf v d k =
     (case child d k of
        Inl err \<Rightarrow> Inl err
      | Inr (Some x) \<Rightarrow> if deepEqual x v then Inr (d, ()) else Inl Test_failed
      | Inr None \<Rightarrow> Inl Test_failed)"

section \<open>Patches\<close>

datatype operation =
  Add jsstring json
| Remove jsstring
| Replace jsstring json
| Move jsstring jsstring
| Copy jsstring jsstring
| Test jsstring json

text \<open>The first argument of \<open>Move\<close> and \<open>Copy\<close> is \<open>from\<close>. With an empty pointer the operation is on the document itself.\<close>

definition whole_document :: "json option presult \<Rightarrow> json presult" where
  "whole_document r = (case r of Inl err \<Rightarrow> Inl err | Inr None \<Rightarrow> Inl Outside | Inr (Some v) \<Rightarrow> Inr v)"

definition copy_op :: "json \<Rightarrow> jsstring \<Rightarrow> jsstring \<Rightarrow> json presult" where
  "copy_op n from path =
     (case getValueByPointer n from of
        Inl err \<Rightarrow> Inl err
      | Inr r \<Rightarrow> map_sum id fst (at_pointer (add_leaf (case r of None \<Rightarrow> JNull | Some v \<Rightarrow> v)) n path))"

definition move_op :: "json \<Rightarrow> jsstring \<Rightarrow> jsstring \<Rightarrow> json presult" where
  "move_op n from path =
     (if from = [] then Inl Outside
      else case getValueByPointer n path of
             Inl err \<Rightarrow> Inl err
           | Inr _ \<Rightarrow>
               (case at_pointer remove_leaf n from of
                  Inl err \<Rightarrow> Inl err
                | Inr (n, None) \<Rightarrow> Inl Outside
                | Inr (n, Some v) \<Rightarrow> map_sum id fst (at_pointer (add_leaf v) n path)))"

definition applyOperation :: "json \<Rightarrow> operation \<Rightarrow> json presult" where
  "applyOperation e n =
     (case n of
        Add path v \<Rightarrow> if path = [] then Inr v else map_sum id fst (at_pointer (add_leaf v) e path)
      | Remove path \<Rightarrow> if path = [] then Inr JNull else map_sum id fst (at_pointer remove_leaf e path)
      | Replace path v \<Rightarrow> if path = [] then Inr v else map_sum id fst (at_pointer (replace_leaf v) e path)
      | Test path v \<Rightarrow>
          if path = [] then if deepEqual e v then Inr e else Inl Test_failed
          else map_sum id fst (at_pointer (test_leaf v) e path)
      | Copy from path \<Rightarrow> if path = [] then whole_document (getValueByPointer e from) else copy_op e from path
      | Move from path \<Rightarrow> if path = [] then whole_document (getValueByPointer e from) else move_op e from path)"

fun applyPatch :: "json \<Rightarrow> operation list \<Rightarrow> json presult" where
  "applyPatch e [] = Inr e"
| "applyPatch e (n # ns) = (case applyOperation e n of Inl err \<Rightarrow> Inl err | Inr e \<Rightarrow> applyPatch e ns)"

section \<open>Comparing documents\<close>

text \<open>\<open>_generate\<close> (\<open>f\<close>): the names of the old value from the last to the first, then the new names.\<close>

function generate :: "json \<Rightarrow> json \<Rightarrow> jsstring \<Rightarrow> operation list" where
  "generate e t o' =
     (if container e
      then concat (map (\<lambda>p.
             let path = o' @ [47] @ escapePathComponent p
             in case member e p of None \<Rightarrow> [] | Some l \<Rightarrow>
                  (case member t p of
                     None \<Rightarrow> [Remove path]
                   | Some c \<Rightarrow> if container l \<and> container c then generate l c path
                               else if l \<noteq> c then [Replace path c] else [])) (rev (objectKeys e)))
           @ (if list_ex (\<lambda>p. member t p = None) (objectKeys e) \<or> length (objectKeys t) \<noteq> length (objectKeys e)
              then concat (map (\<lambda>p. case (member e p, member t p) of
                     (None, Some c) \<Rightarrow> [Add (o' @ [47] @ escapePathComponent p) c] | _ \<Rightarrow> []) (objectKeys t))
              else [])
      else [])"
  by pat_completeness auto
termination
  by (relation "measure (\<lambda>(e, t, o'). size e)") (auto dest: member_size)

declare generate.simps [simp del]

text \<open>\<open>compare\<close>, on arrays and objects.\<close>

definition compare :: "json \<Rightarrow> json \<Rightarrow> operation list" where
  "compare e t = generate e t []"

section \<open>Index names\<close>

lemma digit_unit:
  assumes "k < 10"
  shows "unat (of_nat (48 + k) :: code_unit) = 48 + k"
  using assms unfolding unat_of_nat by simp

lemma nat_text_digits: "c \<in> set (nat_text n) \<Longrightarrow> 48 \<le> c \<and> c \<le> 57"
proof (induction n rule: nat_text.induct)
  case (1 n)
  have d: "48 \<le> (of_nat (48 + k) :: code_unit) \<and> (of_nat (48 + k) :: code_unit) \<le> 57" if "k < 10" for k
    unfolding word_le_nat_alt digit_unit [OF that] using that by simp
  show ?case
  proof (cases "n < 10")
    case True
    then show ?thesis using 1 d [of n] by (simp add: nat_text.simps [of n])
  next
    case False
    then show ?thesis using 1 d [of "n mod 10"] by (auto simp: nat_text.simps [of n])
  qed
qed

lemma isInteger_nat_text [simp]: "isInteger (nat_text n)"
  using nat_text_digits [of _ n] by (auto simp: isInteger_def)

lemma dec_num_snoc: "dec_num (e @ [c]) = 10 * dec_num e + (uint c - 48)"
  by (simp add: dec_num_def)

lemma dec_num_nat_text [simp]: "dec_num (nat_text n) = int n"
proof (induction n rule: nat_text.induct)
  case (1 n)
  have d: "uint (of_nat (48 + k) :: code_unit) = 48 + int k" if "k < 10" for k
    unfolding uint_nat digit_unit [OF that] by simp
  show ?case
  proof (cases "n < 10")
    case True
    have "nat_text n = [] @ [of_nat (48 + n)]" using True by (simp add: nat_text.simps [of n])
    then show ?thesis using d [OF True] by (simp only: dec_num_snoc) (simp add: dec_num_def)
  next
    case False
    have "nat_text n = nat_text (n div 10) @ [of_nat (48 + n mod 10)]" using False by (simp add: nat_text.simps [of n])
    then have "dec_num (nat_text n) = 10 * int (n div 10) + (48 + int (n mod 10) - 48)"
      using 1 [OF False] d [of "n mod 10"] by (simp add: dec_num_snoc)
    moreover have "int (10 * (n div 10) + n mod 10) = int n" by (rule arg_cong [OF mult_div_mod_eq])
    ultimately show ?thesis by (simp only: of_nat_add of_nat_mult of_nat_numeral)
  qed
qed

lemma array_index_nat_text: "n < 4294967295 \<Longrightarrow> array_index (nat_text n) = Some n"
  by (simp add: array_index_def)

lemma array_index_SomeD: "array_index p = Some i \<Longrightarrow> p = nat_text i"
  by (auto simp: array_index_def split: if_splits)

lemma nat_text_plain: "45 \<notin> set (nat_text n)" "47 \<notin> set (nat_text n)" "126 \<notin> set (nat_text n)"
  using nat_text_digits [of 45 n] nat_text_digits [of 47 n] nat_text_digits [of 126 n] by auto

lemma nat_text_inj: "nat_text i = nat_text j \<longleftrightarrow> i = j"
  by (metis dec_num_nat_text of_nat_eq_iff)

section \<open>Pointers\<close>

definition esc_unit :: "code_unit \<Rightarrow> jsstring" where
  "esc_unit c = (if c = 126 then [126, 48] else if c = 47 then [126, 49] else [c])"

lemma escape_units: "escapePathComponent e = concat (map esc_unit e)"
proof (cases "47 \<notin> set e \<and> 126 \<notin> set e")
  case True
  then have "concat (map esc_unit e) = e" by (induction e) (auto simp: esc_unit_def)
  then show ?thesis using True by (simp add: escapePathComponent_def)
next
  case False
  have "concat (map (\<lambda>c. if c = 47 then [126, 49] else [c]) (concat (map (\<lambda>c. if c = 126 then [126, 48] else [c]) e)))
    = concat (map esc_unit e)" by (induction e) (auto simp: esc_unit_def)
  then show ?thesis using False by (auto simp: escapePathComponent_def)
qed

lemma replace_pair_skip: "x \<noteq> a \<Longrightarrow> replace_pair a b r (x # e) = x # replace_pair a b r e"
  by (cases e) auto

interpretation pointer: unit_escape esc_unit unescapePathComponent
proof
  show "unescapePathComponent [] = []" by (simp add: unescapePathComponent_def)
  show "unescapePathComponent (esc_unit c @ s) = c # unescapePathComponent s" for c s
    by (simp add: unescapePathComponent_def esc_unit_def replace_pair_skip)
qed

lemma pointer_unescape: "unescapePathComponent (escapePathComponent e) = e"
  unfolding escape_units by (rule pointer.scan_escaped)

lemma escape_no_slash: "47 \<notin> set (escapePathComponent e)"
  unfolding escape_units by (induction e) (auto simp: esc_unit_def)

lemma escape_nat_text [simp]: "escapePathComponent (nat_text n) = nat_text n"
  using nat_text_plain [of n] by (simp add: escapePathComponent_def)

lemma resolve_obj: "resolve (JObj m) (escapePathComponent p) = Inr (Name p)"
proof (cases "126 \<in> set (escapePathComponent p)")
  case True
  then show ?thesis by (simp add: resolve_def pointer_unescape)
next
  case False
  then have "47 \<notin> set p \<and> 126 \<notin> set p" unfolding escape_units by (induction p) (auto simp: esc_unit_def split: if_splits)
  then show ?thesis by (simp add: resolve_def escapePathComponent_def)
qed

lemma resolve_arr: "i < 2147483648 \<Longrightarrow> resolve (JArr xs) (nat_text i) = Inr (Index (int i))"
  using nat_text_plain(1) [of i] by (auto simp: resolve_def ToInt32_small lit_def)

section \<open>Operations below a key\<close>

text \<open>\<open>slot d k c\<close>: the value \<open>c\<close> is in \<open>d\<close> under the key \<open>k\<close>.\<close>

definition slot :: "json \<Rightarrow> pkey \<Rightarrow> json \<Rightarrow> bool" where
  "slot d k c \<longleftrightarrow> (case (d, k) of
     (JObj m, Name p) \<Rightarrow> distinct (map fst m) \<and> map_of m p = Some c
   | (JArr xs, Index i) \<Rightarrow> 0 \<le> i \<and> nat i < length xs \<and> xs ! nat i = c
   | _ \<Rightarrow> False)"

lemma obj_put_keys: "p \<in> set (map fst m) \<Longrightarrow> map fst (obj_put m p v) = map fst m"
  by (auto simp: obj_put_def)

lemma map_of_map_upd: "map_of (map (\<lambda>(k, w). (k, if k = p then v else w)) m) =
    (if p \<in> fst ` set m then (map_of m)(p \<mapsto> v) else map_of m)"
  by (induction m) (auto simp: fun_eq_iff)

lemma insert_index_set: "set (insert_index i kv m) = insert kv (set m)"
  by (induction m) (auto split: option.splits)

lemma insert_index_keys: "mset (map fst (insert_index i kv m)) = add_mset (fst kv) (mset (map fst m))"
  by (induction m) (auto split: option.splits)

lemma map_of_insert_index: "fst kv \<notin> fst ` set m \<Longrightarrow> map_of (insert_index i kv m) = (map_of m)(fst kv \<mapsto> snd kv)"
  by (induction m) (auto simp: fun_eq_iff split: option.splits)

lemma map_of_snoc: "p \<notin> fst ` set m \<Longrightarrow> map_of (m @ [(p, v)]) = (map_of m)(p \<mapsto> v)"
  by (induction m) (auto simp: fun_eq_iff)

lemma map_of_obj_put: "map_of (obj_put m p v) = (map_of m)(p \<mapsto> v)"
proof (cases "p \<in> fst ` set m")
  case True
  then show ?thesis by (simp add: obj_put_def map_of_map_upd)
next
  case False
  then show ?thesis using map_of_insert_index [of "(p, v)" m] map_of_snoc [OF False]
    by (simp add: obj_put_def del: map_of_append split: option.splits)
qed

lemma distinct_obj_put: "distinct (map fst m) \<Longrightarrow> distinct (map fst (obj_put m p v))"
proof (cases "p \<in> fst ` set m")
  case True
  assume "distinct (map fst m)"
  then show ?thesis using obj_put_keys [of p m v] True by simp
next
  case False
  assume "distinct (map fst m)"
  then have "mset (map fst (obj_put m p v)) = add_mset p (mset (map fst m))"
    using False insert_index_keys [of _ "(p, v)" m] by (auto simp: obj_put_def split: option.splits)
  then show ?thesis using \<open>distinct (map fst m)\<close> False
    by (metis add_mset_remove_trivial distinct.simps(2) image_set list.set_map mset.simps(2) mset_eq_imp_distinct_iff)
qed

lemma map_of_obj_delete: "map_of (obj_delete m p) = (map_of m)(p := None)"
  unfolding obj_delete_def by (induction m) (auto simp: fun_eq_iff)

lemma distinct_obj_delete: "distinct (map fst m) \<Longrightarrow> distinct (map fst (obj_delete m p))"
  unfolding obj_delete_def by (simp add: distinct_map_filter)

lemma slot_child: "slot d k c \<Longrightarrow> child d k = Inr (Some c)"
  by (auto simp: slot_def child_def member_def split: json.splits pkey.splits)

lemma slot_put: "slot d k c \<Longrightarrow> slot (put_child d k c') k c'"
  by (auto simp: slot_def put_child_def map_of_obj_put distinct_obj_put split: json.splits pkey.splits)

lemma obj_put_put: "obj_put (obj_put m p v) p w = obj_put m p w" if "p \<in> fst ` set m"
  using that obj_put_keys [of p m v] by (auto simp: obj_put_def)

lemma obj_put_same: "distinct (map fst m) \<Longrightarrow> map_of m p = Some v \<Longrightarrow> obj_put m p v = m"
proof -
  assume m: "distinct (map fst m)" "map_of m p = Some v"
  then have "p \<in> set (map fst m)" by (metis image_set list.set_map map_of_eq_None_iff option.distinct(1))
  moreover have "map (\<lambda>(k, w). (k, if k = p then v else w)) m = m" using m
    by (intro map_idI) (auto simp: map_of_eq_Some_iff dest: eq_key_imp_eq_value)
  ultimately show ?thesis by (simp add: obj_put_def)
qed

lemma slot_put_put: "slot d k c \<Longrightarrow> put_child (put_child d k x) k y = put_child d k y"
  by (auto simp: slot_def put_child_def split: json.splits pkey.splits)
    (metis fst_conv image_eqI map_of_SomeD obj_put_put)

lemma slot_put_same: "slot d k c \<Longrightarrow> put_child d k c = d"
  by (auto simp: slot_def put_child_def obj_put_same split: json.splits pkey.splits)

text \<open>The operations that \<open>compare\<close> uses, below a pointer.\<close>

fun op_prefix :: "jsstring \<Rightarrow> operation \<Rightarrow> operation" where
  "op_prefix q (Add path v) = Add (q @ path) v"
| "op_prefix q (Remove path) = Remove (q @ path)"
| "op_prefix q (Replace path v) = Replace (q @ path) v"
| "op_prefix q n = n"

fun edit :: "operation \<Rightarrow> bool" where
  "edit (Add path v) \<longleftrightarrow> path \<noteq> [] \<and> hd path = 47"
| "edit (Remove path) \<longleftrightarrow> path \<noteq> [] \<and> hd path = 47"
| "edit (Replace path v) \<longleftrightarrow> path \<noteq> [] \<and> hd path = 47"
| "edit n \<longleftrightarrow> False"

lemma split_on_not_Nil: "split_on d s \<noteq> []"
  by (induction s) (auto split: list.splits)

lemma at_pointer_step:
  assumes "path \<noteq> []" "hd path = 47" "47 \<notin> set g" "resolve d g = Inr k" "slot d k c"
  shows "map_sum id fst (at_pointer leaf d (47 # g @ path)) = map_sum id (put_child d k) (map_sum id fst (at_pointer leaf c path))"
proof -
  obtain rest where path: "path = 47 # rest" using assms(1,2) by (cases path) auto
  obtain g' gs where gs: "split_on 47 rest = g' # gs" using split_on_not_Nil [of 47 rest] by (cases "split_on 47 rest") auto
  show ?thesis unfolding at_pointer_def path using split_on_sep [OF assms(3), of rest] gs assms(4) slot_child [OF assms(5)]
    by (auto split: sum.splits)
qed

lemma op_below:
  assumes "edit n" "47 \<notin> set g" "resolve d g = Inr k" "slot d k c"
  shows "applyOperation d (op_prefix (47 # g) n) = map_sum id (put_child d k) (applyOperation c n)"
  using assms(1) by (cases n) (simp_all add: applyOperation_def at_pointer_step [OF _ _ assms(2-4)])

lemma patch_below:
  assumes "\<And>c. resolve (put_child d k c) g = Inr k" "47 \<notin> set g"
  shows "list_all edit ns \<Longrightarrow> slot d k c \<Longrightarrow>
    applyPatch d (map (op_prefix (47 # g)) ns) = map_sum id (put_child d k) (applyPatch c ns)"
  using assms(1)
proof (induction ns arbitrary: c d)
  case Nil
  then show ?case by (simp add: slot_put_same)
next
  case (Cons n ns)
  have r: "resolve d g = Inr k" using Cons.prems(3) [of c] Cons.prems(2) by (simp add: slot_put_same)
  show ?case
  proof (cases "applyOperation c n")
    case (Inl err)
    then show ?thesis using op_below [OF _ assms(2) r Cons.prems(2), of n] Cons.prems(1) by simp
  next
    case (Inr c')
    have "applyPatch (put_child d k c') (map (op_prefix (47 # g)) ns) = map_sum id (put_child (put_child d k c') k) (applyPatch c' ns)"
      using Cons.prems slot_put_put [OF Cons.prems(2)] by (intro Cons.IH slot_put [OF Cons.prems(2)]) auto
    moreover have "put_child (put_child d k c') k = put_child d k" using slot_put_put [OF Cons.prems(2)] by blast
    ultimately show ?thesis using op_below [OF _ assms(2) r Cons.prems(2), of n] Cons.prems(1) Inr by (simp add: id_def)
  qed
qed

lemma applyPatch_append: "applyPatch e (ms @ ns) = (case applyPatch e ms of Inl err \<Rightarrow> Inl err | Inr e' \<Rightarrow> applyPatch e' ns)"
  by (induction ms arbitrary: e) (auto split: sum.splits)

section \<open>What \<open>compare\<close> writes\<close>

text \<open>The operations for one old name, and those for the new names.\<close>

definition chunk :: "json \<Rightarrow> json \<Rightarrow> jsstring \<Rightarrow> operation list" where
  "chunk e t p =
     (let path = 47 # escapePathComponent p
      in case member e p of None \<Rightarrow> [] | Some l \<Rightarrow>
           (case member t p of
              None \<Rightarrow> [Remove path]
            | Some c \<Rightarrow> if container l \<and> container c then map (op_prefix path) (generate l c [])
                        else if l \<noteq> c then [Replace path c] else []))"

definition additions :: "json \<Rightarrow> json \<Rightarrow> operation list" where
  "additions e t = concat (map (\<lambda>p. case (member e p, member t p) of
     (None, Some c) \<Rightarrow> [Add (47 # escapePathComponent p) c] | _ \<Rightarrow> []) (objectKeys t))"

lemma op_prefix_prefix: "op_prefix q (op_prefix q' n) = op_prefix (q @ q') n"
  by (cases n) auto

lemma op_prefix_Nil [simp]: "op_prefix [] n = n"
  by (cases n) auto

definition more_names :: "json \<Rightarrow> json \<Rightarrow> bool" where
  "more_names e t \<longleftrightarrow> list_ex (\<lambda>p. member t p = None) (objectKeys e) \<or> length (objectKeys t) \<noteq> length (objectKeys e)"

lemma chunk_prefix:
  assumes "container e" "\<And>l c q. size l < size e \<Longrightarrow> generate l c q = map (op_prefix q) (generate l c [])"
  shows "(let path = o' @ [47] @ escapePathComponent p
     in case member e p of None \<Rightarrow> [] | Some l \<Rightarrow>
          (case member t p of
             None \<Rightarrow> [Remove path]
           | Some c \<Rightarrow> if container l \<and> container c then generate l c path
                       else if l \<noteq> c then [Replace path c] else [])) = map (op_prefix o') (chunk e t p)"
proof (cases "member e p")
  case (Some l)
  have "generate l c q = map (op_prefix q) (generate l c [])" for c q
    using assms(2) member_size [OF assms(1) Some] by blast
  from this [of _ "o' @ [47] @ escapePathComponent p"] show ?thesis
    using Some by (auto simp: chunk_def Let_def op_prefix_prefix split: option.splits)
qed (simp add: chunk_def)

lemma additions_prefix:
  "concat (map (\<lambda>p. case (member e p, member t p) of
      (None, Some c) \<Rightarrow> [Add (o' @ [47] @ escapePathComponent p) c] | _ \<Rightarrow> []) (objectKeys t)) = map (op_prefix o') (additions e t)"
  unfolding additions_def map_concat map_map comp_def
  by (intro arg_cong [of _ _ concat] map_cong refl) (auto split: option.splits)

lemma generate_body:
  assumes "container e" "\<And>l c q. size l < size e \<Longrightarrow> generate l c q = map (op_prefix q) (generate l c [])"
  shows "generate e t o' = map (op_prefix o') (concat (map (chunk e t) (rev (objectKeys e))) @ (if more_names e t then additions e t else []))"
proof -
  let ?f = "\<lambda>p. let path = o' @ [47] @ escapePathComponent p
     in case member e p of None \<Rightarrow> [] | Some l \<Rightarrow>
          (case member t p of
             None \<Rightarrow> [Remove path]
           | Some c \<Rightarrow> if container l \<and> container c then generate l c path
                       else if l \<noteq> c then [Replace path c] else [])"
  have f: "?f = (\<lambda>p. map (op_prefix o') (chunk e t p))" by (rule ext) (rule chunk_prefix [OF assms])
  have "generate e t o' = concat (map ?f (rev (objectKeys e))) @ (if more_names e t then map (op_prefix o') (additions e t) else [])"
    unfolding more_names_def additions_prefix [symmetric] using assms(1) by (subst generate.simps) (simp only: if_True)
  then show ?thesis unfolding f by (simp add: map_concat comp_def)
qed

lemma map_op_prefix_Nil [simp]: "map (op_prefix []) ns = ns"
  by (rule map_idI) simp

lemma generate_prefix: "generate e t o' = map (op_prefix o') (generate e t [])"
proof (induction "size e" arbitrary: e t o' rule: less_induct)
  case less
  show ?case
  proof (cases "container e")
    case True
    have "generate e t q = map (op_prefix q) (concat (map (chunk e t) (rev (objectKeys e))) @ (if more_names e t then additions e t else []))" for q
      by (rule generate_body [OF True]) (rule less)
    from this [of o'] this [of "[]"] show ?thesis by (simp only: map_op_prefix_Nil)
  qed (simp add: generate.simps)
qed

lemma generate_chunks:
  "container e \<Longrightarrow> generate e t [] = concat (map (chunk e t) (rev (objectKeys e))) @ (if more_names e t then additions e t else [])"
  using generate_body [OF _ generate_prefix, of e t "[]"] by (simp only: map_op_prefix_Nil)

lemma edit_prefix: "edit n \<Longrightarrow> edit (op_prefix (47 # q) n)"
  by (cases n) auto

lemma generate_edits: "list_all edit (generate e t [])"
proof (induction "size e" arbitrary: e t rule: less_induct)
  case less
  show ?case
  proof (cases "container e")
    case True
    have "list_all edit (chunk e t p)" for p
    proof (cases "member e p")
      case (Some l)
      have "list_all edit (generate l c [])" for c by (rule less [OF member_size [OF True Some]])
      then show ?thesis using Some edit_prefix by (auto simp: chunk_def Let_def list_all_iff split: option.splits)
    qed (simp add: chunk_def)
    moreover have "list_all edit (additions e t)" by (auto simp: additions_def list_all_iff split: option.splits)
    ultimately show ?thesis unfolding generate_chunks [OF True] by (auto simp: list_all_iff)
  qed (simp add: generate.simps)
qed

section \<open>Documents up to the order of names\<close>

datatype vjson = VPrim json | VArr "vjson list" | VObj "(jsstring, vjson) fmap"

primrec norm :: "json \<Rightarrow> vjson" where
  "norm JNull = VPrim JNull"
| "norm (JBool b) = VPrim (JBool b)"
| "norm (JNum n) = VPrim (JNum n)"
| "norm (JStr s) = VPrim (JStr s)"
| "norm (JArr xs) = VArr (map norm xs)"
| "norm (JObj m) = VObj (fmap_of_list (map (map_prod id norm) m))"

lemma lookup_norm: "map_of (map (map_prod id norm) m) p = map_option norm (map_of m p)"
  by (induction m) auto

lemma norm_obj_eq: "norm (JObj m) = norm (JObj m') \<longleftrightarrow> (\<forall>p. map_option norm (map_of m p) = map_option norm (map_of m' p))"
proof -
  have "norm (JObj m) = norm (JObj m') \<longleftrightarrow> fmlookup (fmap_of_list (map (map_prod id norm) m)) = fmlookup (fmap_of_list (map (map_prod id norm) m'))"
    by (auto intro: fmap_ext)
  then show ?thesis unfolding fmlookup_of_list fun_eq_iff lookup_norm .
qed

text \<open>Well-formed documents, and documents that have arrays and objects in the same places.\<close>

fun json_ok :: "json \<Rightarrow> bool" where
  "json_ok (JArr xs) \<longleftrightarrow> length xs < 2147483648 \<and> list_all json_ok xs"
| "json_ok (JObj m) \<longleftrightarrow> distinct (map fst m) \<and> list_all (\<lambda>kv. json_ok (snd kv)) m"
| "json_ok e \<longleftrightarrow> True"

function same_kinds :: "json \<Rightarrow> json \<Rightarrow> bool" where
  "same_kinds e t \<longleftrightarrow>
     (if container e \<and> container t
      then ((\<exists>xs ys. e = JArr xs \<and> t = JArr ys) \<or> (\<exists>m m'. e = JObj m \<and> t = JObj m'))
        \<and> list_all (\<lambda>p. case member e p of None \<Rightarrow> True | Some l \<Rightarrow>
             (case member t p of None \<Rightarrow> True | Some c \<Rightarrow> same_kinds l c)) (objectKeys e)
      else True)"
  by pat_completeness auto
termination
  by (relation "measure (\<lambda>(e, t). size e)") (auto dest: member_size)

declare same_kinds.simps [simp del]

lemma json_ok_member: "json_ok e \<Longrightarrow> container e \<Longrightarrow> member e p = Some c \<Longrightarrow> json_ok c"
proof (cases e)
  case (JObj m)
  assume "json_ok e" "member e p = Some c"
  then show ?thesis using JObj by (auto simp: member_def list_all_iff dest: map_of_SomeD)
next
  case (JArr xs)
  assume "json_ok e" "member e p = Some c"
  then show ?thesis using JArr by (auto simp: member_def list_all_iff item_at_def split: option.splits if_splits)
qed (auto simp: container_def)

section \<open>One name\<close>

text \<open>What the patch for one old name does, given that patches of the parts are right.\<close>

definition patches :: "json \<Rightarrow> json \<Rightarrow> bool" where
  "patches l c \<longleftrightarrow> (\<exists>l'. applyPatch l (generate l c []) = Inr l' \<and> norm l' = norm c)"

lemma at_pointer_name:
  assumes "47 \<notin> set g" "resolve d g = Inr k"
  shows "at_pointer leaf d (47 # g) = leaf d k"
  using assms split_on_none [of 47 g] by (simp add: at_pointer_def)

lemmas at_escaped = at_pointer_name [OF escape_no_slash]

lemma obj_assign_own: "map_of m p = Some l \<Longrightarrow> obj_assign v m p = Inr (JObj (obj_put m p v), ())"
  using map_of_SomeD [of m p l] by (force simp: obj_assign_def)

lemma obj_chunk:
  assumes md: "distinct (map fst md)" "map_of md p = Some l" and m: "map_of m p = Some l"
    and parts: "\<And>c. map_of m' p = Some c \<Longrightarrow> container l \<and> container c \<Longrightarrow> patches l c"
  shows "\<exists>md'. applyPatch (JObj md) (chunk (JObj m) (JObj m') p) = Inr (JObj md') \<and> distinct (map fst md')
    \<and> map_option norm (map_of md' p) = map_option norm (map_of m' p) \<and> (\<forall>q. q \<noteq> p \<longrightarrow> map_of md' q = map_of md q)"
proof (cases "map_of m' p")
  case None
  then show ?thesis using m md
    by (simp add: chunk_def member_def applyOperation_def at_escaped [OF resolve_obj] remove_leaf_def map_of_obj_delete distinct_obj_delete)
next
  case (Some c)
  consider "container l \<and> container c" | "\<not> (container l \<and> container c)" "l \<noteq> c" | "\<not> (container l \<and> container c)" "l = c" by blast
  then show ?thesis
  proof cases
    case 1
    obtain l' where l': "applyPatch l (generate l c []) = Inr l'" "norm l' = norm c"
      using parts [OF Some 1] by (auto simp: patches_def)
    have "applyPatch (JObj md) (map (op_prefix (47 # escapePathComponent p)) (generate l c []))
        = map_sum id (put_child (JObj md) (Name p)) (applyPatch l (generate l c []))"
      using md by (intro patch_below generate_edits escape_no_slash) (auto simp: put_child_def resolve_obj slot_def)
    then have "applyPatch (JObj md) (chunk (JObj m) (JObj m') p) = Inr (JObj (obj_put md p l'))"
      using 1 Some m l'(1) by (simp add: chunk_def member_def put_child_def)
    then show ?thesis using md Some l'(2) by (simp add: map_of_obj_put distinct_obj_put)
  next
    case 2
    then show ?thesis using m md Some
      by (auto simp: chunk_def member_def applyOperation_def at_escaped [OF resolve_obj] replace_leaf_def obj_assign_own map_of_obj_put distinct_obj_put)
  next
    case 3
    then show ?thesis using m md Some by (auto simp: chunk_def member_def)
  qed
qed

lemma obj_chunks:
  assumes parts: "\<And>p l c. map_of m p = Some l \<Longrightarrow> map_of m' p = Some c \<Longrightarrow> container l \<and> container c \<Longrightarrow> patches l c"
  shows "distinct ps \<Longrightarrow> distinct (map fst md) \<Longrightarrow> \<forall>p \<in> set ps. p \<in> dom (map_of m) \<and> map_of md p = map_of m p \<Longrightarrow>
    \<exists>md'. applyPatch (JObj md) (concat (map (chunk (JObj m) (JObj m')) ps)) = Inr (JObj md') \<and> distinct (map fst md')
      \<and> (\<forall>p \<in> set ps. map_option norm (map_of md' p) = map_option norm (map_of m' p)) \<and> (\<forall>q. q \<notin> set ps \<longrightarrow> map_of md' q = map_of md q)"
proof (induction ps arbitrary: md)
  case (Cons p ps)
  obtain l where l: "map_of m p = Some l" "map_of md p = Some l" using Cons.prems(3) by auto
  obtain md1 where 1: "applyPatch (JObj md) (chunk (JObj m) (JObj m') p) = Inr (JObj md1)" "distinct (map fst md1)"
    "map_option norm (map_of md1 p) = map_option norm (map_of m' p)" "\<forall>q. q \<noteq> p \<longrightarrow> map_of md1 q = map_of md q"
    using obj_chunk [OF Cons.prems(2) l(2,1)] parts [OF l(1)] by blast
  obtain md2 where 2: "applyPatch (JObj md1) (concat (map (chunk (JObj m) (JObj m')) ps)) = Inr (JObj md2)" "distinct (map fst md2)"
    "\<forall>p \<in> set ps. map_option norm (map_of md2 p) = map_option norm (map_of m' p)" "\<forall>q. q \<notin> set ps \<longrightarrow> map_of md2 q = map_of md1 q"
  proof -
    have "\<forall>q \<in> set ps. q \<in> dom (map_of m) \<and> map_of md1 q = map_of m q"
    proof
      fix q assume "q \<in> set ps"
      then show "q \<in> dom (map_of m) \<and> map_of md1 q = map_of m q" using 1(4) Cons.prems(1,3) by (metis distinct.simps(2) list.set_intros(2))
    qed
    then show ?thesis using Cons.IH [OF _ 1(2)] Cons.prems(1) that by auto
  qed
  have "map_of md2 p = map_of md1 p" using 2(4) Cons.prems(1) by simp
  then show ?case using 1 2 by (intro exI [of _ md2]) (simp add: applyPatch_append)
qed auto

lemma obj_additions:
  assumes "distinct (map fst m')"
    and "lit ''__proto__'' \<notin> dom (map_of m')"
  shows "distinct (map fst md) \<Longrightarrow> set ps \<subseteq> dom (map_of m') \<Longrightarrow>
    \<exists>md'. applyPatch (JObj md) (concat (map (\<lambda>p. case (member (JObj m) p, member (JObj m') p) of
        (None, Some c) \<Rightarrow> [Add (47 # escapePathComponent p) c] | _ \<Rightarrow> []) ps)) = Inr (JObj md') \<and> distinct (map fst md')
      \<and> (\<forall>q. map_of md' q = (if q \<in> set ps \<and> map_of m q = None then map_of m' q else map_of md q))"
proof (induction ps arbitrary: md)
  case (Cons p ps)
  obtain c where c: "map_of m' p = Some c" using Cons.prems(2) by auto
  show ?case
  proof (cases "map_of m p")
    case None
    let ?md = "obj_put md p c"
    have a: "applyOperation (JObj md) (Add (47 # escapePathComponent p) c) = Inr (JObj ?md)"
      using c assms(2) by (auto simp: applyOperation_def at_escaped [OF resolve_obj] add_leaf_def obj_assign_def)
    have "distinct (map fst ?md)" "set ps \<subseteq> dom (map_of m')" using Cons.prems distinct_obj_put by auto
    then show ?thesis using Cons.IH [of ?md] a None c by (fastforce simp: member_def map_of_obj_put)
  next
    case (Some x)
    have "set ps \<subseteq> dom (map_of m')" using Cons.prems(2) by simp
    then show ?thesis using Cons.IH [OF Cons.prems(1)] Some by (auto simp: member_def)
  qed
qed auto

lemma obj_patches:
  assumes ok: "distinct (map fst m)" "distinct (map fst m')" and proto: "lit ''__proto__'' \<notin> set (map fst m')"
    and parts: "\<And>p l c. map_of m p = Some l \<Longrightarrow> map_of m' p = Some c \<Longrightarrow> container l \<and> container c \<Longrightarrow> patches l c"
  shows "patches (JObj m) (JObj m')"
proof -
  have keys: "p \<in> set (map fst m) \<longleftrightarrow> p \<in> dom (map_of m)" "p \<in> set (map fst m') \<longleftrightarrow> p \<in> dom (map_of m')" for p
    by (simp_all add: dom_map_of_conv_image_fst)
  obtain md where md: "applyPatch (JObj m) (concat (map (chunk (JObj m) (JObj m')) (rev (map fst m)))) = Inr (JObj md)" "distinct (map fst md)"
    "\<forall>p \<in> dom (map_of m). map_option norm (map_of md p) = map_option norm (map_of m' p)"
    "\<forall>q. q \<notin> dom (map_of m) \<longrightarrow> map_of md q = map_of m q"
  proof -
    have S: "set (rev (map fst m)) = dom (map_of m)" using keys(1) by auto
    have "\<exists>md. applyPatch (JObj m) (concat (map (chunk (JObj m) (JObj m')) (rev (map fst m)))) = Inr (JObj md) \<and> distinct (map fst md)
      \<and> (\<forall>p \<in> set (rev (map fst m)). map_option norm (map_of md p) = map_option norm (map_of m' p))
      \<and> (\<forall>q. q \<notin> set (rev (map fst m)) \<longrightarrow> map_of md q = map_of m q)"
    proof (rule obj_chunks)
      show "patches l c" if "map_of m p = Some l" "map_of m' p = Some c" "container l \<and> container c" for p l c
        using that by (rule parts)
    qed (use ok(1) S in auto)
    then show ?thesis using that unfolding S by blast
  qed
  show ?thesis
  proof (cases "more_names (JObj m) (JObj m')")
    case True
    obtain md' where md': "applyPatch (JObj md) (additions (JObj m) (JObj m')) = Inr (JObj md')"
      "\<forall>q. map_of md' q = (if q \<in> set (map fst m') \<and> map_of m q = None then map_of m' q else map_of md q)"
    proof -
      have "set (map fst m') \<subseteq> dom (map_of m')" using keys(2) by blast
      moreover have "objectKeys (JObj m') = map fst m'" by (simp add: objectKeys_def)
      ultimately show ?thesis using obj_additions [OF ok(2) _ md(2), of "map fst m'" m] proto keys(2) that unfolding additions_def by (simp only:) blast
    qed
    have "map_option norm (map_of md' q) = map_option norm (map_of m' q)" for q
      using md'(2) md(3,4) keys by (cases "map_of m q"; cases "map_of m' q") (auto simp: domIff)
    then have "norm (JObj md') = norm (JObj m')" unfolding norm_obj_eq by blast
    then show ?thesis using md(1) md'(1) True
      by (auto simp: patches_def generate_chunks container_def objectKeys_def applyPatch_append simp del: norm.simps)
  next
    case False
    then have sub: "set (map fst m) \<subseteq> set (map fst m')" "length m' = length m"
      using keys(2) by (fastforce simp: more_names_def objectKeys_def list_ex_iff member_def)+
    have "set (map fst m) = set (map fst m')" 
      using sub distinct_card [OF ok(1)] distinct_card [OF ok(2)] by (intro card_subset_eq) simp_all
    then have dom: "dom (map_of m) = dom (map_of m')" by (simp add: dom_map_of_conv_image_fst)
    have "map_option norm (map_of md q) = map_option norm (map_of m' q)" for q
    proof (cases "q \<in> dom (map_of m)")
      case False
      then have "map_of md q = None" "map_of m' q = None" using md(4) dom by (auto simp: domIff)
      then show ?thesis by simp
    qed (use md(3) in blast)
    then have "norm (JObj md) = norm (JObj m')" unfolding norm_obj_eq by blast
    then show ?thesis using md(1) False
      by (auto simp: patches_def generate_chunks container_def objectKeys_def simp del: norm.simps)
  qed
qed

section \<open>Arrays\<close>

lemma member_arr: "i < 2147483648 \<Longrightarrow> member (JArr xs) (nat_text i) = item_at xs i"
  by (simp add: member_def array_index_nat_text)

lemma at_index: "i < 2147483648 \<Longrightarrow> at_pointer leaf (JArr xs) (47 # nat_text i) = leaf (JArr xs) (Index (int i))"
  by (rule at_pointer_name [OF nat_text_plain(2) resolve_arr])

text \<open>The patch for the index \<open>length as\<close>, with the indices behind it done: the element is changed, or removed if it is beyond the new end.\<close>

lemma arr_chunk:
  assumes n: "length xs < 2147483648" and i: "length as < length xs" "xs ! length as = x"
    and parts: "\<And>c. item_at ys (length as) = Some c \<Longrightarrow> container x \<and> container c \<Longrightarrow> patches x c"
  shows "\<exists>zs. applyPatch (JArr (as @ x # rest)) (chunk (JArr xs) (JArr ys) (nat_text (length as))) = Inr (JArr (as @ zs @ rest))
    \<and> map norm zs = map norm (take 1 (drop (length as) ys))"
proof -
  let ?i = "length as"
  have small: "?i < 2147483648" using n i(1) by simp
  have x: "member (JArr xs) (nat_text ?i) = Some x" using i by (simp add: member_arr [OF small])
  show ?thesis
  proof (cases "item_at ys ?i")
    case None
    then have "length ys \<le> ?i" by (auto simp: item_at_def split: if_splits)
    then show ?thesis using x None
      by (auto simp: chunk_def member_arr [OF small] applyOperation_def at_index [OF small] remove_leaf_def arr_remove_def splice_index_def Let_def min_def)
  next
    case (Some c)
    then have c: "?i < length ys" "ys ! ?i = c" by (auto simp: item_at_def split: if_splits)
    then have one: "take 1 (drop ?i ys) = [c]" by (simp add: take_Suc hd_drop_conv_nth)
    consider "container x \<and> container c" | "\<not> (container x \<and> container c)" "x \<noteq> c" | "\<not> (container x \<and> container c)" "x = c" by blast
    then show ?thesis
    proof cases
      case 1
      obtain x' where x': "applyPatch x (generate x c []) = Inr x'" "norm x' = norm c"
        using parts [OF Some 1] by (auto simp: patches_def)
      have "applyPatch (JArr (as @ x # rest)) (map (op_prefix (47 # nat_text ?i)) (generate x c []))
          = map_sum id (put_child (JArr (as @ x # rest)) (Index (int ?i))) (applyPatch x (generate x c []))"
        by (intro patch_below generate_edits nat_text_plain(2)) (auto simp: put_child_def resolve_arr [OF small] slot_def)
      then have "applyPatch (JArr (as @ x # rest)) (chunk (JArr xs) (JArr ys) (nat_text ?i)) = Inr (JArr (as @ [x'] @ rest))"
        using 1 x Some x'(1) by (simp add: chunk_def member_arr [OF small] put_child_def)
      then show ?thesis using x'(2) unfolding one by (intro exI [of _ "[x']"]) simp
    next
      case 2
      then show ?thesis using x Some unfolding one
        by (intro exI [of _ "[c]"]) (auto simp: chunk_def Let_def member_arr [OF small] applyOperation_def at_index [OF small] replace_leaf_def arr_replace_def)
    next
      case 3
      then show ?thesis using x Some unfolding one by (intro exI [of _ "[c]"]) (auto simp: chunk_def Let_def member_arr [OF small])
    qed
  qed
qed

lemma arr_chunks:
  assumes n: "length xs < 2147483648"
    and parts: "\<And>i c. i < length xs \<Longrightarrow> item_at ys i = Some c \<Longrightarrow> container (xs ! i) \<and> container c \<Longrightarrow> patches (xs ! i) c"
  shows "j \<le> length xs \<Longrightarrow> \<exists>zs. applyPatch (JArr (take j xs @ rest)) (concat (map (chunk (JArr xs) (JArr ys)) (rev (map nat_text [0..<j])))) = Inr (JArr (zs @ rest))
    \<and> map norm zs = map norm (take j ys)"
proof (induction j arbitrary: rest)
  case (Suc j)
  have t: "take (Suc j) xs @ rest = take j xs @ xs ! j # rest" using Suc.prems by (simp add: take_Suc_conv_app_nth)
  have len: "length (take j xs) = j" using Suc.prems by simp
  obtain zs where zs: "applyPatch (JArr (take (Suc j) xs @ rest)) (chunk (JArr xs) (JArr ys) (nat_text j)) = Inr (JArr (take j xs @ zs @ rest))"
    "map norm zs = map norm (take 1 (drop j ys))"
    using arr_chunk [OF n, of "take j xs" "xs ! j" ys rest] parts [of j] Suc.prems unfolding len t by auto
  obtain zs' where zs': "applyPatch (JArr (take j xs @ zs @ rest)) (concat (map (chunk (JArr xs) (JArr ys)) (rev (map nat_text [0..<j])))) = Inr (JArr (zs' @ zs @ rest))"
    "map norm zs' = map norm (take j ys)"
    using Suc.IH [of "zs @ rest"] Suc.prems by auto
  have "take (Suc j) ys = take j ys @ take 1 (drop j ys)" using take_add [of j 1 ys] by simp
  then have "map norm (zs' @ zs) = map norm (take (Suc j) ys)" using zs(2) zs'(2) by simp
  then show ?case using zs(1) zs'(1) by (intro exI [of _ "zs' @ zs"]) (simp add: applyPatch_append)
qed simp

lemma arr_additions:
  assumes "length ys < 2147483648" "length xs \<le> length ys"
  shows "j \<le> length ys \<Longrightarrow> length zs = length xs \<Longrightarrow>
    applyPatch (JArr zs) (concat (map (\<lambda>p. case (member (JArr xs) p, member (JArr ys) p) of
        (None, Some c) \<Rightarrow> [Add (47 # escapePathComponent p) c] | _ \<Rightarrow> []) (map nat_text [0..<j])))
    = Inr (JArr (zs @ drop (length xs) (take j ys)))"
proof (induction j)
  case (Suc j)
  have small: "j < 2147483648" using Suc.prems(1) assms(1) by simp
  show ?case
  proof (cases "j < length xs")
    case True
    then show ?thesis using Suc by (simp add: applyPatch_append member_arr [OF small])
  next
    case False
    have s: "splice_index (length zs + (j - length xs)) (int j) = j" using False Suc.prems(2) by (simp add: splice_index_def)
    have l: "length (drop (length xs) (take j ys)) = j - length xs" using Suc.prems(1) by simp
    have "take (Suc j) ys = take j ys @ [ys ! j]" using Suc.prems(1) by (simp add: take_Suc_conv_app_nth)
    then have "drop (length xs) (take (Suc j) ys) = drop (length xs) (take j ys) @ [ys ! j]"
      using False Suc.prems(1) by simp
    then show ?thesis using Suc False s l
      by (simp add: applyPatch_append member_arr [OF small] applyOperation_def at_index [OF small] add_leaf_def arr_add_def Let_def)
  qed
qed simp

lemma arr_patches:
  assumes n: "length xs < 2147483648" "length ys < 2147483648"
    and parts: "\<And>i c. i < length xs \<Longrightarrow> item_at ys i = Some c \<Longrightarrow> container (xs ! i) \<and> container c \<Longrightarrow> patches (xs ! i) c"
  shows "patches (JArr xs) (JArr ys)"
proof -
  let ?chunks = "concat (map (chunk (JArr xs) (JArr ys)) (rev (map nat_text [0..<length xs])))"
  have "\<exists>zs. applyPatch (JArr (take (length xs) xs @ [])) ?chunks = Inr (JArr (zs @ [])) \<and> map norm zs = map norm (take (length xs) ys)"
    by (rule arr_chunks [OF n(1)]) (use parts in auto)
  then obtain zs where zs: "applyPatch (JArr xs) ?chunks = Inr (JArr zs)" "map norm zs = map norm (take (length xs) ys)" by auto
  have len: "length zs = min (length xs) (length ys)" using arg_cong [OF zs(2), of length] by (simp add: min.commute)
  have body: "generate (JArr xs) (JArr ys) [] = ?chunks @ (if more_names (JArr xs) (JArr ys) then additions (JArr xs) (JArr ys) else [])"
    by (simp add: generate_chunks container_def objectKeys_def)
  consider "length xs < length ys" | "length ys \<le> length xs" by linarith
  then show ?thesis
  proof cases
    case 1
    have "applyPatch (JArr zs) (additions (JArr xs) (JArr ys)) = Inr (JArr (zs @ drop (length xs) (take (length ys) ys)))"
      using arr_additions [OF n(2), of xs "length ys" zs] 1 len by (simp add: additions_def objectKeys_def)
    moreover have "more_names (JArr xs) (JArr ys)" using 1 by (simp add: more_names_def objectKeys_def)
    moreover have "map norm (zs @ drop (length xs) ys) = map norm ys" using zs(2) by (metis append_take_drop_id map_append)
    ultimately show ?thesis using zs(1) by (simp add: patches_def body applyPatch_append)
  next
    case 2
    have "additions (JArr xs) (JArr ys) = []" using 2 n
      by (auto simp: additions_def objectKeys_def member_arr split: option.splits)
    then show ?thesis using zs 2 by (simp add: patches_def body)
  qed
qed

section \<open>Whole documents\<close>

text \<open>Documents without a property named \<open>__proto__\<close>.\<close>

fun no_proto :: "json \<Rightarrow> bool" where
  "no_proto (JArr xs) \<longleftrightarrow> list_all no_proto xs"
| "no_proto (JObj m) \<longleftrightarrow> lit ''__proto__'' \<notin> set (map fst m) \<and> list_all (\<lambda>kv. no_proto (snd kv)) m"
| "no_proto e \<longleftrightarrow> True"

lemma no_proto_part: "no_proto e \<Longrightarrow> container e \<Longrightarrow> member e p = Some c \<Longrightarrow> no_proto c"
  by (cases e) (force simp: container_def member_def list_all_iff item_at_def dest: map_of_SomeD split: option.splits if_splits)+

lemma generate_patches: "json_ok e \<Longrightarrow> json_ok t \<Longrightarrow> same_kinds e t \<Longrightarrow> container e \<and> container t \<Longrightarrow> no_proto t \<Longrightarrow> patches e t"
proof (induction "size e" arbitrary: e t rule: less_induct)
  case less
  have kinds: "(\<exists>xs ys. e = JArr xs \<and> t = JArr ys) \<or> (\<exists>m m'. e = JObj m \<and> t = JObj m')"
    and parts: "\<And>p l c. p \<in> set (objectKeys e) \<Longrightarrow> member e p = Some l \<Longrightarrow> member t p = Some c \<Longrightarrow> same_kinds l c"
    using less.prems(3,4) unfolding same_kinds.simps [of e t] by (auto simp: list_all_iff)
  have part: "patches l c" if "p \<in> set (objectKeys e)" "member e p = Some l" "member t p = Some c" "container l \<and> container c" for p l c
    using less.hyps [OF member_size [of e p l]] less.prems json_ok_member [of e p l] json_ok_member [of t p c] no_proto_part [of t p c] parts [of p l c] that by blast
  from kinds show ?case
  proof (elim disjE exE conjE)
    fix xs ys
    assume et: "e = JArr xs" "t = JArr ys"
    have n: "length xs < 2147483648" "length ys < 2147483648" using less.prems et by simp_all
    show ?thesis unfolding et
    proof (rule arr_patches [OF n])
      fix i c
      assume "i < length xs" "item_at ys i = Some c" "container (xs ! i) \<and> container c"
      then show "patches (xs ! i) c" using part [of "nat_text i" "xs ! i" c] n et by (simp add: objectKeys_def member_arr)
    qed
  next
    fix m m'
    assume et: "e = JObj m" "t = JObj m'"
    show ?thesis unfolding et
    proof (rule obj_patches)
      fix p l c
      assume "map_of m p = Some l" "map_of m' p = Some c" "container l \<and> container c"
      then show "patches l c" using part [of p l c] et by (simp add: objectKeys_def member_def image_iff) (metis fst_conv map_of_SomeD)
    qed (use less.prems et in simp_all)
  qed
qed

text \<open>Documents without a property named \<open>prototype\<close>.\<close>

fun no_prototype :: "json \<Rightarrow> bool" where
  "no_prototype (JArr xs) \<longleftrightarrow> list_all no_prototype xs"
| "no_prototype (JObj m) \<longleftrightarrow> lit ''prototype'' \<notin> set (map fst m) \<and> list_all (\<lambda>kv. no_prototype (snd kv)) m"
| "no_prototype e \<longleftrightarrow> True"

lemma prototype_no_index: "array_index (lit ''prototype'') = None"
  by (simp add: array_index_def isInteger_def lit_def)

lemma no_prototype_member: "no_prototype e \<Longrightarrow> container e \<Longrightarrow> member e (lit ''prototype'') = None"
proof (cases e)
  case (JArr xs)
  then show ?thesis using prototype_no_index by (simp add: member_def) (simp add: lit_def)
qed (auto simp: container_def member_def map_of_eq_None_iff)

lemma no_prototype_part: "no_prototype e \<Longrightarrow> container e \<Longrightarrow> member e p = Some c \<Longrightarrow> no_prototype c"
  by (cases e) (force simp: container_def member_def list_all_iff item_at_def dest: map_of_SomeD split: option.splits if_splits)+

lemma norm_container: "norm e = norm t \<Longrightarrow> container e = container t"
  by (cases e; cases t) (auto simp: container_def)

lemma norm_primitive: "norm e = norm t \<Longrightarrow> \<not> container e \<Longrightarrow> e = t"
  by (cases e; cases t) (auto simp: container_def)

lemma norm_names:
  assumes "norm e = norm t" "json_ok e" "json_ok t" "container e"
  shows "mset (objectKeys e) = mset (objectKeys t)"
    and "p \<in> set (objectKeys e) \<Longrightarrow> \<exists>x y. member e p = Some x \<and> member t p = Some y \<and> norm x = norm y"
proof -
  consider (arr) xs ys where "e = JArr xs" "t = JArr ys" | (obj) m m' where "e = JObj m" "t = JObj m'"
    using assms(1,4) by (cases e; cases t) (auto simp: container_def)
  then have "mset (objectKeys e) = mset (objectKeys t)
    \<and> (p \<in> set (objectKeys e) \<longrightarrow> (\<exists>x y. member e p = Some x \<and> member t p = Some y \<and> norm x = norm y))"
  proof cases
    case arr
    then have m: "map norm xs = map norm ys" using assms(1) by simp
    then have len: "length xs = length ys" by (rule map_eq_imp_length_eq)
    have "norm (xs ! i) = norm (ys ! i)" if "i < length xs" for i using m that len by (metis nth_map)
    then show ?thesis using arr len assms(2) by (auto simp: objectKeys_def member_arr)
  next
    case obj
    have eq: "map_option norm (map_of m q) = map_option norm (map_of m' q)" for q
      using assms(1) unfolding obj norm_obj_eq by blast
    have "map_of m q = None \<longleftrightarrow> map_of m' q = None" for q using arg_cong [OF eq [of q], of "\<lambda>x. x = None"] by simp
    then have dom: "dom (map_of m) = dom (map_of m')" by (simp add: dom_def)
    then have "set (map fst m) = set (map fst m')" by (simp add: dom_map_of_conv_image_fst)
    then have "mset (map fst m) = mset (map fst m')" 
      using assms(2,3) set_eq_iff_mset_eq_distinct [of "map fst m" "map fst m'"] unfolding obj json_ok.simps by blast
    moreover have "\<exists>x y. map_of m p = Some x \<and> map_of m' p = Some y \<and> norm x = norm y" if p: "p \<in> set (map fst m)"
    proof -
      obtain x where "map_of m p = Some x" using p by (cases "map_of m p") (auto simp: map_of_eq_None_iff)
      then show ?thesis using eq [of p] by (cases "map_of m' p") auto
    qed
    ultimately show ?thesis using obj by (simp add: objectKeys_def member_def)
  qed
  then show "mset (objectKeys e) = mset (objectKeys t)"
    "p \<in> set (objectKeys e) \<Longrightarrow> \<exists>x y. member e p = Some x \<and> member t p = Some y \<and> norm x = norm y" by blast+
qed

lemma deepEqual_norm: "norm e = norm t \<Longrightarrow> json_ok e \<Longrightarrow> json_ok t \<Longrightarrow> no_prototype e \<Longrightarrow> no_prototype t \<Longrightarrow> deepEqual e t"
proof (induction "size e" arbitrary: e t rule: less_induct)
  case less
  show ?case
  proof (cases "container e")
    case True
    then have t: "container t" using norm_container [OF less.prems(1)] by blast
    have "case member e p of None \<Rightarrow> False | Some x \<Rightarrow> (case member t p of None \<Rightarrow> False | Some y \<Rightarrow> deepEqual x y)" if p: "p \<in> set (objectKeys e)" for p
    proof -
      obtain x y where xy: "member e p = Some x" "member t p = Some y" "norm x = norm y"
        using norm_names(2) [OF less.prems(1-3) True p] by blast
      have "deepEqual x y"
        by (rule less.hyps [OF member_size [OF True xy(1)] xy(3) json_ok_member [OF less.prems(2) True xy(1)]
              json_ok_member [OF less.prems(3) t xy(2)] no_prototype_part [OF less.prems(4) True xy(1)] no_prototype_part [OF less.prems(5) t xy(2)]])
      then show ?thesis using xy(1,2) by simp
    qed
    then have all: "list_all (\<lambda>c. case member e c of None \<Rightarrow> False | Some x \<Rightarrow>
        (case member t c of None \<Rightarrow> False | Some y \<Rightarrow> deepEqual x y)) (objectKeys e)"
      unfolding list_all_iff by (rule ballI)
    have "same_primitive (member e (lit ''prototype'')) (member t (lit ''prototype''))"
      using True t less.prems(4,5) by (simp add: same_primitive_def no_prototype_member)
    then have "same_primitive (member e (lit ''prototype'')) (member t (lit ''prototype'')) \<and> mset (objectKeys e) = mset (objectKeys t)
      \<and> list_all (\<lambda>c. case member e c of None \<Rightarrow> False | Some x \<Rightarrow>
          (case member t c of None \<Rightarrow> False | Some y \<Rightarrow> deepEqual x y)) (objectKeys e)"
      using norm_names(1) [OF less.prems(1-3) True] all by (intro conjI)
    then show ?thesis using True t by (subst deepEqual.simps) (simp only: if_True simp_thms)
  next
    case False
    then have "e = t" using norm_primitive less.prems(1) by blast
    then show ?thesis using False deepEqual.simps [of e t] by (simp only: simp_thms if_False)
  qed
qed

text \<open>The test of a document that differs in the order of names passes.\<close>

lemma test_up_to_order:
  "norm e = norm t \<Longrightarrow> json_ok e \<Longrightarrow> json_ok t \<Longrightarrow> no_prototype e \<Longrightarrow> no_prototype t \<Longrightarrow> applyPatch e [Test [] t] = Inr e"
  by (simp add: applyOperation_def deepEqual_norm)

section \<open>Properties\<close>

text \<open>
  C6: the operations that \<open>compare\<close> finds between two documents turn the first into the second, up to the order of
  names, if the documents do not have an array where the other has an object and the second document has no
  property named \<open>__proto__\<close>. Pointers are escaped and
  resolved, indices are removed from the end and added in order.\<close>

theorem compare_apply:
  assumes "json_ok e" "json_ok t" "same_kinds e t" "container e" "container t" "no_proto t"
  shows "\<exists>e'. applyPatch e (compare e t) = Inr e' \<and> norm e' = norm t"
  using generate_patches [of e t] assms by (simp add: patches_def compare_def)

theorem compare_apply_witness:
  "\<exists>e'. applyPatch (JObj [(lit ''a/b'', JArr [JNum 1, JNum 2])]) (compare (JObj [(lit ''a/b'', JArr [JNum 1, JNum 2])])
       (JObj [(lit ''c'', JNull), (lit ''a/b'', JArr [JNum 2])])) = Inr e'
     \<and> norm e' = norm (JObj [(lit ''c'', JNull), (lit ''a/b'', JArr [JNum 2])])"
proof (rule compare_apply)
  have "same_kinds (JArr [JNum 1, JNum 2]) (JArr [JNum 2])"
    by (subst same_kinds.simps) (auto simp: container_def list_all_iff same_kinds.simps [of "JNum _"] split: option.splits,
        auto simp: member_def item_at_def objectKeys_def same_kinds.simps [of "JNum _"] container_def split: option.splits if_splits)
  then show "same_kinds (JObj [(lit ''a/b'', JArr [JNum 1, JNum 2])]) (JObj [(lit ''c'', JNull), (lit ''a/b'', JArr [JNum 2])])"
    by (subst same_kinds.simps) (simp add: container_def objectKeys_def member_def lit_def)
qed (simp_all add: container_def lit_def)



end
