(* ===== verification/Query_String.thy ===== *)
theory Query_String
  imports Uri_Codec Json_Patch
begin

text \<open>
  Query strings: the modules \<open>querystring-es3\<close>, which the URL parser uses, and \<open>querystring-browser\<close>, which the API client uses. The first
  parser splits the string at its separators, the second scans it once and decodes only what it has seen to be encoded.
  Objects are association lists in the order of JavaScript (\<open>obj_put\<close>), the separators are the default ones.
\<close>

section \<open>Turning objects into strings\<close>

definition int_text :: "int \<Rightarrow> jsstring" where
  "int_text n = (if n < 0 then 45 # nat_text (nat (- n)) else nat_text (nat n))"

text \<open>The text of a primitive value, \<open>r\<close> and \<open>s\<close> of the two modules; arrays and objects have none.\<close>

definition primitive_text :: "json \<Rightarrow> jsstring" where
  "primitive_text e = (case e of JStr s \<Rightarrow> s | JBool b \<Rightarrow> lit (if b then ''true'' else ''false'') | JNum n \<Rightarrow> int_text n | _ \<Rightarrow> [])"

text \<open>Results one after the other; the first error ends the evaluation.\<close>

fun all_results :: "'a result list \<Rightarrow> 'a list result" where
  "all_results [] = Inr []"
| "all_results (r # rs) = (case r of Inl e \<Rightarrow> Inl e | Inr x \<Rightarrow> map_sum id ((#) x) (all_results rs))"

text \<open>\<open>k = v\<close>, both encoded by \<open>enc\<close>, and the fields that one property gives: one for each item of an array.\<close>

definition field :: "(jsstring \<Rightarrow> jsstring result) \<Rightarrow> jsstring \<Rightarrow> json \<Rightarrow> jsstring result" where
  "field enc k v =
     (case enc k of Inl e \<Rightarrow> Inl e
      | Inr u \<Rightarrow> (case enc (primitive_text v) of Inl e \<Rightarrow> Inl e | Inr w \<Rightarrow> Inr (u @ 61 # w)))"

definition prop_fields :: "(jsstring \<Rightarrow> jsstring result) \<Rightarrow> jsstring \<Rightarrow> json \<Rightarrow> jsstring list result" where
  "prop_fields enc k v =
     (case enc k of Inl e \<Rightarrow> Inl e
      | Inr u \<Rightarrow> (case v of JArr xs \<Rightarrow> all_results (map (field enc k) xs) | _ \<Rightarrow> all_results [field enc k v]))"

text \<open>\<open>querystring-es3\<close>; \<open>name\<close> is the fourth argument, which names a primitive value.\<close>

definition es3_stringify :: "json \<Rightarrow> jsstring \<Rightarrow> jsstring result" where
  "es3_stringify e name =
     (if container e
      then map_sum id (\<lambda>gs. join_with 38 (map (join_with 38) gs))
             (all_results (map (\<lambda>k. prop_fields encodeURIComponent k (the (member e k))) (objectKeys e)))
      else if name = [] then Inr [] else field encodeURIComponent name e)"

text \<open>\<open>querystring-browser\<close>: a separator follows each field but the last, and each property that has fields but the last.\<close>

fun separated :: "jsstring list list \<Rightarrow> jsstring" where
  "separated [] = []"
| "separated [g] = join_with 38 g"
| "separated (g # gs) = join_with 38 g @ (if g = [] then [] else [38]) @ separated gs"

definition browser_stringify :: "json \<Rightarrow> jsstring result" where
  "browser_stringify e =
     (if container e
      then map_sum id separated (all_results (map (\<lambda>k. prop_fields escape k (the (member e k))) (objectKeys e)))
      else Inr [])"

section \<open>Parsing by splitting\<close>

text \<open>\<open>a[p] = v\<close> for a string \<open>v\<close>: the name \<open>__proto__\<close> is not an own property, and ignores it.\<close>

definition own_put :: "(jsstring \<times> json) list \<Rightarrow> jsstring \<Rightarrow> jsstring \<Rightarrow> (jsstring \<times> json) list" where
  "own_put a p v = (if p = lit ''__proto__'' then a else obj_put a p (JStr v))"

text \<open>A further value of a name.\<close>

definition append_value :: "(jsstring \<times> json) list \<Rightarrow> jsstring \<Rightarrow> jsstring \<Rightarrow> (jsstring \<times> json) list" where
  "append_value a p v =
     (case map_of a p of
        Some (JArr xs) \<Rightarrow> obj_put a p (JArr (xs @ [JStr v]))
      | Some w \<Rightarrow> obj_put a p (JArr [w, JStr v])
      | None \<Rightarrow> a)"

definition split_field :: "jsstring \<Rightarrow> jsstring \<times> jsstring" where
  "split_field v = (case index_of 61 v of Some m \<Rightarrow> (take m v, drop (m + 1) v) | None \<Rightarrow> (v, []))"

fun es3_fields :: "(jsstring \<times> json) list \<Rightarrow> jsstring list \<Rightarrow> (jsstring \<times> json) list result" where
  "es3_fields a [] = Inr a"
| "es3_fields a (c # cs) =
     (let (f, p) = split_field (plus_to (lit ''%20'') c)
      in case (decodeURIComponent f, decodeURIComponent p) of
           (Some d, Some h) \<Rightarrow> es3_fields (if d \<in> fst ` set a then append_value a d h else own_put a d h) cs
         | _ \<Rightarrow> Inl (GenericError ''URI malformed''))"

definition max_keys :: "int option \<Rightarrow> int" where
  "max_keys m = (case m of None \<Rightarrow> 1000 | Some k \<Rightarrow> k)"

definition es3_parse :: "jsstring \<Rightarrow> int option \<Rightarrow> (jsstring \<times> json) list result" where
  "es3_parse e m =
     (if e = [] then Inr []
      else (let cs = split_on 38 e; s = max_keys m
            in es3_fields [] (if 0 < s \<and> s < int (length cs) then take (nat s) cs else cs)))"

section \<open>Parsing by scanning\<close>

text \<open>
  The variables of the loop: the start \<open>v\<close> of the units not yet copied, whether the \<open>=\<close> has been seen (\<open>g\<close>), the texts of name and
  value (\<open>y\<close>, \<open>b\<close>), whether they have to be decoded (\<open>_\<close>, \<open>w\<close>), how much of an escape has been seen (\<open>E\<close>), the object,
  the names it has been given (\<open>h\<close>), and how many fields may follow (\<open>f\<close>, \<open>None\<close> is \<open>Infinity\<close>).
\<close>

record scan =
  sc_v :: nat
  sc_g :: bool
  sc_y :: jsstring
  sc_b :: jsstring
  sc_k :: bool
  sc_w :: bool
  sc_E :: nat
  sc_a :: "(jsstring \<times> json) list"
  sc_h :: "jsstring list"
  sc_f :: "nat option"

definition slice_from :: "jsstring \<Rightarrow> nat \<Rightarrow> nat \<Rightarrow> jsstring" where
  "slice_from e v x = take (x - v) (drop v e)"

text \<open>The test for an escape, which a flag that is set skips.\<close>

definition track :: "code_unit \<Rightarrow> nat \<times> bool \<Rightarrow> nat \<times> bool" where
  "track c q =
     (let (E, w) = q
      in if w then q else if c = 37 then (1, False) else if 0 < E \<and> hex_digit c \<noteq> None then (E + 1, E + 1 = 3) else (0, False))"

definition scan_plus :: "jsstring \<Rightarrow> nat \<Rightarrow> code_unit \<Rightarrow> scan \<Rightarrow> scan" where
  "scan_plus e x c st =
     (if c \<noteq> 43 then st
      else if \<not> sc_g st then st\<lparr>sc_y := sc_y st @ slice_from e (sc_v st) x @ lit ''%20'', sc_k := True, sc_v := x + 1\<rparr>
      else st\<lparr>sc_b := sc_b st @ slice_from e (sc_v st) x @ lit ''%20'', sc_w := True, sc_v := x + 1\<rparr>)"

definition scan_unit :: "jsstring \<Rightarrow> nat \<Rightarrow> code_unit \<Rightarrow> scan \<Rightarrow> scan" where
  "scan_unit e x c st =
     (let (E, w) = track c (sc_E st, sc_w st)
      in if \<not> sc_g st
         then if c = 61
              then st\<lparr>sc_y := sc_y st @ slice_from e (sc_v st) x, sc_g := True, sc_w := w, sc_E := 0, sc_v := x + 1\<rparr>
              else (let (E, k) = track c (E, sc_k st) in scan_plus e x c (st\<lparr>sc_w := w, sc_k := k, sc_E := E\<rparr>))
         else scan_plus e x c (st\<lparr>sc_w := w, sc_E := E\<rparr>))"

text \<open>The end of a field: the rest is copied, name and value are decoded, and the value is stored.\<close>

definition scan_field :: "jsstring \<Rightarrow> nat \<Rightarrow> scan \<Rightarrow> scan" where
  "scan_field e x st =
     (let r = slice_from e (sc_v st) x;
          y = (if sc_g st then sc_y st else sc_y st @ r);
          b = (if sc_g st then sc_b st @ r else sc_b st);
          y = (if sc_k st then qs_unescape y False else y);
          b = (if sc_w st then qs_unescape b False else b)
      in if y \<in> set (sc_h st) then st\<lparr>sc_a := append_value (sc_a st) y b\<rparr>
         else st\<lparr>sc_a := own_put (sc_a st) y b, sc_h := sc_h st @ [y]\<rparr>)"

function scan_loop :: "jsstring \<Rightarrow> nat \<Rightarrow> scan \<Rightarrow> scan" where
  "scan_loop e x st =
     (if x < length e
      then if e ! x \<noteq> 38 then scan_loop e (x + 1) (scan_unit e x (e ! x) st)
           else (let st = scan_field e x st; st = st\<lparr>sc_f := map_option (\<lambda>f. f - 1) (sc_f st)\<rparr>
                 in if sc_f st = Some 0 then st
                    else scan_loop e (x + 1)
                      (st\<lparr>sc_k := False, sc_w := False, sc_E := 0, sc_y := [], sc_b := [], sc_v := x + 1, sc_g := False\<rparr>))
      else st)"
  by pat_completeness auto
termination
  by (relation "measure (\<lambda>(e, x, st). length e - x)") auto

declare scan_loop.simps [simp del]

definition fresh_scan :: "(jsstring \<times> json) list \<Rightarrow> jsstring list \<Rightarrow> nat option \<Rightarrow> nat \<Rightarrow> scan" where
  "fresh_scan a h f x =
     \<lparr>sc_v = x, sc_g = False, sc_y = [], sc_b = [], sc_k = False, sc_w = False, sc_E = 0, sc_a = a, sc_h = h, sc_f = f\<rparr>"

definition browser_parse :: "jsstring \<Rightarrow> int option \<Rightarrow> (jsstring \<times> json) list" where
  "browser_parse e m =
     (let c = max_keys m;
          st = scan_loop e 0 (fresh_scan [] [] (if 0 < c then Some (nat c) else None) 0)
      in if sc_f st \<noteq> Some 0 \<and> (sc_v st < length e \<or> sc_g st) then sc_a (scan_field e (length e) st) else sc_a st)"

section \<open>Escapes in a text\<close>

text \<open>A text that has a complete escape, and the progress of one at its end.\<close>

definition full :: "jsstring \<Rightarrow> bool" where
  "full p \<longleftrightarrow> (\<exists>a h1 h2 z. p = a @ 37 # h1 # h2 # z \<and> hex_digit h1 \<noteq> None \<and> hex_digit h2 \<noteq> None)"

lemma octet_shape: "octet s \<noteq> None \<Longrightarrow> \<exists>h1 h2 z. s = 37 # h1 # h2 # z \<and> hex_digit h1 \<noteq> None \<and> hex_digit h2 \<noteq> None"
  by (cases s rule: octet.cases) (auto split: if_splits option.splits)

lemma decode_plain: "37 \<notin> set p \<Longrightarrow> decodeURIComponent p = Some p"
  by (induction p) auto

lemma decode_full:
  assumes "decodeURIComponent p \<noteq> None" "37 \<in> set p"
  shows "full p"
proof -
  obtain a z where p: "p = a @ 37 # z" "37 \<notin> set a" using split_list_first [OF assms(2)] by blast
  have "decodeURIComponent (a @ 37 # z) \<noteq> None \<Longrightarrow> decodeURIComponent (37 # z) \<noteq> None"
    using p(2) by (induction a) auto
  then have "octet (37 # z) \<noteq> None" using assms(1) p(1) by (auto simp del: octet.simps split: option.splits)
  then show ?thesis using octet_shape [of "37 # z"] p(1) unfolding full_def by blast
qed

lemma decode_unflagged: "\<not> full p \<Longrightarrow> decodeURIComponent p = Some d \<Longrightarrow> d = p"
  using decode_full [of p] decode_plain [of p] by (cases "37 \<in> set p") auto

lemma full_snoc: "full (p @ [c]) \<Longrightarrow> full p \<or> (\<exists>a h. p = a @ [37, h] \<and> hex_digit h \<noteq> None \<and> hex_digit c \<noteq> None)"
proof -
  assume "full (p @ [c])"
  then obtain a h1 h2 z where x: "p @ [c] = a @ 37 # h1 # h2 # z" "hex_digit h1 \<noteq> None" "hex_digit h2 \<noteq> None"
    unfolding full_def by blast
  show ?thesis
  proof (cases z rule: rev_cases)
    case Nil
    then have "p @ [c] = (a @ [37, h1]) @ [h2]" using x(1) by simp
    then show ?thesis using x(2,3) by (auto simp only: append1_eq_conv)
  next
    case (snoc z' l)
    then have "p @ [c] = (a @ 37 # h1 # h2 # z') @ [l]" using x(1) by simp
    then have "p = a @ 37 # h1 # h2 # z'" by (simp only: append1_eq_conv)
    then show ?thesis using x(2,3) unfolding full_def by blast
  qed
qed

definition progress :: "jsstring \<Rightarrow> nat \<Rightarrow> bool" where
  "progress p E \<longleftrightarrow> (\<forall>a. p = a @ [37] \<longrightarrow> E = 1) \<and> (\<forall>a h. p = a @ [37, h] \<and> hex_digit h \<noteq> None \<longrightarrow> E = 2)"

lemma progress_Nil: "progress [] E"
  by (simp add: progress_def)

lemma percent_no_digit: "hex_digit 37 = None" "hex_digit 43 = None" "hex_digit 61 = None"
  by (simp_all add: hex_digit_def)

lemma track_progress:
  assumes "track c (E, False) = (E', False)" "\<not> full p" "progress p E"
  shows "\<not> full (p @ [c]) \<and> progress (p @ [c]) E'"
proof -
  have "\<not> full (p @ [c])"
  proof
    assume "full (p @ [c])"
    then obtain a h where "p = a @ [37, h]" "hex_digit h \<noteq> None" "hex_digit c \<noteq> None" using full_snoc assms(2) by blast
    then show False using assms(1,3) by (auto simp: progress_def track_def percent_no_digit split: if_splits)
  qed
  moreover have "progress (p @ [c]) E'"
  proof (unfold progress_def, intro conjI allI impI)
    show "E' = 1" if "p @ [c] = a @ [37]" for a using that assms(1) by (simp add: track_def)
    show "E' = 2" if a: "p @ [c] = a @ [37, h] \<and> hex_digit h \<noteq> None" for a h
    proof -
      have "p @ [c] = (a @ [37]) @ [h]" using a by simp
      then have "p = a @ [37]" "c = h" by (simp_all only: append1_eq_conv)
      then show ?thesis using assms(1,3) a by (auto simp: progress_def track_def percent_no_digit split: if_splits)
    qed
  qed
  ultimately show ?thesis ..
qed

text \<open>In a name both tests run, so that a digit after \<open>%\<close> sets the flag.\<close>

definition begun :: "jsstring \<Rightarrow> bool" where
  "begun p \<longleftrightarrow> (\<exists>a h z. p = a @ 37 # h # z \<and> hex_digit h \<noteq> None)"

lemma full_begun: "full p \<Longrightarrow> begun p"
  unfolding full_def begun_def by blast

lemma begun_snoc: "begun (p @ [c]) \<Longrightarrow> begun p \<or> (\<exists>a. p = a @ [37] \<and> hex_digit c \<noteq> None)"
proof -
  assume "begun (p @ [c])"
  then obtain a h z where x: "p @ [c] = a @ 37 # h # z" "hex_digit h \<noteq> None" unfolding begun_def by blast
  show ?thesis
  proof (cases z rule: rev_cases)
    case Nil
    then have "p @ [c] = (a @ [37]) @ [h]" using x(1) by simp
    then show ?thesis using x(2) by (auto simp only: append1_eq_conv)
  next
    case (snoc z' l)
    then have "p @ [c] = (a @ 37 # h # z') @ [l]" using x(1) by simp
    then have "p = a @ 37 # h # z'" by (simp only: append1_eq_conv)
    then show ?thesis using x(2) unfolding begun_def by blast
  qed
qed

lemma track_twice:
  assumes "track c (E, False) = (E1, w)" "track c (E1, False) = (E2, False)" "\<not> begun p" "\<forall>a. p = a @ [37] \<longrightarrow> E = 1" "E \<le> 1"
  shows "\<not> w" "\<not> begun (p @ [c])" "\<forall>a. p @ [c] = a @ [37] \<longrightarrow> E2 = 1" "E2 \<le> 1"
proof -
  show "\<not> w" "E2 \<le> 1" using assms(1,2,5) by (auto simp: track_def split: if_splits)
  show "\<not> begun (p @ [c])"
  proof
    assume "begun (p @ [c])"
    then obtain a where "p = a @ [37]" "hex_digit c \<noteq> None" using begun_snoc assms(3) by blast
    then show False using assms(1,2,4) by (auto simp: track_def percent_no_digit split: if_splits)
  qed
  show "\<forall>a. p @ [c] = a @ [37] \<longrightarrow> E2 = 1" using assms(2) by (auto simp: track_def)
qed

section \<open>Scanning a field\<close>

text \<open>What the loop knows after the units \<open>c\<close> of a field, the last of which is before \<open>x\<close>.\<close>

definition copied :: "jsstring \<Rightarrow> nat \<Rightarrow> scan \<Rightarrow> jsstring \<times> jsstring" where
  "copied e x st =
     (let r = slice_from e (sc_v st) x in if sc_g st then (sc_y st, sc_b st @ r) else (sc_y st @ r, sc_b st))"

definition name_known :: "jsstring \<Rightarrow> scan \<Rightarrow> bool" where
  "name_known f st \<longleftrightarrow> (sc_k st \<or> 43 \<notin> set f \<and> \<not> full f)"

definition field_known :: "jsstring \<Rightarrow> nat \<Rightarrow> jsstring \<Rightarrow> scan \<Rightarrow> bool" where
  "field_known e x c st \<longleftrightarrow>
     (let (f, p) = split_field c
      in sc_v st \<le> x \<and> copied e x st = (plus_to (lit ''%20'') f, plus_to (lit ''%20'') p) \<and> (sc_g st \<longleftrightarrow> 61 \<in> set c)
         \<and> (if sc_g st then name_known f st \<and> (sc_w st \<or> 43 \<notin> set p \<and> \<not> full p \<and> progress p (sc_E st))
            else sc_k st \<or> \<not> sc_w st \<and> 43 \<notin> set f \<and> \<not> begun f \<and> sc_E st \<le> 1 \<and> (\<forall>a. f = a @ [37] \<longrightarrow> sc_E st = 1)))"

lemma split_field_snoc:
  "61 \<in> set c \<Longrightarrow> split_field (c @ [l]) = (fst (split_field c), snd (split_field c) @ [l])"
  "61 \<notin> set c \<Longrightarrow> l \<noteq> 61 \<Longrightarrow> split_field (c @ [l]) = (c @ [l], [])"
  "61 \<notin> set c \<Longrightarrow> split_field c = (c, [])"
  "61 \<notin> set c \<Longrightarrow> split_field (c @ 61 # z) = (c, z)"
proof -
  show "61 \<in> set c \<Longrightarrow> split_field (c @ [l]) = (fst (split_field c), snd (split_field c) @ [l])"
  proof -
    assume "61 \<in> set c"
    then obtain a b where c: "c = a @ 61 # b" "61 \<notin> set a" using split_list_first by fastforce
    then show ?thesis by (simp add: split_field_def index_of_append)
  qed
  show "61 \<notin> set c \<Longrightarrow> l \<noteq> 61 \<Longrightarrow> split_field (c @ [l]) = (c @ [l], [])" "61 \<notin> set c \<Longrightarrow> split_field c = (c, [])"
    by (auto simp: split_field_def index_of_append simp flip: index_of_None_iff)
  show "61 \<notin> set c \<Longrightarrow> split_field (c @ 61 # z) = (c, z)" by (simp add: split_field_def index_of_append)
qed

lemma plus_to_snoc: "plus_to r (s @ [c]) = plus_to r s @ (if c = 43 then r else [c])"
  by (simp add: plus_to_def)

lemma slice_snoc: "v \<le> x \<Longrightarrow> x < length e \<Longrightarrow> slice_from e v (x + 1) = slice_from e v x @ [e ! x]"
  using take_Suc_conv_app_nth [of "x - v" "drop v e"] by (simp add: slice_from_def Suc_diff_le)

lemma slice_self [simp]: "slice_from e x x = []"
  by (simp add: slice_from_def)

lemma field_valueI:
  assumes "split_field c = (f, p)" "61 \<in> set c" "sc_g st" "sc_v st \<le> x" "sc_y st = plus_to (lit ''%20'') f"
    and "sc_b st @ slice_from e (sc_v st) x = plus_to (lit ''%20'') p" "name_known f st"
    and "sc_w st \<or> 43 \<notin> set p \<and> \<not> full p \<and> progress p (sc_E st)"
  shows "field_known e x c st"
  using assms by (simp add: field_known_def copied_def)

lemma field_nameI:
  assumes "61 \<notin> set c" "\<not> sc_g st" "sc_v st \<le> x" "sc_b st = []" "sc_y st @ slice_from e (sc_v st) x = plus_to (lit ''%20'') c"
    and "sc_k st \<or> \<not> sc_w st \<and> 43 \<notin> set c \<and> \<not> begun c \<and> sc_E st \<le> 1 \<and> (\<forall>a. c = a @ [37] \<longrightarrow> sc_E st = 1)"
  shows "field_known e x c st"
  using assms by (simp add: field_known_def copied_def split_field_snoc plus_to_def)

lemma track_set: "track l (E, w) = (E', w') \<Longrightarrow> w \<Longrightarrow> w'"
  by (simp add: track_def)

text \<open>A unit of the value.\<close>

lemma scan_value:
  assumes k: "field_known e x c st" and g: "sc_g st" and x: "x < length e"
  shows "field_known e (x + 1) (c @ [e ! x]) (scan_unit e x (e ! x) st)"
proof -
  obtain f p where fp: "split_field c = (f, p)" by fastforce
  let ?l = "e ! x"
  have c: "61 \<in> set c" and v: "sc_v st \<le> x" and cp: "sc_y st = plus_to (lit ''%20'') f" "sc_b st @ slice_from e (sc_v st) x = plus_to (lit ''%20'') p"
    and n: "name_known f st" and w: "sc_w st \<or> 43 \<notin> set p \<and> \<not> full p \<and> progress p (sc_E st)"
    using k g fp by (auto simp: field_known_def copied_def Let_def)
  have sp: "split_field (c @ [?l]) = (f, p @ [?l])" using split_field_snoc(1) [OF c, of ?l] fp by simp
  obtain E' w' where t: "track ?l (sc_E st, sc_w st) = (E', w')" by fastforce
  let ?st = "st\<lparr>sc_w := w', sc_E := E'\<rparr>"
  have u: "scan_unit e x ?l st = scan_plus e x ?l ?st" using g t by (simp add: scan_unit_def)
  have w2: "w' \<or> 43 \<notin> set p \<and> \<not> full (p @ [?l]) \<and> progress (p @ [?l]) E'"
  proof (cases "sc_w st")
    case True
    then show ?thesis using track_set [OF t] by simp
  next
    case False
    then show ?thesis using track_progress [of ?l "sc_E st" E' p] t w by (cases w') auto
  qed
  show ?thesis
  proof (cases "?l = 43")
    case True
    let ?b = "sc_b st @ slice_from e (sc_v st) x @ lit ''%20''"
    have p: "scan_unit e x ?l st = ?st\<lparr>sc_b := ?b, sc_w := True, sc_v := x + 1\<rparr>" unfolding u using True g by (simp add: scan_plus_def)
    have "?b = plus_to (lit ''%20'') (p @ [?l])" using cp(2) True by (simp add: plus_to_snoc flip: append.assoc)
    then show ?thesis unfolding p by (intro field_valueI [OF sp]) (use c g v cp(1) n in \<open>simp_all add: name_known_def\<close>)
  next
    case False
    have p: "scan_unit e x ?l st = ?st" unfolding u using False by (simp add: scan_plus_def)
    have "sc_b st @ slice_from e (sc_v st) (x + 1) = plus_to (lit ''%20'') (p @ [?l])"
      unfolding slice_snoc [OF v x] plus_to_snoc cp(2) [symmetric] using False by simp
    then show ?thesis unfolding p by (intro field_valueI [OF sp]) (use c g v cp(1) n w2 False in \<open>simp_all add: name_known_def\<close>)
  qed
qed

text \<open>A unit of the name, and the separator behind it.\<close>

lemma scan_name:
  assumes k: "field_known e x c st" and g: "\<not> sc_g st" and x: "x < length e"
  shows "field_known e (x + 1) (c @ [e ! x]) (scan_unit e x (e ! x) st)"
proof -
  let ?l = "e ! x"
  have c: "61 \<notin> set c" using k g by (auto simp: field_known_def Let_def split: prod.splits)
  have v: "sc_v st \<le> x" and cp: "sc_y st @ slice_from e (sc_v st) x = plus_to (lit ''%20'') c" "sc_b st = []"
    and w: "sc_k st \<or> \<not> sc_w st \<and> 43 \<notin> set c \<and> \<not> begun c \<and> sc_E st \<le> 1 \<and> (\<forall>a. c = a @ [37] \<longrightarrow> sc_E st = 1)"
    using k g c by (simp_all add: field_known_def copied_def split_field_snoc plus_to_def)
  obtain E1 w1 where t: "track ?l (sc_E st, sc_w st) = (E1, w1)" by fastforce
  show ?thesis
  proof (cases "?l = 61")
    case True
    let ?st = "st\<lparr>sc_y := sc_y st @ slice_from e (sc_v st) x, sc_g := True, sc_w := w1, sc_E := 0, sc_v := x + 1\<rparr>"
    have p: "scan_unit e x ?l st = ?st" using g t True by (simp add: scan_unit_def)
    have n: "name_known c ?st" using w full_begun by (auto simp: name_known_def)
    have sp: "split_field (c @ [?l]) = (c, [])" using split_field_snoc(4) [OF c, of "[]"] True by simp
    show ?thesis unfolding p
      by (rule field_valueI [OF sp]) (use True cp n in \<open>simp_all add: plus_to_def full_def progress_Nil\<close>)
  next
    case l: False
    obtain E2 k2 where t2: "track ?l (E1, sc_k st) = (E2, k2)" by fastforce
    let ?st = "st\<lparr>sc_w := w1, sc_k := k2, sc_E := E2\<rparr>"
    have u: "scan_unit e x ?l st = scan_plus e x ?l ?st" using g t t2 l by (simp add: scan_unit_def)
    have c2: "61 \<notin> set (c @ [?l])" using c l by simp
    have w2: "k2 \<or> \<not> w1 \<and> 43 \<notin> set c \<and> \<not> begun (c @ [?l]) \<and> E2 \<le> 1 \<and> (\<forall>a. c @ [?l] = a @ [37] \<longrightarrow> E2 = 1)"
    proof (cases "sc_k st \<or> k2")
      case True
      then show ?thesis using track_set [OF t2] by blast
    next
      case False
      then have q: "track ?l (sc_E st, False) = (E1, w1)" "track ?l (E1, False) = (E2, False)" "43 \<notin> set c" "\<not> begun c"
        "\<forall>a. c = a @ [37] \<longrightarrow> sc_E st = 1" "sc_E st \<le> 1"
        using t t2 w by auto
      show ?thesis using track_twice [OF q(1,2,4,5,6)] q(3) by simp
    qed
    show ?thesis
    proof (cases "?l = 43")
      case True
      let ?y = "sc_y st @ slice_from e (sc_v st) x @ lit ''%20''"
      have p: "scan_unit e x ?l st = ?st\<lparr>sc_y := ?y, sc_k := True, sc_v := x + 1\<rparr>" unfolding u using True g by (simp add: scan_plus_def)
      have "?y = plus_to (lit ''%20'') (c @ [?l])" using cp(1) True by (simp add: plus_to_snoc flip: append.assoc)
      then show ?thesis unfolding p by (intro field_nameI [OF c2]) (use g v cp(2) in simp_all)
    next
      case False
      have p: "scan_unit e x ?l st = ?st" unfolding u using False by (simp add: scan_plus_def)
      have "sc_y st @ slice_from e (sc_v st) (x + 1) = plus_to (lit ''%20'') (c @ [?l])"
        unfolding slice_snoc [OF v x] plus_to_snoc cp(1) [symmetric] using False by simp
      then show ?thesis unfolding p by (intro field_nameI [OF c2]) (use g v cp(2) w2 False in simp_all)
    qed
  qed
qed

lemma scan_fresh: "field_known e x [] (fresh_scan a h f x)"
  by (rule field_nameI) (simp_all add: fresh_scan_def plus_to_def begun_def)

lemma scan_frame: "sc_a (scan_unit e x l st) = sc_a st" "sc_h (scan_unit e x l st) = sc_h st" "sc_f (scan_unit e x l st) = sc_f st"
  by (simp_all add: scan_unit_def scan_plus_def split: prod.splits)

lemma scan_step: "x < length e \<Longrightarrow> e ! x \<noteq> 38 \<Longrightarrow> scan_loop e x st = scan_loop e (x + 1) (scan_unit e x (e ! x) st)"
  by (simp add: scan_loop.simps [of e x st])

lemma scan_unit_known: "field_known e x c st \<Longrightarrow> x < length e \<Longrightarrow> field_known e (x + 1) (c @ [e ! x]) (scan_unit e x (e ! x) st)"
  using scan_value scan_name by blast

lemma scan_unit_v: "sc_v st \<le> x \<Longrightarrow> l \<noteq> 43 \<Longrightarrow> \<not> sc_g (scan_unit e x l st) \<Longrightarrow> sc_v (scan_unit e x l st) < x + 1"
  by (simp add: scan_unit_def scan_plus_def split: prod.splits if_splits)

lemma scan_run:
  "drop x e = u @ z \<Longrightarrow> 38 \<notin> set u \<Longrightarrow>
   \<exists>st. scan_loop e x (fresh_scan a h f x) = scan_loop e (x + length u) st \<and> field_known e (x + length u) u st
     \<and> sc_a st = a \<and> sc_h st = h \<and> sc_f st = f \<and> (u \<noteq> [] \<and> last u \<noteq> 43 \<and> \<not> sc_g st \<longrightarrow> sc_v st < x + length u)"
proof (induction u arbitrary: z rule: rev_induct)
  case Nil
  then show ?case by (intro exI [of _ "fresh_scan a h f x"]) (simp add: scan_fresh, simp add: fresh_scan_def)
next
  case (snoc l u)
  obtain st where st: "scan_loop e x (fresh_scan a h f x) = scan_loop e (x + length u) st" "field_known e (x + length u) u st"
    "sc_a st = a" "sc_h st = h" "sc_f st = f"
    using snoc.IH [of "l # z"] snoc.prems by auto
  let ?x = "x + length u" and ?st = "scan_unit e (x + length u) l st"
  have "length (drop x e) = length u + 1 + length z" "drop x e ! length u = l" using snoc.prems(1) by (simp_all add: nth_append)
  then have l: "?x < length e" "e ! ?x = l" by (simp_all add: nth_append)
  have v: "sc_v st \<le> ?x" using st(2) by (simp add: field_known_def split: prod.splits)
  have "scan_loop e ?x st = scan_loop e (?x + 1) ?st" using scan_step [OF l(1)] l(2) snoc.prems(2) by simp
  moreover have "field_known e (?x + 1) (u @ [l]) ?st" using scan_unit_known [OF st(2) l(1)] l(2) by simp
  ultimately show ?case using st scan_unit_v [OF v] by (intro exI [of _ ?st]) (simp add: scan_frame)
qed

section \<open>Storing a field\<close>

lemma plus_split:
  assumes "split_field c = (f, p)"
  shows "split_field (plus_to (lit ''%20'') c) = (plus_to (lit ''%20'') f, plus_to (lit ''%20'') p)"
proof (cases "61 \<in> set c")
  case True
  then obtain a b where c: "c = a @ 61 # b" "61 \<notin> set a" using split_list_first by fastforce
  have "61 \<notin> set (plus_to (lit ''%20'') a)" using c(2) by (auto simp: plus_to_def lit_def)
  then show ?thesis using assms c split_field_snoc(4) [of a b] split_field_snoc(4) [of "plus_to (lit ''%20'') a" "plus_to (lit ''%20'') b"]
    by (simp add: plus_to_def)
next
  case False
  then have "61 \<notin> set (plus_to (lit ''%20'') c)" by (auto simp: plus_to_def lit_def)
  then show ?thesis using assms split_field_snoc(3) [OF False] split_field_snoc(3) [of "plus_to (lit ''%20'') c"]
    by (simp add: plus_to_def)
qed

lemma decoded_text:
  assumes "decodeURIComponent (plus_to (lit ''%20'') f) = Some d" "k \<or> 43 \<notin> set f \<and> \<not> full f"
  shows "(if k then qs_unescape (plus_to (lit ''%20'') f) False else plus_to (lit ''%20'') f) = d"
proof (cases k)
  case False
  then have "plus_to (lit ''%20'') f = f" "\<not> full f" using assms(2) plus_to_none [of f] by auto
  then show ?thesis using decode_unflagged [of f d] assms(1) False by simp
qed (use assms(1) in \<open>simp add: qs_unescape_def\<close>)

definition store_field :: "(jsstring \<times> json) list \<Rightarrow> jsstring \<Rightarrow> jsstring \<Rightarrow> (jsstring \<times> json) list" where
  "store_field a d v = (if d \<in> fst ` set a then append_value a d v else own_put a d v)"

text \<open>The names the scanner has listed are those of the object and perhaps \<open>__proto__\<close>.\<close>

definition listed :: "(jsstring \<times> json) list \<Rightarrow> jsstring list \<Rightarrow> bool" where
  "listed a h \<longleftrightarrow> fst ` set a = set h - {lit ''__proto__''}"

lemma obj_put_names: "fst ` set (obj_put a p v) = insert p (fst ` set a)"
proof -
  have "fst ` set a = dom (map_of a)" for a :: "(jsstring \<times> json) list" by (simp add: dom_map_of_conv_image_fst)
  then show ?thesis by (simp add: map_of_obj_put)
qed

lemma append_value_names: "fst ` set (append_value a p v) = fst ` set a"
proof (cases "map_of a p")
  case (Some w)
  then have "p \<in> fst ` set a" by (auto dest: map_of_SomeD simp: rev_image_eqI)
  then show ?thesis using Some by (auto simp: append_value_def obj_put_names insert_absorb split: json.splits)
qed (simp add: append_value_def)

lemma scan_field_stores:
  assumes k: "field_known e x c st" and c: "split_field (plus_to (lit ''%20'') c) = (f, p)"
    and d: "decodeURIComponent f = Some d" "decodeURIComponent p = Some v" and h: "listed (sc_a st) (sc_h st)"
  shows "\<exists>hs. scan_field e x st = st\<lparr>sc_a := store_field (sc_a st) d v, sc_h := hs\<rparr> \<and> listed (store_field (sc_a st) d v) hs"
proof -
  obtain f0 p0 where fp: "split_field c = (f0, p0)" by fastforce
  have f: "f = plus_to (lit ''%20'') f0" "p = plus_to (lit ''%20'') p0" using plus_split [OF fp] c by simp_all
  have cp: "copied e x st = (f, p)" using k fp f by (simp add: field_known_def)
  have n: "sc_k st \<or> 43 \<notin> set f0 \<and> \<not> full f0" using k fp full_begun [of f0] by (auto simp: field_known_def name_known_def split: if_splits)
  have w: "sc_w st \<or> 43 \<notin> set p0 \<and> \<not> full p0"
  proof (cases "sc_g st")
    case False
    then have "p0 = []" using k fp split_field_snoc(3) [of c] by (auto simp: field_known_def)
    then show ?thesis by (simp add: full_def)
  qed (use k fp in \<open>auto simp: field_known_def\<close>)
  have y: "(if sc_k st then qs_unescape f False else f) = d" unfolding f(1) by (rule decoded_text) (use d(1) n f(1) in simp_all)
  have b: "(if sc_w st then qs_unescape p False else p) = v" unfolding f(2) by (rule decoded_text) (use d(2) w f(2) in simp_all)
  have y2: "(if sc_g st then sc_y st else sc_y st @ slice_from e (sc_v st) x) = f" and b2: "(if sc_g st then sc_b st @ slice_from e (sc_v st) x else sc_b st) = p"
    using cp by (auto simp: copied_def Let_def split: if_splits)
  have s: "scan_field e x st = (if d \<in> set (sc_h st) then st\<lparr>sc_a := append_value (sc_a st) d v\<rparr>
      else st\<lparr>sc_a := own_put (sc_a st) d v, sc_h := sc_h st @ [d]\<rparr>)"
    unfolding scan_field_def Let_def y2 b2 y b ..
  show ?thesis
  proof (cases "d \<in> set (sc_h st)")
    case True
    have "append_value (sc_a st) d v = store_field (sc_a st) d v"
    proof (cases "d = lit ''__proto__''")
      case True
      then have d: "d \<notin> fst ` set (sc_a st)" using h by (auto simp: listed_def)
      then have "map_of (sc_a st) d = None" by (simp only: map_of_eq_None_iff) simp
      then show ?thesis using True d by (simp add: store_field_def own_put_def append_value_def)
    qed (use True h in \<open>simp add: store_field_def listed_def\<close>)
    then show ?thesis using s True h append_value_names [of "sc_a st" d v] by (intro exI [of _ "sc_h st"]) (simp add: listed_def)
  next
    case False
    then have "store_field (sc_a st) d v = own_put (sc_a st) d v" using h by (simp add: store_field_def listed_def)
    moreover have "listed (own_put (sc_a st) d v) (sc_h st @ [d])"
      using h by (auto simp: listed_def own_put_def obj_put_names)
    ultimately show ?thesis using s False by (intro exI [of _ "sc_h st @ [d]"]) simp
  qed
qed

section \<open>Both parsers\<close>

definition finish :: "jsstring \<Rightarrow> scan \<Rightarrow> (jsstring \<times> json) list" where
  "finish e st = (if sc_f st \<noteq> Some 0 \<and> (sc_v st < length e \<or> sc_g st) then sc_a (scan_field e (length e) st) else sc_a st)"

definition limited :: "nat option \<Rightarrow> 'a list \<Rightarrow> 'a list" where
  "limited f xs = (case f of None \<Rightarrow> xs | Some k \<Rightarrow> take k xs)"

lemma limited_Cons: "f \<noteq> Some 0 \<Longrightarrow> limited f (c # cs) = c # limited (map_option (\<lambda>k. k - 1) f) cs"
  by (auto simp: limited_def take_Cons' split: option.splits)

lemma limited_0 [simp]: "limited (Some 0) cs = []"
  by (simp add: limited_def)

lemma es3_fields_Cons:
  assumes "es3_fields a (c # cs) = Inr r"
  obtains f p d v where "split_field (plus_to (lit ''%20'') c) = (f, p)" "decodeURIComponent f = Some d" "decodeURIComponent p = Some v"
    "es3_fields (store_field a d v) cs = Inr r"
  using assms by (auto simp: store_field_def split: prod.splits option.splits)

text \<open>
  The last field is seen by the scanner unless it is empty or a name that ends with \<open>+\<close>.
\<close>

definition field_seen :: "jsstring \<Rightarrow> bool" where
  "field_seen c \<longleftrightarrow> c \<noteq> [] \<and> (last c = 43 \<longrightarrow> 61 \<in> set c)"

lemma scan_sep:
  assumes "x < length e" "e ! x = 38" "scan_field e x st = st'" "f = map_option (\<lambda>k. k - 1) (sc_f st')"
  shows "scan_loop e x st = (if f = Some 0 then st'\<lparr>sc_f := f\<rparr> else scan_loop e (x + 1) (fresh_scan (sc_a st') (sc_h st') f (x + 1)))"
proof -
  have "st'\<lparr>sc_f := f, sc_k := False, sc_w := False, sc_E := 0, sc_y := [], sc_b := [], sc_v := x + 1, sc_g := False\<rparr>
      = fresh_scan (sc_a st') (sc_h st') f (x + 1)"
    by (cases st') (simp add: fresh_scan_def)
  then show ?thesis using assms(1,2) unfolding scan_loop.simps [of e x st] assms(3) assms(4) [symmetric] Let_def
    by (simp del: One_nat_def add_Suc_right)
qed

lemma scan_fields:
  "cs \<noteq> [] \<Longrightarrow> \<forall>c \<in> set cs. 38 \<notin> set c \<Longrightarrow> drop x e = join_with 38 cs \<Longrightarrow> x \<le> length e \<Longrightarrow> f \<noteq> Some 0 \<Longrightarrow> field_seen (last cs) \<Longrightarrow>
   listed a h \<Longrightarrow> es3_fields a (limited f cs) = Inr r \<Longrightarrow> finish e (scan_loop e x (fresh_scan a h f x)) = r"
proof (induction cs arbitrary: x a h f)
  case (Cons c cs)
  define z where "z = (if cs = [] then [] else 38 # join_with 38 cs)"
  have dr: "drop x e = c @ z" using Cons.prems(3) by (cases cs) (simp_all add: z_def)
  then have ln: "length e = x + length c + length z" using Cons.prems(4) by (metis add.assoc append_take_drop_id length_append length_take min.absorb2)
  obtain st where st: "scan_loop e x (fresh_scan a h f x) = scan_loop e (x + length c) st" "field_known e (x + length c) c st"
    "sc_a st = a" "sc_h st = h" "sc_f st = f" "c \<noteq> [] \<and> last c \<noteq> 43 \<and> \<not> sc_g st \<longrightarrow> sc_v st < x + length c"
    using scan_run [OF dr, of a h f] Cons.prems(2) by auto
  obtain f0 p d v where s: "split_field (plus_to (lit ''%20'') c) = (f0, p)" "decodeURIComponent f0 = Some d" "decodeURIComponent p = Some v"
    and rest: "es3_fields (store_field a d v) (limited (map_option (\<lambda>k. k - 1) f) cs) = Inr r"
    using Cons.prems(8) unfolding limited_Cons [OF Cons.prems(5)] by (rule es3_fields_Cons)
  obtain hs where sf: "scan_field e (x + length c) st = st\<lparr>sc_a := store_field a d v, sc_h := hs\<rparr>" "listed (store_field a d v) hs"
    using scan_field_stores [OF st(2) s] st(3,4) Cons.prems(7) by auto
  show ?case
  proof (cases "cs = []")
    case True
    then have x: "length e = x + length c" using ln by (simp add: z_def)
    have g: "sc_g st \<longleftrightarrow> 61 \<in> set c" using st(2) by (auto simp: field_known_def Let_def split: prod.splits)
    have "scan_loop e (x + length c) st = st" using x by (simp add: scan_loop.simps)
    moreover have "sc_v st < length e \<or> sc_g st" using st(6) Cons.prems(6) True g x by (auto simp: field_seen_def)
    moreover have "es3_fields (store_field a d v) [] = Inr r"
      using rest True by (simp add: limited_def split: option.splits)
    ultimately show ?thesis using st(1,5) Cons.prems(5) sf(1) x by (simp add: finish_def)
  next
    case False
    then have sep: "x + length c < length e" "e ! (x + length c) = 38"
      using ln dr nth_drop [of x e "length c"] by (simp_all add: z_def)
    let ?f = "map_option (\<lambda>k. k - 1) f" and ?x = "x + length c + 1"
    have dr2: "drop ?x e = join_with 38 cs"
    proof -
      have "drop ?x e = drop (length c + 1) (drop x e)" by (simp add: add.commute add.left_commute)
      then show ?thesis unfolding dr using False by (simp add: z_def)
    qed
    show ?thesis
    proof (cases "?f = Some 0")
      case True
      have "scan_loop e (x + length c) st = st\<lparr>sc_a := store_field a d v, sc_h := hs, sc_f := Some 0\<rparr>"
        using scan_sep [OF sep sf(1), of ?f] st(5) True by simp
      moreover have "store_field a d v = r" using rest unfolding True by simp
      ultimately show ?thesis using st(1) by (simp add: finish_def)
    next
      case False
      have "scan_loop e (x + length c) st = scan_loop e ?x (fresh_scan (store_field a d v) hs ?f ?x)"
        using scan_sep [OF sep sf(1), of ?f] st(5) False by (simp del: One_nat_def add_Suc_right map_option_eq_Some)
      moreover have "finish e (scan_loop e ?x (fresh_scan (store_field a d v) hs ?f ?x)) = r"
        using Cons.prems(2,6) \<open>cs \<noteq> []\<close> sep(1)
        by (intro Cons.IH [OF \<open>cs \<noteq> []\<close> _ dr2 _ False _ sf(2) rest]) simp_all
      ultimately show ?thesis using st(1) by simp
    qed
  qed
qed simp

lemma browser_finish: "browser_parse e m = finish e (scan_loop e 0 (fresh_scan [] [] (if 0 < max_keys m then Some (nat (max_keys m)) else None) 0))"
  by (simp add: browser_parse_def finish_def Let_def)

lemma parsers_same:
  assumes "es3_parse e m = Inr a" "e = [] \<or> field_seen (last (split_on 38 e))"
  shows "browser_parse e m = a"
proof (cases "e = []")
  case True
  then show ?thesis using assms(1) by (simp add: es3_parse_def browser_finish finish_def scan_loop.simps fresh_scan_def)
next
  case False
  let ?f = "if 0 < max_keys m then Some (nat (max_keys m)) else None" and ?cs = "split_on 38 e"
  have "(if 0 < max_keys m \<and> max_keys m < int (length ?cs) then take (nat (max_keys m)) ?cs else ?cs) = limited ?f ?cs"
    by (simp add: limited_def)
  then have "es3_fields [] (limited ?f ?cs) = Inr a" using assms(1) False by (simp add: es3_parse_def Let_def)
  then show ?thesis unfolding browser_finish
    using assms(2) False split_on_not_Nil [of 38 e] split_parts [of 38 e] join_split [of 38 e]
    by (intro scan_fields [of ?cs]) (auto simp: listed_def)
qed

section \<open>Strings of objects\<close>

text \<open>Objects that a query string can carry: names with a string or with at least two strings.\<close>

definition query_value :: "json \<Rightarrow> bool" where
  "query_value v = (case v of JStr s \<Rightarrow> well_formed s
     | JArr xs \<Rightarrow> 2 \<le> length xs \<and> list_all (\<lambda>x. case x of JStr s \<Rightarrow> well_formed s | _ \<Rightarrow> False) xs | _ \<Rightarrow> False)"

definition query_ok :: "(jsstring \<times> json) list \<Rightarrow> bool" where
  "query_ok m \<longleftrightarrow> distinct (map fst m) \<and> list_all (\<lambda>(k, v). well_formed k \<and> k \<noteq> lit ''__proto__'' \<and> query_value v) m"

definition value_texts :: "json \<Rightarrow> jsstring list" where
  "value_texts v = (case v of JArr xs \<Rightarrow> map primitive_text xs | _ \<Rightarrow> [primitive_text v])"

definition query_pairs :: "(jsstring \<times> json) list \<Rightarrow> (jsstring \<times> jsstring) list" where
  "query_pairs m = concat (map (\<lambda>(k, v). map (Pair k) (value_texts v)) m)"

definition field_text :: "jsstring \<times> jsstring \<Rightarrow> jsstring" where
  "field_text = (\<lambda>(k, s). percent_text uri_plain k @ 61 # percent_text uri_plain s)"

lemma value_texts_ok: "query_value v \<Longrightarrow> \<forall>s \<in> set (value_texts v). well_formed s"
  by (cases v) (auto simp: query_value_def value_texts_def primitive_text_def list_all_iff split: json.splits)

lemma value_texts_back: "query_value v \<Longrightarrow> \<exists>s ss. value_texts v = s # ss \<and> v = (if ss = [] then JStr s else JArr (map JStr (s # ss)))"
proof (cases v)
  case (JArr xs)
  assume "query_value v"
  then have x: "2 \<le> length xs" "\<forall>x \<in> set xs. x = JStr (primitive_text x)"
    using JArr by (auto simp: query_value_def primitive_text_def list_all_iff split: json.splits)
  then obtain a b zs where xs: "xs = a # b # zs" by (cases xs; cases "tl xs") auto
  have "map (\<lambda>x. JStr (primitive_text x)) xs = xs" by (rule map_idI) (use x(2) in auto)
  then show ?thesis using JArr xs by (simp add: value_texts_def comp_def)
qed (simp_all add: query_value_def value_texts_def primitive_text_def)

lemma all_results_map: "(\<And>x. x \<in> set xs \<Longrightarrow> f x = Inr (g x)) \<Longrightarrow> all_results (map f xs) = Inr (map g xs)"
  by (induction xs) simp_all

lemma field_ok:
  "(\<And>s. well_formed s \<Longrightarrow> enc s = Inr (percent_text uri_plain s)) \<Longrightarrow> well_formed k \<Longrightarrow> well_formed (primitive_text v) \<Longrightarrow>
    field enc k v = Inr (field_text (k, primitive_text v))"
  by (simp add: field_def field_text_def)

lemma prop_fields_ok:
  assumes enc: "\<And>s. well_formed s \<Longrightarrow> enc s = Inr (percent_text uri_plain s)" and "well_formed k" "query_value v"
  shows "prop_fields enc k v = Inr (map (\<lambda>s. field_text (k, s)) (value_texts v))"
proof (cases v)
  case (JArr xs)
  have "all_results (map (field enc k) xs) = Inr (map (\<lambda>x. field_text (k, primitive_text x)) xs)"
    by (rule all_results_map, rule field_ok [OF enc assms(2)]) (use value_texts_ok [OF assms(3)] JArr in \<open>auto simp: value_texts_def\<close>)
  then show ?thesis using JArr enc assms(2) by (simp add: prop_fields_def value_texts_def comp_def)
qed (use assms(3) field_ok [OF enc assms(2), of v] enc assms(2) value_texts_ok [OF assms(3)] in
  \<open>simp_all add: query_value_def prop_fields_def value_texts_def\<close>)

lemma join_Cons: "ws \<noteq> [] \<Longrightarrow> join_with d (w # ws) = w @ d # join_with d ws"
  by (cases ws) simp_all

lemma join_append: "vs \<noteq> [] \<Longrightarrow> ws \<noteq> [] \<Longrightarrow> join_with d (vs @ ws) = join_with d vs @ d # join_with d ws"
proof (induction vs)
  case (Cons v vs)
  then show ?case by (cases "vs = []") (simp_all add: join_Cons)
qed simp

lemma join_concat: "\<forall>g \<in> set gs. g \<noteq> [] \<Longrightarrow> join_with d (map (join_with d) gs) = join_with d (concat gs)"
proof (induction gs)
  case (Cons g gs)
  then show ?case by (cases "gs = []") (simp_all add: join_Cons join_append)
qed simp

lemma separated_concat: "\<forall>g \<in> set gs. g \<noteq> [] \<Longrightarrow> separated gs = join_with 38 (concat gs)"
  by (induction gs rule: separated.induct) (simp_all add: join_append)

definition query_text :: "(jsstring \<times> json) list \<Rightarrow> jsstring" where
  "query_text m = join_with 38 (map field_text (query_pairs m))"

lemma stringify_ok:
  assumes "query_ok m"
  shows "es3_stringify (JObj m) [] = Inr (query_text m)" "browser_stringify (JObj m) = Inr (query_text m)"
proof -
  let ?g = "\<lambda>(k, v). map (\<lambda>s. field_text (k, s)) (value_texts v)"
  have r: "all_results (map (\<lambda>k. prop_fields enc k (the (member (JObj m) k))) (objectKeys (JObj m))) = Inr (map ?g m)"
    if enc: "\<And>s. well_formed s \<Longrightarrow> enc s = Inr (percent_text uri_plain s)" for enc
  proof -
    have "prop_fields enc (fst x) (the (map_of m (fst x))) = Inr (?g x)" if x: "x \<in> set m" for x
    proof -
      have "map_of m (fst x) = Some (snd x)" using assms x by (simp add: query_ok_def)
      then show ?thesis using prop_fields_ok [OF enc, of "fst x" "snd x"] assms x by (auto simp: query_ok_def list_all_iff split: prod.splits)
    qed
    then have "all_results (map (\<lambda>x. prop_fields enc (fst x) (the (map_of m (fst x)))) m) = Inr (map ?g m)" by (rule all_results_map)
    then show ?thesis by (simp add: objectKeys_def member_def comp_def)
  qed
  have g: "\<forall>g \<in> set (map ?g m). g \<noteq> []" using assms value_texts_back by (fastforce simp: query_ok_def list_all_iff)
  have c: "concat (map ?g m) = map field_text (query_pairs m)"
    by (simp add: query_pairs_def map_concat comp_def split_def)
  have j: "join_with 38 (map (join_with 38) (map ?g m)) = query_text m" "separated (map ?g m) = query_text m"
    using join_concat [OF g] separated_concat [OF g] unfolding c query_text_def by simp_all
  show "es3_stringify (JObj m) [] = Inr (query_text m)" "browser_stringify (JObj m) = Inr (query_text m)"
    using r [of encodeURIComponent] r [of escape] encodeURIComponent_text escape_text j
    by (simp_all add: es3_stringify_def browser_stringify_def container_def del: map_map)
qed

section \<open>And back\<close>

lemma field_text_units: "43 \<notin> set (field_text ks)" "38 \<notin> set (field_text ks)" "61 \<in> set (field_text ks)"
  by (cases ks; auto simp: field_text_def uri.no_separators)+

lemma es3_fields_texts:
  "\<forall>(k, s) \<in> set ps. well_formed k \<and> well_formed s \<Longrightarrow> es3_fields a (map field_text ps) = Inr (foldl (\<lambda>a (k, s). store_field a k s) a ps)"
proof (induction ps arbitrary: a)
  case (Cons p ps)
  obtain k s where p: "p = (k, s)" by fastforce
  have "split_field (field_text p) = (percent_text uri_plain k, percent_text uri_plain s)"
    using split_field_snoc(4) [of "percent_text uri_plain k" "percent_text uri_plain s"] uri.no_separators [of 61 k] p by (simp add: field_text_def)
  then show ?case using Cons p plus_to_none [OF field_text_units(1)] uri.decode_text [of k] uri.decode_text [of s]
    by (simp add: store_field_def)
qed simp

lemma store_group:
  assumes "k \<notin> fst ` set a" "k \<noteq> lit ''__proto__''"
  shows "map_of (foldl (\<lambda>a s. store_field a k s) a (s # ss)) = (map_of a)(k \<mapsto> if ss = [] then JStr s else JArr (map JStr (s # ss)))"
proof (induction ss rule: rev_induct)
  case Nil
  then show ?case using assms by (simp add: store_field_def own_put_def map_of_obj_put)
next
  case (snoc l ss)
  let ?a = "foldl (\<lambda>a s. store_field a k s) a (s # ss)"
  have m: "map_of ?a k = Some (if ss = [] then JStr s else JArr (map JStr (s # ss)))" using snoc by simp
  then have "k \<in> fst ` set ?a" by (metis map_of_eq_None_iff option.distinct(1))
  then have "foldl (\<lambda>a s. store_field a k s) a (s # ss @ [l]) = append_value ?a k l" by (simp add: store_field_def)
  then show ?case using m snoc by (cases "ss = []") (simp_all add: append_value_def map_of_obj_put fun_eq_iff)
qed

lemma store_all:
  "query_ok m \<Longrightarrow> fst ` set a \<inter> fst ` set m = {} \<Longrightarrow>
   map_of (foldl (\<lambda>a (k, s). store_field a k s) a (query_pairs m)) p = (case map_of m p of Some v \<Rightarrow> Some v | None \<Rightarrow> map_of a p)"
proof (induction m arbitrary: a)
  case (Cons kv m)
  obtain k v where kv: "kv = (k, v)" by fastforce
  have q: "k \<noteq> lit ''__proto__''" "query_value v" "query_ok m" "k \<notin> fst ` set m"
    using Cons.prems(1) kv by (auto simp: query_ok_def)
  obtain s ss where t: "value_texts v = s # ss" "v = (if ss = [] then JStr s else JArr (map JStr (s # ss)))"
    using value_texts_back [OF q(2)] by blast
  let ?a = "foldl (\<lambda>a s. store_field a k s) a (s # ss)"
  have m: "map_of ?a = (map_of a)(k \<mapsto> v)"
    using store_group [of k a s ss] q(1) Cons.prems(2) kv t(2) by auto
  have "fst ` set ?a = insert k (fst ` set a)"
    using arg_cong [OF m, of dom] by (simp add: dom_map_of_conv_image_fst del: foldl_Cons)
  then have d: "fst ` set ?a \<inter> fst ` set m = {}" using Cons.prems(2) q(4) kv by auto
  have "foldl (\<lambda>a (k, s). store_field a k s) a (map (Pair k) (s # ss)) = ?a" unfolding foldl_map by simp
  then have "foldl (\<lambda>a (k, s). store_field a k s) a (query_pairs (kv # m)) = foldl (\<lambda>a (k, s). store_field a k s) ?a (query_pairs m)"
    unfolding query_pairs_def using kv t(1) by (simp only: list.map concat.simps foldl_append prod.case)
  moreover have "map_of m k = None" using q(4) by (simp only: map_of_eq_None_iff) simp
  ultimately show ?case using Cons.IH [OF q(3) d] m kv by (auto split: option.splits)
qed (simp add: query_pairs_def)

section \<open>Properties\<close>



text \<open>
  C11: an object with distinct names other than \<open>__proto__\<close>, whose properties are strings or arrays of at least two strings, all
  without lone surrogates and with at most 1000 values, is written to the same query string by both modules, and both parsers read the object back, up to the
  order of its names.\<close>

theorem query_roundtrip:
  assumes "query_ok m" "length (query_pairs m) \<le> 1000"
  shows "\<exists>t a. es3_stringify (JObj m) [] = Inr t \<and> browser_stringify (JObj m) = Inr t
    \<and> es3_parse t None = Inr a \<and> browser_parse t None = a \<and> norm (JObj a) = norm (JObj m)"
proof -
  let ?ws = "map field_text (query_pairs m)" and ?a = "foldl (\<lambda>a (k, s). store_field a k s) [] (query_pairs m)"
  have wf: "\<forall>(k, s) \<in> set (query_pairs m). well_formed k \<and> well_formed s"
    using assms(1) value_texts_ok by (fastforce simp: query_pairs_def query_ok_def list_all_iff)
  have "\<forall>p. map_of ?a p = map_of m p" using store_all [OF assms(1), of "[]"] by (auto split: option.splits)
  then have n: "norm (JObj ?a) = norm (JObj m)" unfolding norm_obj_eq by simp
  have sp: "split_on 38 (query_text m) = ?ws" "field_seen (last ?ws)" "query_text m \<noteq> []" if "query_pairs m \<noteq> []"
  proof -
    have ws: "?ws \<noteq> []" using that by simp
    show s: "split_on 38 (query_text m) = ?ws" unfolding query_text_def using field_text_units(2) by (intro split_join [OF ws]) auto
    have "last ?ws \<in> field_text ` set (query_pairs m)" using last_in_set [OF ws] by simp
    then have f: "61 \<in> set (last ?ws)" using field_text_units(3) by auto
    then show "field_seen (last ?ws)" by (auto simp: field_seen_def)
    show "query_text m \<noteq> []" using f s ws by (auto simp: split_on_none)
  qed
  have p: "es3_parse (query_text m) None = Inr ?a"
  proof (cases "query_pairs m = []")
    case False
    then show ?thesis using sp [OF False] assms(2) es3_fields_texts [OF wf, of "[]"] by (simp add: es3_parse_def max_keys_def Let_def)
  qed (simp add: es3_parse_def query_text_def)
  moreover have "browser_parse (query_text m) None = ?a"
  proof (rule parsers_same [OF p])
    show "query_text m = [] \<or> field_seen (last (split_on 38 (query_text m)))"
      using sp by (cases "query_pairs m = []") (auto simp: query_text_def)
  qed
  ultimately show ?thesis using stringify_ok [OF assms(1)] n by blast
qed

theorem query_roundtrip_witness:
  "\<exists>t a. es3_stringify (JObj [(lit ''q'', JStr (lit ''1&2'')), (lit ''x'', JArr [JStr (lit ''a''), JStr []])]) [] = Inr t
     \<and> browser_stringify (JObj [(lit ''q'', JStr (lit ''1&2'')), (lit ''x'', JArr [JStr (lit ''a''), JStr []])]) = Inr t
     \<and> es3_parse t None = Inr a \<and> browser_parse t None = a
     \<and> norm (JObj a) = norm (JObj [(lit ''q'', JStr (lit ''1&2'')), (lit ''x'', JArr [JStr (lit ''a''), JStr []])])"
  by (rule query_roundtrip)
    (simp_all add: query_ok_def query_value_def query_pairs_def value_texts_def lit_def lead_unit_def trail_unit_def)

text \<open>
  C39: the scanning parser loses a name without value that ends with \<open>+\<close> at the end of the string, since nothing is left to
  be copied then; the splitting parser finds it.\<close>

theorem trailing_plus_lost:
  assumes "set c \<inter> {37, 38, 43, 61} = {}"
  shows "browser_parse (c @ [43]) None = [] \<and> es3_parse (c @ [43]) None = Inr [(c @ [32], JStr [])]"
proof -
  let ?e = "c @ [43]"
  have c: "38 \<notin> set c" "61 \<notin> set c" "43 \<notin> set c" "37 \<notin> set c" using assms by auto
  obtain st where st: "scan_loop ?e 0 (fresh_scan [] [] (Some 1000) 0) = scan_loop ?e (length c) st" "field_known ?e (length c) c st" "sc_a st = []"
    using scan_run [of 0 ?e c "[43]" "[]" "[]" "Some 1000"] c(1) by auto
  have g: "\<not> sc_g st" using st(2) c(2) by (auto simp: field_known_def Let_def split: prod.splits)
  have l: "length c < length ?e" "?e ! length c = 43" by (simp_all add: nth_append)
  let ?st = "scan_unit ?e (length c) 43 st"
  have "scan_loop ?e (length c) st = scan_loop ?e (length c + 1) ?st" using scan_step [OF l(1)] l(2) by simp
  then have "scan_loop ?e (length c) st = ?st" by (simp add: scan_loop.simps [of ?e "Suc (length c)"])
  moreover have "sc_v ?st = length ?e" "\<not> sc_g ?st" "sc_a ?st = []"
    using g st(3) by (simp_all add: scan_frame) (simp_all add: scan_unit_def scan_plus_def split: prod.splits)
  ultimately have "browser_parse ?e None = []" using st(1) by (simp add: browser_finish max_keys_def finish_def)
  moreover have "es3_parse ?e None = Inr [(c @ [32], JStr [])]"
  proof -
    have p: "plus_to (lit ''%20'') ?e = c @ lit ''%20''" using c(3) by (simp add: plus_to_snoc plus_to_none)
    have "61 \<notin> set (c @ lit ''%20'')" using c(2) by (auto simp: lit_def)
    then have s: "split_field (c @ lit ''%20'') = (c @ lit ''%20'', [])" by (rule split_field_snoc(3))
    have "decodeURIComponent (c @ lit ''%20'') = Some (c @ [32])"
      using c(4) by (induction c) (auto simp: lit_def hex_digit_def leading_ones_def)
    moreover have "c @ [32] \<noteq> lit ''__proto__''" by (auto simp: lit_def append_eq_Cons_conv)
    moreover have "split_on 38 ?e = [?e]" using c(1) by (simp add: split_on_none)
    ultimately show ?thesis using s p by (simp add: es3_parse_def max_keys_def own_put_def obj_put_def split: option.splits)
  qed
  ultimately show ?thesis ..
qed

theorem trailing_plus_lost_witness:
  "browser_parse (lit ''flag'' @ [43]) None = [] \<and> es3_parse (lit ''flag'' @ [43]) None = Inr [(lit ''flag'' @ [32], JStr [])]"
  by (rule trailing_plus_lost) (simp add: lit_def)

end
