(* ===== verification/Immutable_List.thy ===== *)
theory Immutable_List
  imports JS_Prelude
begin

text \<open>
  \<open>List\<close> of immutable.js: a trie whose nodes have up to 32 places, and a tail node with the last places. A list is the range from
  \<open>_origin\<close> to \<open>_capacity\<close> of the positions of the trie, so that places can be added and dropped at both ends.

  A level of the code is five times a height here, \<open>i >>> level & 31\<close> is \<open>place\<close> of that height and \<open>1 << level\<close> a power
  of 32. This is so up to the level 30 and for positions below \<open>2 ^ 31\<close>; the predicate \<open>in_range\<close> says that a list is within these
  limits and \<open>op_fits\<close> that an operation keeps them, and what is shown of the operations is shown within them. The
  arguments of \<open>setListBounds\<close> are converted to 32 bits as in the code.

  Nodes are copied before they are changed, unless the transaction under way made them, so they are values here.
\<close>

section \<open>Nodes\<close>

text \<open>What a place of an array may hold; a node is its array, and a missing node is \<open>Undef\<close>.\<close>

datatype 'v cell = Undef | Val 'v | Node "'v cell list"

fun arr :: "'v cell \<Rightarrow> 'v cell list" where
  "arr (Node xs) = xs"
| "arr _ = []"

text \<open>Reading and assigning a place of an array: it ends up long enough.\<close>

definition js_nth :: "'v cell list \<Rightarrow> nat \<Rightarrow> 'v cell" where
  "js_nth xs i = (if i < length xs then xs ! i else Undef)"

definition js_set :: "'v cell list \<Rightarrow> nat \<Rightarrow> 'v cell \<Rightarrow> 'v cell list" where
  "js_set xs i v = (if i < length xs then xs[i := v] else xs @ replicate (i - length xs) Undef @ [v])"

definition place :: "nat \<Rightarrow> nat \<Rightarrow> nat" where
  "place h i = i div 32 ^ h mod 32"

text \<open>\<open>updateVNode\<close> (\<open>xt\<close>): only the copies along the path are new.\<close>

fun updateVNode :: "nat \<Rightarrow> 'v cell \<Rightarrow> nat \<Rightarrow> 'v cell \<Rightarrow> 'v cell" where
  "updateVNode 0 e r v =
     (let u = place 0 r; s = u < length (arr e)
      in if \<not> s \<and> v = Undef then e
         else if s \<and> arr e ! u = v then e
         else if v = Undef \<and> u = length (arr e) - 1 then Node (butlast (arr e))
         else Node (js_set (arr e) u v))"
| "updateVNode (Suc h) e r v =
     (let u = place (Suc h) r
      in if \<not> u < length (arr e) \<and> v = Undef then e
         else (let l = js_nth (arr e) u; c = updateVNode h l r v
               in if c = l then e else Node (js_set (arr e) u c)))"

text \<open>\<open>removeBefore\<close> and \<open>removeAfter\<close>. The first test of \<open>removeBefore\<close> compares the index with the level and not with the size of a subtree.\<close>

fun removeBefore :: "nat \<Rightarrow> nat \<Rightarrow> 'v cell \<Rightarrow> 'v cell" where
  "removeBefore h n e =
     (if (if n = 5 * h then True else arr e = []) then e
      else (let r = place h n
            in if length (arr e) \<le> r then Node []
               else (let a = arr e ! r;
                         c = (case h of 0 \<Rightarrow> Undef | Suc h' \<Rightarrow> if a = Undef then Undef else removeBefore h' n a)
                     in if h > 0 \<and> c = a \<and> r = 0 then e
                        else if r = 0 \<and> c = Undef then e
                        else (let u = replicate r Undef @ drop r (arr e)
                              in Node (if c = Undef then u else u[r := c])))))"

fun removeAfter :: "nat \<Rightarrow> nat \<Rightarrow> 'v cell \<Rightarrow> 'v cell" where
  "removeAfter h n e =
     (if n = (if h = 0 then 0 else 32 ^ h) \<or> arr e = [] then e
      else (let r = place h (n - 1)
            in if length (arr e) \<le> r then e
               else (let a = arr e ! r;
                         c = (case h of 0 \<Rightarrow> Undef | Suc h' \<Rightarrow> if a = Undef then Undef else removeAfter h' n a)
                     in if h > 0 \<and> c = a \<and> r = length (arr e) - 1 then e
                        else (let u = take (r + 1) (arr e)
                              in Node (if c = Undef then u else u[r := c])))))"

declare removeBefore.simps [simp del] removeAfter.simps [simp del]

section \<open>Lists\<close>

record 'v ilist =
  li_origin :: nat
  li_capacity :: nat
  li_height :: nat
  li_root :: "'v cell"
  li_tail :: "'v cell"

definition li_size :: "'v ilist \<Rightarrow> nat" where
  "li_size e = li_capacity e - li_origin e"

definition emptyList :: "'v ilist" where
  "emptyList = \<lparr>li_origin = 0, li_capacity = 0, li_height = 1, li_root = Undef, li_tail = Undef\<rparr>"

definition list_clear :: "'v ilist \<Rightarrow> 'v ilist" where
  "list_clear e = (if li_size e = 0 then e else emptyList)"

definition tailOffset :: "nat \<Rightarrow> nat" where
  "tailOffset c = (if c < 32 then 0 else (c - 1) div 32 * 32)"

text \<open>\<open>listNodeFor\<close> (\<open>Ct\<close>): the node with the places of position \<open>t\<close>.\<close>

fun node_for :: "nat \<Rightarrow> 'v cell \<Rightarrow> nat \<Rightarrow> 'v cell" where
  "node_for 0 n t = n"
| "node_for (Suc h) n t = (if n = Undef then Undef else node_for h (js_nth (arr n) (place (Suc h) t)) t)"

definition listNodeFor :: "'v ilist \<Rightarrow> nat \<Rightarrow> 'v cell" where
  "listNodeFor e t =
     (if tailOffset (li_capacity e) \<le> t then li_tail e
      else if t < 32 ^ (li_height e + 1) then node_for (li_height e) (li_root e) t
      else Undef)"

text \<open>\<open>wrapIndex\<close> (\<open>k\<close>) for numbers, and \<open>get\<close>.\<close>

definition wrapIndex :: "'v ilist \<Rightarrow> int \<Rightarrow> int" where
  "wrapIndex e t = (if t < 0 then int (li_size e) + t else t)"

definition list_get :: "'v ilist \<Rightarrow> int \<Rightarrow> 'v cell \<Rightarrow> 'v cell" where
  "list_get e i t =
     (let i = wrapIndex e i
      in if 0 \<le> i \<and> i < int (li_size e)
         then (let p = nat i + li_origin e in js_nth (arr (listNodeFor e p)) (p mod 32))
         else t)"

section \<open>Changing the bounds\<close>

text \<open>A root above the old one, which has positions in front of the old ones (\<open>a + c < 0\<close>) or behind them.\<close>

function raise_front :: "int \<Rightarrow> nat \<Rightarrow> 'v cell \<Rightarrow> nat \<Rightarrow> nat \<times> 'v cell \<times> nat" where
  "raise_front a h l c =
     (if a + int c < 0
      then raise_front a (h + 1) (Node (if arr l = [] then [] else [Undef, l])) (c + 32 ^ (h + 1))
      else (h, l, c))"
  by pat_completeness auto
termination
  by (relation "measure (\<lambda>(a, h, l, c). nat (- (a + int c)))") auto

function raise_back :: "nat \<Rightarrow> nat \<Rightarrow> 'v cell \<Rightarrow> nat \<times> 'v cell" where
  "raise_back p h l =
     (if 32 ^ (h + 1) \<le> p then raise_back p (h + 1) (Node (if arr l = [] then [] else [l])) else (h, l))"
  by pat_completeness auto
termination
  by (relation "measure (\<lambda>(p, h, l). Suc p - 32 ^ (h + 1))") (auto simp: less_Suc_eq_le intro!: diff_less_mono2)

declare raise_front.simps [simp del] raise_back.simps [simp del]

text \<open>The old tail becomes a node of the trie; missing nodes on the path are made.\<close>

fun put_leaf :: "nat \<Rightarrow> 'v cell \<Rightarrow> nat \<Rightarrow> 'v cell \<Rightarrow> 'v cell" where
  "put_leaf 0 l f d = d"
| "put_leaf (Suc h) l f d = Node (js_set (arr l) (place (Suc h) f) (put_leaf h (js_nth (arr l) (place (Suc h) f)) f d))"

text \<open>
  The root goes down as long as the first and the last position of the trie are in the same child. The test \<open>_ !== p >>> s & g\<close> is
  \<open>(_ !== (p >>> s)) & g\<close>, so that the digit of one position is compared with all higher digits of the other, and
  the root may stay higher than necessary. The code would go below a leaf as well; it never gets there, since the two
  positions are in different leaves (\<open>shrink_root_look\<close> has a height of at least 1).
\<close>

fun shrink_root :: "nat \<Rightarrow> 'v cell \<Rightarrow> nat \<Rightarrow> nat \<Rightarrow> nat \<Rightarrow> nat \<times> 'v cell \<times> nat" where
  "shrink_root 0 l a p c = (0, l, c)"
| "shrink_root (Suc h) l a p c =
     (if l = Undef then (Suc h, l, c)
      else (let x = place (Suc h) a
            in if x \<noteq> p div 32 ^ Suc h then (Suc h, l, c)
               else shrink_root h (js_nth (arr l) x) a p (c + 32 ^ Suc h * x)))"

definition new_tail :: "'v ilist \<Rightarrow> nat \<Rightarrow> nat \<Rightarrow> nat \<Rightarrow> 'v cell" where
  "new_tail e f p u = (if p < f then listNodeFor e (u - 1) else if f < p then Node [] else li_tail e)"

text \<open>The last part: what is before \<open>a\<close> or behind the tail offset \<open>p\<close> is cut off.\<close>

definition trim_bounds :: "nat \<Rightarrow> 'v cell \<Rightarrow> 'v cell \<Rightarrow> nat \<Rightarrow> nat \<Rightarrow> nat \<Rightarrow> nat \<Rightarrow> nat \<Rightarrow> 'v ilist" where
  "trim_bounds h l w o' a f p u =
     (if p \<le> a
      then \<lparr>li_origin = a - p, li_capacity = u - p, li_height = 1, li_root = Undef,
            li_tail = (if w \<noteq> Undef then removeBefore 0 (a - p) w else w)\<rparr>
      else if o' < a \<or> p < f
      then (let (h, l, c) = shrink_root h l a p 0;
                l = (if l \<noteq> Undef \<and> o' < a then removeBefore h (a - c) l else l);
                l = (if l \<noteq> Undef \<and> p < f then removeAfter h (p - c) l else l)
            in \<lparr>li_origin = a - c, li_capacity = u - c, li_height = h, li_root = l, li_tail = w\<rparr>)
      else \<lparr>li_origin = a, li_capacity = u, li_height = h, li_root = l, li_tail = w\<rparr>)"

text \<open>\<open>setListBounds\<close> (\<open>kt\<close>) behind its first line; the third argument may be \<open>undefined\<close>.\<close>

definition set_bounds :: "'v ilist \<Rightarrow> int \<Rightarrow> int option \<Rightarrow> 'v ilist" where
  "set_bounds e t n =
     (let o0 = int (li_origin e); i0 = int (li_capacity e);
          a0 = o0 + t;
          u0 = (case n of None \<Rightarrow> i0 | Some n \<Rightarrow> if n < 0 then i0 + n else o0 + n)
      in if a0 = o0 \<and> u0 = i0 then e
         else if u0 \<le> a0 then list_clear e
         else (let (h, l, c) = raise_front a0 (li_height e) (li_root e) 0;
                   a = nat (a0 + int c); o' = li_origin e + c; u = nat (u0 + int c); i = li_capacity e + c;
                   f = tailOffset i; p = tailOffset u;
                   (h, l) = raise_back p h l;
                   d = li_tail e;
                   w = new_tail e f p u;
                   l = (if d \<noteq> Undef \<and> f < p \<and> a < i \<and> arr d \<noteq> [] then put_leaf h l f d else l);
                   w = (if u < i \<and> w \<noteq> Undef then removeAfter 0 u w else w)
               in trim_bounds h l w o' a f p u))"

definition setListBounds :: "'v ilist \<Rightarrow> int \<Rightarrow> int option \<Rightarrow> 'v ilist" where
  "setListBounds e t n = set_bounds e (ToInt32 t) (map_option ToInt32 n)"

section \<open>Operations\<close>

text \<open>A place in range is set.\<close>

definition set_place :: "'v ilist \<Rightarrow> nat \<Rightarrow> 'v cell \<Rightarrow> 'v ilist" where
  "set_place e i v =
     (let p = i + li_origin e
      in if tailOffset (li_capacity e) \<le> p then e\<lparr>li_tail := updateVNode 0 (li_tail e) p v\<rparr>
         else e\<lparr>li_root := updateVNode (li_height e) (li_root e) p v\<rparr>)"

text \<open>
  For other indices the bounds are moved and \<open>set\<close> is called again. If the new bounds do not include the index, because they are
  converted to 32 bits, the calls never end: the result is \<open>None\<close>.
\<close>

definition list_set :: "'v ilist \<Rightarrow> int \<Rightarrow> 'v cell \<Rightarrow> 'v ilist option" where
  "list_set e i v =
     (let i = wrapIndex e i
      in if int (li_size e) \<le> i
         then (let e = setListBounds e 0 (Some (i + 1)) in if i < int (li_size e) then Some (set_place e (nat i) v) else None)
         else if i < 0
         then (let e = setListBounds e i None in Some (set_place (if li_size e = 0 then setListBounds e 0 (Some 1) else e) 0 v))
         else Some (set_place e (nat i) v))"

fun set_all :: "'v ilist \<Rightarrow> nat \<Rightarrow> 'v cell list \<Rightarrow> 'v ilist option" where
  "set_all e i [] = Some e"
| "set_all e i (v # vs) = Option.bind (list_set e (int i) v) (\<lambda>e. set_all e (i + 1) vs)"

definition list_push :: "'v ilist \<Rightarrow> 'v cell list \<Rightarrow> 'v ilist option" where
  "list_push e vs = set_all (setListBounds e 0 (Some (int (li_size e + length vs)))) (li_size e) vs"

definition list_pop :: "'v ilist \<Rightarrow> 'v ilist" where
  "list_pop e = setListBounds e 0 (Some (-1))"

definition list_unshift :: "'v ilist \<Rightarrow> 'v cell list \<Rightarrow> 'v ilist option" where
  "list_unshift e vs = set_all (setListBounds e (- int (length vs)) None) 0 vs"

definition list_shift :: "'v ilist \<Rightarrow> 'v ilist" where
  "list_shift e = setListBounds e 1 None"

definition list_setSize :: "'v ilist \<Rightarrow> int \<Rightarrow> 'v ilist" where
  "list_setSize e n = setListBounds e 0 (Some n)"

text \<open>\<open>resolveBegin\<close> and \<open>resolveEnd\<close>, with \<open>None\<close> for \<open>undefined\<close>.\<close>

definition resolveIndex :: "int option \<Rightarrow> nat \<Rightarrow> int \<Rightarrow> int" where
  "resolveIndex e t n = (case e of None \<Rightarrow> n | Some e \<Rightarrow> if e < 0 then max 0 (int t + e) else min (int t) e)"

definition wholeSlice :: "int option \<Rightarrow> int option \<Rightarrow> nat \<Rightarrow> bool" where
  "wholeSlice e t n \<longleftrightarrow>
     (case e of None \<Rightarrow> False | Some e \<Rightarrow> e = 0 \<or> e \<le> - int n) \<and> (case t of None \<Rightarrow> True | Some t \<Rightarrow> int n \<le> t)"

definition list_slice :: "'v ilist \<Rightarrow> int option \<Rightarrow> int option \<Rightarrow> 'v ilist" where
  "list_slice e b t =
     (let n = li_size e
      in if wholeSlice b t n then e else setListBounds e (resolveIndex b n 0) (Some (resolveIndex t n (int n))))"

text \<open>The constructor, for an iterable with known values.\<close>

definition newList :: "'v cell list \<Rightarrow> 'v ilist option" where
  "newList vs =
     (let r = length vs
      in if r = 0 then Some emptyList
         else if r < 32 then Some \<lparr>li_origin = 0, li_capacity = r, li_height = 1, li_root = Undef, li_tail = Node vs\<rparr>
         else set_all (list_setSize emptyList (int r)) 0 vs)"

section \<open>Iteration\<close>

text \<open>\<open>iterateList\<close> (\<open>_t\<close>): what the generator returns, call by call.\<close>

definition leaf_values :: "'v ilist \<Rightarrow> 'v cell \<Rightarrow> nat \<Rightarrow> 'v cell list" where
  "leaf_values e n x =
     (let u = (if x = tailOffset (li_capacity e) then arr (li_tail e) else arr n)
      in map (js_nth u) [(if li_origin e < x then 0 else li_origin e - x)..<min 32 (li_capacity e - x)])"

fun tree_values :: "'v ilist \<Rightarrow> bool \<Rightarrow> nat \<Rightarrow> 'v cell \<Rightarrow> nat \<Rightarrow> 'v cell list" where
  "tree_values e back 0 n x = (if back then rev else id) (leaf_values e n x)"
| "tree_values e back (Suc h) n x =
     (let l = (if li_origin e < x then 0 else (li_origin e - x) div 32 ^ Suc h);
          c = min 32 (1 + (li_capacity e - x) div 32 ^ Suc h)
      in concat (map (\<lambda>k. tree_values e back h (js_nth (arr n) k) (x + k * 32 ^ Suc h)) ((if back then rev else id) [l..<c])))"

definition list_values :: "'v ilist \<Rightarrow> bool \<Rightarrow> 'v cell list" where
  "list_values e back = tree_values e back (li_height e) (li_root e) 0"

section \<open>The abstract list\<close>

text \<open>The operations, and what they do to a list of values; \<open>None\<close> for those that leave gaps.\<close>

datatype 'v list_op =
  Op_set int 'v | Op_push "'v list" | Op_pop | Op_unshift "'v list" | Op_shift
  | Op_slice "int option" "int option" | Op_setSize int | Op_clear

fun list_step :: "'v list_op \<Rightarrow> 'v ilist \<Rightarrow> 'v ilist option" where
  "list_step (Op_set i v) e = list_set e i (Val v)"
| "list_step (Op_push vs) e = list_push e (map Val vs)"
| "list_step Op_pop e = Some (list_pop e)"
| "list_step (Op_unshift vs) e = list_unshift e (map Val vs)"
| "list_step Op_shift e = Some (list_shift e)"
| "list_step (Op_slice b t) e = Some (list_slice e b t)"
| "list_step (Op_setSize n) e = Some (list_setSize e n)"
| "list_step Op_clear e = Some (list_clear e)"

definition clamp_index :: "nat \<Rightarrow> int \<Rightarrow> nat" where
  "clamp_index n i = nat (min (int n) (if i < 0 then int n + i else i))"

fun list_spec :: "'v list_op \<Rightarrow> 'v list \<Rightarrow> 'v list option" where
  "list_spec (Op_set i v) xs =
     (let j = (if i < 0 then int (length xs) + i else i)
      in if j = -1 then Some (v # xs)
         else if 0 \<le> j \<and> j < int (length xs) then Some (xs[nat j := v])
         else if j = int (length xs) then Some (xs @ [v])
         else None)"
| "list_spec (Op_push vs) xs = Some (xs @ vs)"
| "list_spec Op_pop xs = Some (butlast xs)"
| "list_spec (Op_unshift vs) xs = Some (vs @ xs)"
| "list_spec Op_shift xs = Some (tl xs)"
| "list_spec (Op_slice b t) xs =
     (let n = length xs
      in Some (drop (case b of None \<Rightarrow> 0 | Some b \<Rightarrow> clamp_index n b) (take (case t of None \<Rightarrow> n | Some t \<Rightarrow> clamp_index n t) xs)))"
| "list_spec (Op_setSize n) xs = (if int (length xs) < n then None else Some (take (clamp_index (length xs) n) xs))"
| "list_spec Op_clear xs = Some []"

text \<open>The size after an operation on a list of \<open>n\<close> places.\<close>

fun size_after :: "nat \<Rightarrow> 'v list_op \<Rightarrow> int" where
  "size_after n (Op_set i v) = (let j = (if i < 0 then int n + i else i) in max (int n) (j + 1) - min 0 j)"
| "size_after n (Op_push vs) = int (n + length vs)"
| "size_after n Op_pop = int (n - 1)"
| "size_after n (Op_unshift vs) = int (n + length vs)"
| "size_after n Op_shift = int (n - 1)"
| "size_after n (Op_slice b t) =
     int ((case t of None \<Rightarrow> n | Some t \<Rightarrow> clamp_index n t) - (case b of None \<Rightarrow> 0 | Some b \<Rightarrow> clamp_index n b))"
| "size_after n (Op_setSize m) = (if m < 0 then max 0 (int n + m) else m)"
| "size_after n Op_clear = 0"

text \<open>The limits of 32 bit shifts: of a list, of new bounds, of an operation. They concern operations that add places only.\<close>

definition in_range :: "'v ilist \<Rightarrow> bool" where
  "in_range e \<longleftrightarrow> li_height e \<le> 5 \<and> li_capacity e \<le> 2 ^ 30"

definition bounds_fit :: "'v ilist \<Rightarrow> int \<Rightarrow> int \<Rightarrow> bool" where
  "bounds_fit e t u \<longleftrightarrow>
     (let a = int (li_origin e) + t; b = int (li_origin e) + u
      in if 0 \<le> a then b \<le> 2 ^ 30 else li_height e \<le> 4 \<and> - (2 ^ 25) \<le> a \<and> b \<le> 2 ^ 29)"

fun op_fits :: "'v list_op \<Rightarrow> 'v ilist \<Rightarrow> bool" where
  "op_fits (Op_set i v) e \<longleftrightarrow>
     (let n = int (li_size e); j = (if i < 0 then n + i else i)
      in if n \<le> j then bounds_fit e 0 (j + 1) else j < 0 \<longrightarrow> bounds_fit e j n)"
| "op_fits (Op_push vs) e \<longleftrightarrow> bounds_fit e 0 (int (li_size e + length vs))"
| "op_fits (Op_unshift vs) e \<longleftrightarrow> bounds_fit e (- int (length vs)) (int (li_size e))"
| "op_fits (Op_setSize n) e \<longleftrightarrow> - (2 ^ 31) \<le> n \<and> bounds_fit e 0 n"
| "op_fits _ e \<longleftrightarrow> True"

text \<open>A program of list operations, started on the list of an array; \<open>None\<close> if a call does not return.\<close>

definition list_run :: "'v list \<Rightarrow> 'v list_op list \<Rightarrow> 'v ilist option" where
  "list_run vs ops = foldl (\<lambda>r op. Option.bind r (list_step op)) (newList (map Val vs)) ops"

text \<open>It stays within the limits.\<close>

fun steps_fit :: "'v ilist option \<Rightarrow> 'v list_op list \<Rightarrow> bool" where
  "steps_fit r [] \<longleftrightarrow> True"
| "steps_fit r (op # ops) \<longleftrightarrow> (case r of None \<Rightarrow> True | Some e \<Rightarrow> op_fits op e \<and> steps_fit (list_step op e) ops)"

definition run_fits :: "'v list \<Rightarrow> 'v list_op list \<Rightarrow> bool" where
  "run_fits vs ops \<longleftrightarrow> int (length vs) \<le> 2 ^ 30 \<and> steps_fit (newList (map Val vs)) ops"

definition spec_run :: "'v list \<Rightarrow> 'v list_op list \<Rightarrow> 'v list option" where
  "spec_run vs ops = foldl (\<lambda>r op. Option.bind r (list_spec op)) (Some vs) ops"

end
