(* ===== verification/Immutable_List_Correct.thy ===== *)
theory Immutable_List_Correct
  imports Immutable_List
begin

text \<open>
  Correctness of \<open>Immutable_List\<close>. The value at a position of a trie is \<open>look\<close>; each part of \<open>setListBounds\<close> is described by
  the positions at which it keeps the values. \<open>held\<close> relates a list within the limits of 32 bits to the sequence of its values;
  the locale \<open>step_simulation\<close> carries the operations over to sequences of them. \<open>li_wf\<close> is the shape of a list, with or without gaps.
\<close>

section \<open>Looking up a position\<close>

lemma js_nth_set [simp]: "js_nth (js_set xs i v) j = (if i = j then v else js_nth xs j)"
  by (auto simp: js_nth_def js_set_def nth_append nth_list_update)

lemma js_nth_Nil [simp]: "js_nth [] j = Undef"
  by (simp add: js_nth_def)

lemma js_nth_butlast: "js_nth (butlast xs) j = (if j = length xs - 1 then Undef else js_nth xs j)"
  by (auto simp: js_nth_def nth_butlast)

lemma place_lt [simp]: "place h i < 32"
  by (simp add: place_def)

lemma place_0 [simp]: "place 0 i = i mod 32"
  by (simp add: place_def)

text \<open>The value at a position, seen from a node of height \<open>h\<close>; only the part of the position below that node counts.\<close>

fun look :: "nat \<Rightarrow> 'v cell \<Rightarrow> nat \<Rightarrow> 'v cell" where
  "look 0 n i = js_nth (arr n) (i mod 32)"
| "look (Suc h) n i = look h (js_nth (arr n) (place (Suc h) i)) i"

lemma look_empty: "arr n = [] \<Longrightarrow> look h n i = Undef"
  by (induction h arbitrary: n) simp_all

lemma look_Undef [simp]: "look h Undef i = Undef" "look h (Node []) i = Undef"
  by (simp_all add: look_empty)

lemma node_for_look: "js_nth (arr (node_for h n t)) (t mod 32) = look h n t"
  by (induction h arbitrary: n) simp_all

lemma div_split: "r < m \<Longrightarrow> (m * q + r) div m = (q :: nat)"
  by simp

lemma place_mod: "place h (i mod 32 ^ Suc k) = place h i" if le: "h \<le> k"
proof -
  obtain d where "k = h + d" using le_Suc_ex [OF le] by blast
  then have k: "(32 :: nat) ^ Suc k = 32 ^ h * 32 ^ Suc d" by (simp only: power_add add_Suc_right [symmetric])
  have "i mod 32 ^ Suc k div 32 ^ h = i div 32 ^ h mod 32 ^ Suc d"
    unfolding k mod_mult2_eq by (rule div_split) simp
  moreover have "i div 32 ^ h mod 32 ^ Suc d mod 32 = i div 32 ^ h mod 32" by (rule mod_mod_cancel) simp
  ultimately show ?thesis by (simp only: place_def)
qed

lemma look_mod: "look h n (i mod 32 ^ Suc k) = look h n i" if "h \<le> k"
  using that
proof (induction h arbitrary: n)
  case 0
  have "i mod 32 ^ Suc k mod 32 = i mod 32" by (rule mod_mod_cancel) simp
  then show ?case by simp
next
  case (Suc h)
  then show ?case using place_mod [of "Suc h" k i] by simp
qed

lemma look_shift: "look h n (i + k * 32 ^ Suc h) = look h n i"
  using look_mod [of h h n "i + k * 32 ^ Suc h"] look_mod [of h h n i] by simp

lemma place_split: "i mod 32 ^ Suc h = place h i * 32 ^ h + i mod 32 ^ h"
proof -
  have "i mod (32 ^ h * 32) = 32 ^ h * (i div 32 ^ h mod 32) + i mod 32 ^ h" by (rule mod_mult2_eq)
  then show ?thesis by (simp add: place_def mult.commute)
qed

text \<open>Comparing positions below a node: first the places, then the rest.\<close>

lemma split_less: "(a :: nat) * m + b \<le> c * m + d \<longleftrightarrow> a < c \<or> a = c \<and> b \<le> d" if "b < m" "d < m"
proof -
  consider "a < c" | "a = c" | "c < a" by linarith
  then show ?thesis
  proof cases
    case 1
    then have "Suc a * m \<le> c * m" by (intro mult_right_mono) simp_all
    then show ?thesis using that 1 by simp
  next
    case 3
    then have "Suc c * m \<le> a * m" by (intro mult_right_mono) simp_all
    then show ?thesis using that 3 by simp
  qed simp
qed

lemma below_le: "i mod 32 ^ Suc h \<le> j mod 32 ^ Suc h \<longleftrightarrow> place h i < place h j \<or> place h i = place h j \<and> i mod 32 ^ h \<le> j mod 32 ^ h"
  unfolding place_split [of i h] place_split [of j h] by (rule split_less) simp_all

lemma split_eq: "(a :: nat) * m + b = c * m + d \<longleftrightarrow> a = c \<and> b = d" if "b < m" "d < m"
  using split_less [OF that, of a c] split_less [OF that(2,1), of c a] by auto

lemma below_eq: "i mod 32 ^ Suc h = j mod 32 ^ Suc h \<longleftrightarrow> place h i = place h j \<and> i mod 32 ^ h = j mod 32 ^ h"
  unfolding place_split [of i h] place_split [of j h] by (rule split_eq) simp_all

section \<open>Operations on nodes\<close>

lemma update_look:
  "look h (updateVNode h e r v) i = (if i mod 32 ^ Suc h = r mod 32 ^ Suc h then v else look h e i)"
proof (induction h arbitrary: e)
  case 0
  show ?case by (cases "arr e = []") (auto simp: Let_def js_nth_butlast, auto simp: js_nth_def)
next
  case (Suc h)
  let ?u = "place (Suc h) r" and ?l = "js_nth (arr e) (place (Suc h) r)"
  have eq: "i mod 32 ^ Suc (Suc h) = r mod 32 ^ Suc (Suc h) \<longleftrightarrow> place (Suc h) i = ?u \<and> i mod 32 ^ Suc h = r mod 32 ^ Suc h"
    by (rule below_eq)
  consider "\<not> ?u < length (arr e)" "v = Undef" | "?u < length (arr e) \<or> v \<noteq> Undef" "updateVNode h ?l r v = ?l"
    | "?u < length (arr e) \<or> v \<noteq> Undef" "updateVNode h ?l r v \<noteq> ?l" by blast
  then show ?case
  proof cases
    case 1
    then have "?l = Undef" by (simp add: js_nth_def)
    then show ?thesis unfolding eq using 1 by auto
  next
    case 2
    then have "updateVNode (Suc h) e r v = e" by (auto simp: Let_def)
    then show ?thesis unfolding eq using Suc [of ?l] 2(2) by auto
  next
    case 3
    then have "updateVNode (Suc h) e r v = Node (js_set (arr e) ?u (updateVNode h ?l r v))" by (auto simp: Let_def)
    then show ?thesis unfolding eq using Suc [of ?l] by auto
  qed
qed

lemma js_nth_drop_before: "r \<le> j \<Longrightarrow> r \<le> length xs \<Longrightarrow> js_nth (replicate r Undef @ drop r xs) j = js_nth xs j"
  by (auto simp: js_nth_def nth_append)

lemma js_nth_take: "j \<le> r \<Longrightarrow> js_nth (take (r + 1) xs) j = js_nth xs j"
  by (auto simp: js_nth_def)

lemma js_nth_update: "r < length xs \<Longrightarrow> js_nth (xs[r := c]) j = (if j = r then c else js_nth xs j)"
  by (auto simp: js_nth_def)

lemma removeBefore_Suc:
  assumes "r = place (Suc h) n" "c = (if arr e ! r = Undef then Undef else removeBefore h n (arr e ! r))"
  shows "removeBefore (Suc h) n e =
    (if n = 5 * Suc h \<or> arr e = [] then e
     else if length (arr e) \<le> r then Node []
     else if r = 0 \<and> (c = arr e ! r \<or> c = Undef) then e
     else let u = replicate r Undef @ drop r (arr e) in Node (if c = Undef then u else u[r := c]))"
  unfolding removeBefore.simps [of "Suc h"] Let_def nat.case assms(1) [symmetric] assms(2) [symmetric] by auto

lemma removeAfter_Suc:
  assumes "r = place (Suc h) (n - 1)" "c = (if arr e ! r = Undef then Undef else removeAfter h n (arr e ! r))"
  shows "removeAfter (Suc h) n e =
    (if n = 32 ^ Suc h \<or> arr e = [] \<or> length (arr e) \<le> r \<or> c = arr e ! r \<and> r = length (arr e) - 1 then e
     else let u = take (r + 1) (arr e) in Node (if c = Undef then u else u[r := c]))"
  unfolding removeAfter.simps [of "Suc h"] Let_def nat.case assms(1) [symmetric] assms(2) [symmetric] by auto

lemma removeBefore_look:
  "n mod 32 ^ Suc h \<le> i mod 32 ^ Suc h \<Longrightarrow> look h (removeBefore h n e) i = look h e i"
proof (induction h arbitrary: e)
  case 0
  then show ?case by (auto simp: removeBefore.simps [of 0] Let_def js_nth_drop_before) (auto simp: js_nth_def)
next
  case (Suc h)
  let ?r = "place (Suc h) n" and ?j = "place (Suc h) i"
  have le: "?r < ?j \<or> ?r = ?j \<and> n mod 32 ^ Suc h \<le> i mod 32 ^ Suc h" using Suc.prems unfolding below_le [of n "Suc h" i] .
  define c where "c = (if arr e ! ?r = Undef then Undef else removeBefore h n (arr e ! ?r))"
  have c: "?r = ?j \<Longrightarrow> look h c i = look h (arr e ! ?r) i" using le Suc.IH by (auto simp: c_def)
  note step = removeBefore_Suc [OF refl c_def]
  show ?case
  proof (cases "n = 5 * Suc h \<or> arr e = [] \<or> length (arr e) \<le> ?r \<or> ?r = 0 \<and> (c = arr e ! ?r \<or> c = Undef)")
    case True
    then have "removeBefore (Suc h) n e = e \<or> length (arr e) \<le> ?r \<and> removeBefore (Suc h) n e = Node []"
      unfolding step by (simp only: if_True if_False split: if_splits) auto
    then show ?thesis using le by (auto simp: js_nth_def)
  next
    case False
    let ?u = "replicate ?r Undef @ drop ?r (arr e)"
    have u: "removeBefore (Suc h) n e = Node (if c = Undef then ?u else ?u[?r := c])" and r: "?r < length (arr e)"
      using False unfolding step Let_def by auto
    have j: "js_nth ?u ?j = js_nth (arr e) ?j" using le r by (intro js_nth_drop_before) auto
    show ?thesis
    proof (cases "c = Undef \<or> ?r \<noteq> ?j")
      case True
      then have "js_nth (arr (removeBefore (Suc h) n e)) ?j = js_nth (arr e) ?j" unfolding u using j r by (auto simp: js_nth_update)
      then show ?thesis by simp
    next
      case False
      then have "js_nth (arr (removeBefore (Suc h) n e)) ?j = c" unfolding u using r by (auto simp: js_nth_update)
      then show ?thesis using c False r by (auto simp: js_nth_def)
    qed
  qed
qed

lemma removeAfter_look:
  "i mod 32 ^ Suc h \<le> (n - 1) mod 32 ^ Suc h \<Longrightarrow> look h (removeAfter h n e) i = look h e i"
proof (induction h arbitrary: e)
  case 0
  then show ?case by (auto simp: removeAfter.simps [of 0] Let_def js_nth_take simp del: One_nat_def)
next
  case (Suc h)
  let ?r = "place (Suc h) (n - 1)" and ?j = "place (Suc h) i"
  have le: "?j < ?r \<or> ?j = ?r \<and> i mod 32 ^ Suc h \<le> (n - 1) mod 32 ^ Suc h" using Suc.prems unfolding below_le [of i "Suc h" "n - 1"] .
  define c where "c = (if arr e ! ?r = Undef then Undef else removeAfter h n (arr e ! ?r))"
  have c: "?j = ?r \<Longrightarrow> look h c i = look h (arr e ! ?r) i" using le Suc.IH by (auto simp: c_def)
  note step = removeAfter_Suc [OF refl c_def]
  show ?case
  proof (cases "n = 32 ^ Suc h \<or> arr e = [] \<or> length (arr e) \<le> ?r \<or> c = arr e ! ?r \<and> ?r = length (arr e) - 1")
    case True
    then have "removeAfter (Suc h) n e = e"
      unfolding step by (rule if_P)
    then show ?thesis by simp
  next
    case False
    let ?u = "take (?r + 1) (arr e)"
    have u: "removeAfter (Suc h) n e = Node (if c = Undef then ?u else ?u[?r := c])" and r: "?r < length (arr e)"
      using False unfolding step Let_def by auto
    have j: "js_nth ?u ?j = js_nth (arr e) ?j" using le by (intro js_nth_take) auto
    show ?thesis
    proof (cases "c = Undef \<or> ?r \<noteq> ?j")
      case True
      then have "js_nth (arr (removeAfter (Suc h) n e)) ?j = js_nth (arr e) ?j" unfolding u using j r by (auto simp: js_nth_update)
      then show ?thesis by simp
    next
      case False
      then have "js_nth (arr (removeAfter (Suc h) n e)) ?j = c" unfolding u using r by (auto simp: js_nth_update)
      then show ?thesis using c False r by (auto simp: js_nth_def)
    qed
  qed
qed

section \<open>Moving the root\<close>

lemma pow_mono: "h \<le> k \<Longrightarrow> (32 :: nat) ^ h \<le> 32 ^ k"
  by (rule power_increasing) simp_all

lemma raise_front_look:
  "raise_front a h l c = (h', l', c') \<Longrightarrow>
   \<exists>k. c' = c + k \<and> 32 dvd k \<and> h \<le> h' \<and> 0 \<le> a + int c' \<and> (0 \<le> a + int c \<longrightarrow> k = 0 \<and> h' = h \<and> l' = l)
     \<and> (\<forall>i < 32 ^ Suc h. i + k < 32 ^ Suc h' \<and> look h' l' (i + k) = look h l i)"
proof (induction a h l c rule: raise_front.induct)
  case (1 a h l c)
  show ?case
  proof (cases "a + int c < 0")
    case False
    then have "h' = h" "l' = l" "c' = c" using 1(2) by (simp_all add: raise_front.simps)
    then show ?thesis using False by (intro exI [of _ 0]) simp
  next
    case True
    let ?l = "Node (if arr l = [] then [] else [Undef, l])" and ?m = "32 ^ Suc h :: nat"
    have "raise_front a (h + 1) ?l (c + 32 ^ (h + 1)) = (h', l', c')" using 1(2) True by (simp add: raise_front.simps [of a h l c])
    then obtain k where k: "c' = c + 32 ^ (h + 1) + k" "32 dvd k" "h + 1 \<le> h'" "0 \<le> a + int c'"
      "\<forall>i < 32 ^ Suc (h + 1). i + k < 32 ^ Suc h' \<and> look h' l' (i + k) = look (h + 1) ?l i"
      using 1(1) [OF True] by blast
    have lk: "i + ?m < 32 ^ Suc (h + 1) \<and> look (h + 1) ?l (i + ?m) = look h l i" if i: "i < ?m" for i
    proof -
      have d: "(i + ?m) div ?m = 1" using i by (simp only: div_add_self2) simp
      then have "place (Suc h) (i + ?m) = 1" unfolding place_def d by simp
      moreover have "look h l (i + ?m) = look h l i" using look_shift [of h l i 1] by simp
      ultimately have "look (Suc h) ?l (i + ?m) = look h l i"
        unfolding look.simps(2) by (cases "arr l = []") (simp_all add: js_nth_def look_empty del: power_Suc)
      then show ?thesis using i by simp
    qed
    have "\<forall>i < ?m. i + (?m + k) < 32 ^ Suc h' \<and> look h' l' (i + (?m + k)) = look h l i"
    proof (intro allI impI)
      fix i assume i: "i < ?m"
      show "i + (?m + k) < 32 ^ Suc h' \<and> look h' l' (i + (?m + k)) = look h l i"
        using k(5) [rule_format, of "i + ?m"] lk [OF i] by (simp only: add.assoc)
    qed
    moreover have "32 dvd ?m + k" using k(2) by simp
    moreover have "c' = c + (?m + k)" using k(1) by simp
    ultimately show ?thesis using k(3,4) True by (intro exI [of _ "?m + k"]) simp
  qed
qed

lemma raise_back_look:
  "raise_back p h l = (h', l') \<Longrightarrow>
   h \<le> h' \<and> p < 32 ^ Suc h' \<and> (\<forall>i < 32 ^ Suc h. look h' l' i = look h l i)"
proof (induction p h l rule: raise_back.induct)
  case (1 p h l)
  show ?case
  proof (cases "32 ^ (h + 1) \<le> p")
    case False
    then have "h' = h" "l' = l" using 1(2) by (simp_all add: raise_back.simps)
    then show ?thesis using False by simp
  next
    case True
    let ?l = "Node (if arr l = [] then [] else [l])"
    have "raise_back p (h + 1) ?l = (h', l')" using 1(2) True by (simp add: raise_back.simps [of p h l])
    then have k: "h + 1 \<le> h'" "p < 32 ^ Suc h'" "\<forall>i < 32 ^ Suc (h + 1). look h' l' i = look (h + 1) ?l i"
      using 1(1) [OF True] by blast+
    have "look h' l' i = look h l i" if i: "i < 32 ^ Suc h" for i
    proof -
      have "i < 32 ^ Suc (h + 1)" using i by simp
      moreover have "place (Suc h) i = 0" using i by (simp add: place_def)
      then have "look (Suc h) ?l i = look h l i"
        unfolding look.simps(2) by (cases "arr l = []") (simp_all add: js_nth_def look_empty)
      ultimately show ?thesis using k(3) by simp
    qed
    then show ?thesis using k(1,2) by simp
  qed
qed

lemma mod_div_32: "i mod 32 ^ Suc (Suc h) div 32 = f mod 32 ^ Suc (Suc h) div 32 \<longleftrightarrow>
    place (Suc h) i = place (Suc h) f \<and> i mod 32 ^ Suc h div 32 = f mod 32 ^ Suc h div (32 :: nat)"
proof -
  have s: "x mod 32 ^ Suc (Suc h) div 32 = place (Suc h) x * 32 ^ h + x mod 32 ^ Suc h div 32" for x
  proof -
    have "x mod 32 ^ Suc (Suc h) = 32 * (place (Suc h) x * 32 ^ h) + x mod 32 ^ Suc h"
      using place_split [of x "Suc h"] by (simp add: mult_ac)
    then show ?thesis by simp
  qed
  have "x mod 32 ^ Suc h div 32 < 32 ^ h" for x :: nat
  proof -
    have "x mod 32 ^ Suc h < 32 ^ h * 32" by (simp add: mult.commute)
    then show ?thesis by (rule less_mult_imp_div_less)
  qed
  then show ?thesis unfolding s by (intro split_eq)
qed

lemma put_leaf_look:
  "look h (put_leaf h l f d) i =
    (if i mod 32 ^ Suc h div 32 = f mod 32 ^ Suc h div 32 then js_nth (arr d) (i mod 32) else look h l i)"
proof (induction h arbitrary: l)
  case (Suc h)
  show ?case unfolding mod_div_32 using Suc by auto
qed simp

lemma div_up: "x div 32 ^ Suc h = x div 32 ^ h div (32 :: nat)"
  by (simp add: div_mult2_eq [symmetric] mult.commute)

lemma div_above: "h \<le> k \<Longrightarrow> i div 32 ^ h = a div 32 ^ h \<Longrightarrow> i div 32 ^ k = a div (32 :: nat) ^ k"
proof (induction k rule: dec_induct)
  case (step k)
  then show ?case by (simp only: div_up)
qed

lemma div_place: "a div 32 ^ h = p div 32 ^ h \<longleftrightarrow> a div 32 ^ Suc h = p div 32 ^ Suc h \<and> place h a = place h p"
proof -
  have "x div 32 ^ h = (x div 32 ^ Suc h) * 32 + place h x" for x :: nat by (simp only: div_up place_def div_mult_mod_eq)
  then show ?thesis using split_eq [of "place h a" 32 "place h p"] by simp
qed

lemma shrink_root_look:
  "shrink_root h l a p c = (h', l', c') \<Longrightarrow> a div 32 ^ Suc h = p div 32 ^ Suc h \<Longrightarrow> a div 32 \<noteq> p div 32 \<Longrightarrow>
   1 \<le> h' \<and> h' \<le> h \<and> a div 32 ^ Suc h' = p div 32 ^ Suc h' \<and> c' = c + (a mod 32 ^ Suc h - a mod 32 ^ Suc h')
   \<and> (\<forall>i. i div 32 ^ Suc h' = a div 32 ^ Suc h' \<longrightarrow> look h' l' i = look h l i)"
proof (induction h arbitrary: l c)
  case (Suc h)
  let ?x = "place (Suc h) a"
  show ?case
  proof (cases "l = Undef \<or> ?x \<noteq> p div 32 ^ Suc h")
    case True
    then have "h' = Suc h" "l' = l" "c' = c" using Suc.prems(1) by (cases "l = Undef"; simp add: Let_def)+
    then show ?thesis using Suc.prems(2) by simp
  next
    case False
    then have st: "shrink_root h (js_nth (arr l) ?x) a p (c + 32 ^ Suc h * ?x) = (h', l', c')" using Suc.prems(1) by (simp add: Let_def)
    have "place (Suc h) p = ?x" using False place_lt [of "Suc h" a] unfolding place_def [of _ p] by (simp del: place_lt)
    then have d: "a div 32 ^ Suc h = p div 32 ^ Suc h" unfolding div_place [of a "Suc h"] using Suc.prems(2) by simp
    note r = Suc.IH [OF st d Suc.prems(3)]
    have "a mod 32 ^ Suc h' \<le> a mod 32 ^ Suc h"
    proof -
      obtain e where "h = h' + e" using r le_Suc_ex by blast
      then have "(32 :: nat) ^ Suc h' dvd 32 ^ Suc h" by (simp add: le_imp_power_dvd)
      then have "a mod 32 ^ Suc h mod 32 ^ Suc h' = a mod 32 ^ Suc h'" by (rule mod_mod_cancel)
      then show ?thesis by (metis mod_less_eq_dividend)
    qed
    then have c: "c' = c + (a mod 32 ^ Suc (Suc h) - a mod 32 ^ Suc h')"
      using r place_split [of a "Suc h"] by (simp add: mult.commute)
    have "look h' l' i = look (Suc h) l i" if i: "i div 32 ^ Suc h' = a div 32 ^ Suc h'" for i
    proof -
      have "i div 32 ^ Suc h = a div 32 ^ Suc h" using div_above [OF _ i, of "Suc h"] r by simp
      then have "place (Suc h) i = ?x" unfolding place_def by simp
      then show ?thesis using r i by simp
    qed
    then show ?thesis using r c by simp
  qed
qed simp

section \<open>Lists and their positions\<close>

definition vlook :: "'v ilist \<Rightarrow> nat \<Rightarrow> 'v cell" where
  "vlook e p = js_nth (arr (listNodeFor e p)) (p mod 32)"

definition li_ok :: "'v ilist \<Rightarrow> bool" where
  "li_ok e \<longleftrightarrow> 1 \<le> li_height e \<and> li_origin e \<le> li_capacity e \<and> tailOffset (li_capacity e) < 32 ^ Suc (li_height e)"

lemma vlook_eq:
  "li_ok e \<Longrightarrow> vlook e p = (if tailOffset (li_capacity e) \<le> p then js_nth (arr (li_tail e)) (p mod 32) else look (li_height e) (li_root e) p)"
  by (auto simp: vlook_def listNodeFor_def li_ok_def node_for_look)

lemma tailOffset_eq: "1 \<le> c \<Longrightarrow> tailOffset c = (c - 1) div 32 * 32"
  by (simp add: tailOffset_def)

lemma tailOffset_dvd: "32 dvd tailOffset c"
  by (simp add: tailOffset_def)

lemma tailOffset_bounds: "1 \<le> c \<Longrightarrow> tailOffset c < c \<and> c \<le> tailOffset c + 32"
  using div_mult_mod_eq [of "c - 1" 32] mod_less_divisor [of 32 "c - 1"] tailOffset_eq [of c] by linarith

lemma tailOffset_unique: "32 dvd p \<Longrightarrow> p < c \<Longrightarrow> c \<le> p + 32 \<Longrightarrow> tailOffset c = p"
proof -
  assume a: "32 dvd p" "p < c" "c \<le> p + 32"
  then obtain k where k: "p = k * 32" by (auto simp: dvd_def)
  then have "(c - 1) div 32 = k" using a by (intro div_nat_eqI) auto
  then show ?thesis using a k by (simp add: tailOffset_eq)
qed

lemma tailOffset_shift: "1 \<le> c \<Longrightarrow> 32 dvd k \<Longrightarrow> tailOffset (c + k) = tailOffset c + k"
  using tailOffset_bounds [of c] tailOffset_dvd [of c] by (intro tailOffset_unique) auto

lemma tailOffset_back: "32 dvd k \<Longrightarrow> k < c \<Longrightarrow> tailOffset (c - k) = tailOffset c - k"
  using tailOffset_shift [of "c - k" k] by simp

lemma dvd_block: "32 dvd (p :: nat) \<Longrightarrow> p \<le> x \<Longrightarrow> x < p + 32 \<Longrightarrow> x div 32 = p div 32 \<and> x mod 32 = x - p"
proof -
  assume a: "32 dvd p" "p \<le> x" "x < p + 32"
  then obtain k where k: "p = 32 * k" by (auto simp: dvd_def)
  then have "x = 32 * k + (x - p)" "x - p < 32" using a by auto
  then have "x div 32 = k" "x mod 32 = x - p" by (metis div_split, metis mod_mult_self4 mod_less)
  then show ?thesis using k by simp
qed

lemma div_between: "a \<le> x \<Longrightarrow> x \<le> p \<Longrightarrow> a div m = p div m \<Longrightarrow> x div m = a div (m :: nat)"
  by (metis div_le_mono le_antisym)

lemma node_for_block: "x div 32 = t div 32 \<Longrightarrow> node_for h n x = node_for h n t"
proof (induction h arbitrary: n)
  case (Suc h)
  have "x div 32 ^ Suc h = t div 32 ^ Suc h" using div_above [of 1 "Suc h" x t] Suc.prems by simp
  then show ?case using Suc by (simp add: place_def)
qed simp

section \<open>Cutting off\<close>

lemma trim_tail:
  assumes "a < u" "u \<le> p + 32" "32 dvd p" "p \<le> a" and e: "e = trim_bounds h l w o' a f p u"
  shows "li_ok e \<and> li_size e = u - a \<and> (\<forall>x. a \<le> x \<and> x < u \<longrightarrow> vlook e (x - a + li_origin e) = js_nth (arr w) (x mod 32))"
proof -
  have e2: "e = \<lparr>li_origin = a - p, li_capacity = u - p, li_height = 1, li_root = Undef, li_tail = (if w \<noteq> Undef then removeBefore 0 (a - p) w else w)\<rparr>"
    using e assms(4) by (simp add: trim_bounds_def)
  have t0: "tailOffset (u - p) = 0" using assms by (intro tailOffset_unique) auto
  have ok: "li_ok e" using t0 assms(1-4) by (simp add: e2 li_ok_def)
  have "vlook e (x - a + li_origin e) = js_nth (arr w) (x mod 32)" if x: "a \<le> x" "x < u" for x
  proof -
    have m: "x - a + (a - p) = x - p" "(x - p) mod 32 = x mod 32" "(a - p) mod 32 = a - p" "(x - p) mod 32 = x - p"
      using x assms(2-4) dvd_block [of p x] by auto
    have "look 0 (removeBefore 0 (a - p) w) (x - p) = look 0 w (x - p)"
      by (rule removeBefore_look) (use m x assms(4) in simp)
    then have r: "js_nth (arr (removeBefore 0 (a - p) w)) (x mod 32) = js_nth (arr w) (x mod 32)" using m(2) by simp
    have "vlook e (x - a + li_origin e) = js_nth (arr (li_tail e)) ((x - p) mod 32)"
      unfolding vlook_eq [OF ok] using t0 m(1) by (simp add: e2)
    then show ?thesis using r m(2) by (simp add: e2)
  qed
  then show ?thesis using ok assms(1-4) by (simp add: e2 li_size_def)
qed

lemma cut_root_look:
  assumes B: "B = (32 :: nat) ^ Suc h" and x: "a mod B \<le> x mod B" "x mod B < p mod B"
    and l1: "l1 = (if l \<noteq> Undef \<and> before then removeBefore h (a mod B) l else l)"
    and l2: "l2 = (if l1 \<noteq> Undef \<and> after then removeAfter h (p mod B) l1 else l1)"
  shows "look h l2 (x mod B) = look h l x"
proof -
  have "look h l1 (x mod B) = look h l (x mod B)"
    unfolding l1 using x(1) by (simp add: removeBefore_look B del: power_Suc)
  moreover have "look h l2 (x mod B) = look h l1 (x mod B)"
  proof -
    have "(p mod B - 1) mod B = p mod B - 1" by (simp add: B less_imp_diff_less del: power_Suc)
    then have "x mod B mod B \<le> (p mod B - 1) mod B" using x(2) by simp
    then show ?thesis unfolding l2 by (simp add: removeAfter_look B del: power_Suc)
  qed
  moreover have "look h l (x mod B) = look h l x" unfolding B by (rule look_mod) simp
  ultimately show ?thesis by simp
qed

lemma trim_tree:
  assumes h: "1 \<le> h" "p < 32 ^ Suc h" and p: "32 dvd p" "p < u" "u \<le> p + 32" "a < p" and c: "o' < a \<or> p < f"
    and e: "e = trim_bounds h l w o' a f p u"
  shows "li_ok e \<and> li_size e = u - a
    \<and> (\<forall>x. a \<le> x \<and> x < u \<longrightarrow> vlook e (x - a + li_origin e) = (if p \<le> x then js_nth (arr w) (x mod 32) else look h l x))"
proof -
  obtain h3 l4 k where s: "shrink_root h l a p 0 = (h3, l4, k)" by (cases "shrink_root h l a p 0") auto
  define B where "B = (32 :: nat) ^ Suc h3"
  have ah: "a div 32 ^ Suc h = p div 32 ^ Suc h" using h(2) p(4) by (simp del: power_Suc)
  have ne: "a div 32 \<noteq> p div 32"
  proof -
    obtain q where "p = 32 * q" using p(1) by (auto simp: dvd_def)
    then show ?thesis using p(4) by auto
  qed
  have r: "1 \<le> h3" "a div B = p div B" "k = a - a mod B" "\<And>i. i div B = a div B \<Longrightarrow> look h3 l4 i = look h l i"
    using shrink_root_look [OF s ah ne] h(2) p(4) unfolding B_def by (simp_all del: power_Suc)
  have B: "32 dvd B" "0 < B" by (simp_all add: B_def)
  have k: "k = a div B * B" unfolding r(3) by (simp add: minus_mod_eq_div_mult)
  have km: "y - k = y mod B \<and> k \<le> y" if "y div B = a div B" for y
    using that k by (metis minus_div_mult_eq_mod div_mult_mod_eq le_add1)
  have dk: "32 dvd k" using B(1) k by simp
  have kp: "p - k = p mod B" "k \<le> p" "a - k = a mod B" "k \<le> a" using km [of p] km [of a] r(2) by simp_all
  define l5 where "l5 = (if l4 \<noteq> Undef \<and> o' < a then removeBefore h3 (a - k) l4 else l4)"
  define l6 where "l6 = (if l5 \<noteq> Undef \<and> p < f then removeAfter h3 (p - k) l5 else l5)"
  have e2: "e = \<lparr>li_origin = a - k, li_capacity = u - k, li_height = h3, li_root = l6, li_tail = w\<rparr>"
    using e p(4) c s by (simp add: trim_bounds_def l5_def l6_def Let_def)
  have t: "tailOffset (u - k) = p - k"
    using tailOffset_back [OF dk, of u] tailOffset_unique [OF p(1-3)] kp(2) p(2) by simp
  have ok: "li_ok e" using t r(1) kp(1) B(2) p(2,4) by (simp add: e2 li_ok_def B_def [symmetric] del: power_Suc)
  have "vlook e (x - a + li_origin e) = (if p \<le> x then js_nth (arr w) (x mod 32) else look h l x)" if x: "a \<le> x" "x < u" for x
  proof -
    have y: "x - a + (a - k) = x - k" using x kp(4) by simp
    have v: "vlook e (x - k) = (if p - k \<le> x - k then js_nth (arr w) ((x - k) mod 32) else look h3 l6 (x - k))"
      unfolding vlook_eq [OF ok] by (simp add: e2 t)
    show ?thesis
    proof (cases "p \<le> x")
      case True
      have "(x - k) mod 32 = x mod 32" using dk kp(2) True by (metis dvd_def le_trans mod_mult_self2 le_add_diff_inverse2 add.commute)
      then show ?thesis using True v y by (simp add: e2 diff_le_mono)
    next
      case False
      have d: "x div B = a div B" using div_between [of a x p B] x(1) False r(2) by simp
      have xk: "x - k = x mod B" "k \<le> x" using km [OF d] by simp_all
      have lt: "a mod B \<le> x mod B" "x mod B < p mod B" using x(1) False xk kp by linarith+
      have "look h3 l6 (x - k) = look h l x"
        using cut_root_look [OF B_def lt l5_def [unfolded kp] l6_def [unfolded kp]] xk(1) r(4) [OF d] by simp
      moreover have "\<not> p - k \<le> x - k" using False kp(2) xk(2) by linarith
      ultimately show ?thesis using v y False by (simp add: e2)
    qed
  qed
  then show ?thesis using ok kp(4) p by (simp add: e2 li_size_def)
qed

lemma trim_look:
  assumes "1 \<le> h" "p < 32 ^ Suc h" "p = tailOffset u" "a < u" and e: "e = trim_bounds h l w o' a f p u"
  shows "li_ok e \<and> li_size e = u - a
    \<and> (\<forall>x. a \<le> x \<and> x < u \<longrightarrow> vlook e (x - a + li_origin e) = (if p \<le> x then js_nth (arr w) (x mod 32) else look h l x))"
proof -
  have p: "32 dvd p" "p < u" "u \<le> p + 32" using tailOffset_dvd [of u] tailOffset_bounds [of u] assms(3,4) by auto
  consider "p \<le> a" | "a < p" "o' < a \<or> p < f" | "a < p" "\<not> (o' < a \<or> p < f)" by linarith
  then show ?thesis
  proof cases
    case 1
    then show ?thesis using trim_tail [OF assms(4) p(3,1) 1 e] by auto
  next
    case 2
    then show ?thesis using trim_tree [OF assms(1,2) p 2 e] by blast
  next
    case 3
    then have e2: "e = \<lparr>li_origin = a, li_capacity = u, li_height = h, li_root = l, li_tail = w\<rparr>" using e by (simp add: trim_bounds_def)
    have ok: "li_ok e" using assms(1-4) by (simp add: e2 li_ok_def)
    show ?thesis using ok assms(3) vlook_eq [OF ok] by (simp add: e2 li_size_def)
  qed
qed

section \<open>The bounds of a list\<close>

text \<open>The tree and the tail before they are cut off hold the old values; \<open>x\<close> is a position moved by \<open>c\<close>.\<close>

lemma new_tail_keeps:
  assumes e: "li_ok e" and q: "q < li_capacity e" and f: "f = tailOffset (li_capacity e) + c" "32 dvd c"
    and p: "p = tailOffset u" "p \<le> q + c" "q + c < u" and c: "p < f \<longrightarrow> c = 0"
  shows "js_nth (arr (new_tail e f p u)) ((q + c) mod 32) = vlook e q"
proof -
  have ub: "p < u" "u \<le> p + 32" "32 dvd p" using tailOffset_bounds [of u] tailOffset_dvd [of u] p by auto
  have cb: "li_capacity e \<le> tailOffset (li_capacity e) + 32" using tailOffset_bounds [of "li_capacity e"] q by simp
  have m: "(q + c) mod 32 = q mod 32" using f(2) by auto
  consider "p < f" | "p = f" | "f < p" by linarith
  then show ?thesis
  proof cases
    case 1
    then have c0: "c = 0" using c by simp
    have uf: "u \<le> f"
    proof -
      obtain k j where "p = 32 * k" "f = 32 * j" using ub(3) f tailOffset_dvd [of "li_capacity e"] c0 by (auto simp: dvd_def)
      then show ?thesis using 1 ub(2) by simp
    qed
    have lt: "u - 1 < tailOffset (li_capacity e)" using uf f(1) c0 ub(1) by simp
    then have "new_tail e f p u = node_for (li_height e) (li_root e) (u - 1)"
      using 1 e by (simp add: new_tail_def listNodeFor_def li_ok_def)
    moreover have "q div 32 = (u - 1) div 32" using dvd_block [OF ub(3), of q] dvd_block [OF ub(3), of "u - 1"] p(2,3) c0 ub by simp
    ultimately have "js_nth (arr (new_tail e f p u)) (q mod 32) = look (li_height e) (li_root e) q"
      using node_for_block [of q "u - 1" "li_height e" "li_root e"] node_for_look [of "li_height e" "li_root e" q] by simp
    moreover have "q < tailOffset (li_capacity e)" using lt p(3) c0 by linarith
    ultimately show ?thesis using m c0 vlook_eq [OF e, of q] by simp
  next
    case 2
    then show ?thesis using m vlook_eq [OF e, of q] p(2) f(1) by (simp add: new_tail_def)
  next
    case 3
    then have "f + 32 \<le> p" 
    proof -
      obtain k j where "p = 32 * k" "f = 32 * j" using ub(3) f tailOffset_dvd [of "li_capacity e"] by (metis dvd_add dvd_def)
      then show ?thesis using 3 by simp
    qed
    then show ?thesis using p(2) q cb f(1) by simp
  qed
qed

lemma new_root_keeps:
  assumes e: "li_ok e" and q: "q < li_capacity e" "arr (li_tail e) \<noteq> []" and f: "f = tailOffset (li_capacity e) + c" "32 dvd c"
    and h1: "\<forall>i < 32 ^ Suc (li_height e). i + c < 32 ^ Suc h1 \<and> look h1 l1 (i + c) = look (li_height e) (li_root e) i"
    and h2: "h1 \<le> h2" "p < 32 ^ Suc h2" "\<forall>i < 32 ^ Suc h1. look h2 l2 i = look h1 l1 i"
    and x: "q + c < p" "a \<le> q + c"
  shows "look h2 (if li_tail e \<noteq> Undef \<and> f < p \<and> a < li_capacity e + c \<and> arr (li_tail e) \<noteq> [] then put_leaf h2 l2 f (li_tail e) else l2) (q + c)
    = vlook e q"
proof -
  let ?t = "tailOffset (li_capacity e)"
  have cb: "?t < li_capacity e" "li_capacity e \<le> ?t + 32" using tailOffset_bounds [of "li_capacity e"] q by auto
  have fd: "32 dvd f" using f tailOffset_dvd [of "li_capacity e"] by simp
  have xm: "(q + c) mod 32 ^ Suc h2 = q + c" using h2(2) x(1) by (intro mod_less) linarith
  show ?thesis
  proof (cases "?t \<le> q")
    case True
    then have c: "f \<le> q + c" "q + c < f + 32" "f < p" using f(1) cb q(1) x(1) by auto
    then have fm: "f mod 32 ^ Suc h2 = f" using h2(2) by (intro mod_less) linarith
    have b: "(q + c) div 32 = f div 32" using dvd_block [OF fd c(1,2)] by simp
    have d: "li_tail e \<noteq> Undef" using q(2) by auto
    have "look h2 (put_leaf h2 l2 f (li_tail e)) (q + c) = js_nth (arr (li_tail e)) ((q + c) mod 32)"
      unfolding put_leaf_look xm fm using b by simp
    moreover have "(q + c) mod 32 = q mod 32" using f(2) by auto
    ultimately show ?thesis using vlook_eq [OF e, of q] True c(3) d q x(2) by simp
  next
    case False
    then have lt: "q < 32 ^ Suc (li_height e)" using e unfolding li_ok_def by (simp del: power_Suc)
    have old: "look h2 l2 (q + c) = vlook e q"
      using h1 h2(3) lt vlook_eq [OF e, of q] False by (simp del: power_Suc)
    have "look h2 (put_leaf h2 l2 f (li_tail e)) (q + c) = look h2 l2 (q + c)" if fp: "f < p"
    proof -
      have fm: "f mod 32 ^ Suc h2 = f" using h2(2) fp by (intro mod_less) linarith
      obtain k where k: "f = 32 * k" using fd by (auto simp: dvd_def)
      then have "(q + c) div 32 \<noteq> f div 32" using False f(1) by auto
      then show ?thesis unfolding put_leaf_look xm fm by (rule if_not_P)
    qed
    then show ?thesis using old by auto
  qed
qed

text \<open>The first and the last position that \<open>setListBounds\<close> is asked for.\<close>

definition bounds_of :: "'v ilist \<Rightarrow> int \<Rightarrow> int option \<Rightarrow> int \<times> int" where
  "bounds_of e t n =
     (int (li_origin e) + t,
      case n of None \<Rightarrow> int (li_capacity e) | Some n \<Rightarrow> if n < 0 then int (li_capacity e) + n else int (li_origin e) + n)"

text \<open>The part of the tail that is kept.\<close>

lemma cut_tail_look:
  assumes "p = tailOffset u" "p \<le> y" "y < u"
  shows "js_nth (arr (removeAfter 0 u w)) (y mod 32) = js_nth (arr w) (y mod 32)"
proof -
  have u: "p < u" "u \<le> p + 32" "32 dvd p" using tailOffset_bounds [of u] tailOffset_dvd [of u] assms by auto
  have "look 0 (removeAfter 0 u w) y = look 0 w y"
    by (rule removeAfter_look) (use dvd_block [OF u(3), of y] dvd_block [OF u(3), of "u - 1"] assms u in simp)
  then show ?thesis by simp
qed

lemma bounds_keep:
  assumes e: "li_ok e" and b: "bounds_of e t n = (a0, u0)" "a0 < u0" and n: "n = None \<or> 0 \<le> t"
    and d: "li_origin e < li_capacity e \<longrightarrow> arr (li_tail e) \<noteq> []" and r: "r = set_bounds e t n"
  shows "li_ok r \<and> li_size r = nat (u0 - a0)
    \<and> (\<forall>q. li_origin e \<le> q \<and> q < li_capacity e \<and> a0 \<le> int q \<and> int q < u0 \<longrightarrow> vlook r (nat (int q - a0) + li_origin r) = vlook e q)"
proof (cases "a0 = int (li_origin e) \<and> u0 = int (li_capacity e)")
  case True
  then have "r = e" using b(1) unfolding r set_bounds_def by (simp add: bounds_of_def Let_def)
  then show ?thesis using e True by (auto simp: li_size_def nat_diff_distrib)
next
  case False
  let ?o = "li_origin e" and ?i = "li_capacity e"
  obtain h1 l1 c where rf: "raise_front a0 (li_height e) (li_root e) 0 = (h1, l1, c)" by (cases "raise_front a0 (li_height e) (li_root e) 0") auto
  have c: "32 dvd c" "li_height e \<le> h1" "0 \<le> a0 + int c" "0 \<le> a0 \<longrightarrow> c = 0"
    and h1: "\<forall>i < 32 ^ Suc (li_height e). i + c < 32 ^ Suc h1 \<and> look h1 l1 (i + c) = look (li_height e) (li_root e) i"
    using raise_front_look [OF rf] by auto
  define a u f p where "a = nat (a0 + int c)" "u = nat (u0 + int c)" "f = tailOffset (?i + c)" "p = tailOffset u"
  obtain h2 l2 where rb: "raise_back p h1 l1 = (h2, l2)" by fastforce
  note h2 = raise_back_look [OF rb]
  define l3 where "l3 = (if li_tail e \<noteq> Undef \<and> f < p \<and> a < ?i + c \<and> arr (li_tail e) \<noteq> [] then put_leaf h2 l2 f (li_tail e) else l2)"
  define w where "w = (if u < ?i + c \<and> new_tail e f p u \<noteq> Undef then removeAfter 0 u (new_tail e f p u) else new_tail e f p u)"
  have ua: "int ?o + t = a0" "(case n of None \<Rightarrow> int ?i | Some n \<Rightarrow> if n < 0 then int ?i + n else int ?o + n) = u0"
    using b(1) by (simp_all add: bounds_of_def)
  have rt: "r = trim_bounds h2 l3 w (?o + c) a f p u"
    unfolding r set_bounds_def Let_def ua rf prod.case a_u_f_p_def [symmetric] rb l3_def [symmetric] w_def [symmetric]
    using False b(2) by auto
  have au: "a < u" using b(2) c(3) by (simp add: a_u_f_p_def)
  have "1 \<le> h2" using e c(2) h2 by (simp add: li_ok_def)
  note tl = trim_look [OF this _ a_u_f_p_def(4) au rt]
  have tl: "li_ok r" "li_size r = u - a"
    "\<And>x. a \<le> x \<Longrightarrow> x < u \<Longrightarrow> vlook r (x - a + li_origin r) = (if p \<le> x then js_nth (arr w) (x mod 32) else look h2 l3 x)"
    using tl h2 by blast+
  have "vlook r (nat (int q - a0) + li_origin r) = vlook e q"
    if q: "?o \<le> q" "q < ?i" "a0 \<le> int q" "int q < u0" for q
  proof -
    have x: "a \<le> q + c" "q + c < u" "nat (int q - a0) = q + c - a" using q c(3) by (auto simp: a_u_f_p_def)
    have f: "f = tailOffset ?i + c" using tailOffset_shift [of ?i c] q(2) c(1) by (simp add: a_u_f_p_def)
    have pc: "p < f \<longrightarrow> c = 0"
    proof
      assume "p < f"
      then have "u \<noteq> ?i + c" by (auto simp: a_u_f_p_def)
      moreover have "u = ?i + c" if "n = None" using that ua(2) by (simp add: a_u_f_p_def flip: of_nat_add)
      ultimately have "n \<noteq> None" by blast
      then show "c = 0" using n c(4) ua(1) by auto
    qed
    show ?thesis
    proof (cases "p \<le> q + c")
      case True
      have nt: "js_nth (arr (new_tail e f p u)) ((q + c) mod 32) = vlook e q"
        using new_tail_keeps [OF e q(2) f c(1) a_u_f_p_def(4) True x(2) pc] .
      have "js_nth (arr w) ((q + c) mod 32) = vlook e q" using nt cut_tail_look [OF a_u_f_p_def(4) True x(2), of "new_tail e f p u"] by (simp add: w_def)
      then show ?thesis using tl(3) [OF x(1,2)] x(3) True by simp
    next
      case False
      have "arr (li_tail e) \<noteq> []" using d q by simp
      then have "look h2 l3 (q + c) = vlook e q"
        using new_root_keeps [OF e q(2) _ f c(1) h1 _ _ _ _ x(1), of h2 p l2] h2 False by (simp add: l3_def)
      then show ?thesis using tl(3) [OF x(1,2)] x(3) False by simp
    qed
  qed
  moreover have "u - a = nat (u0 - a0)" using c(3) b(2) by (simp add: a_u_f_p_def)
  ultimately show ?thesis using tl(1,2) by simp
qed

section \<open>Values by index\<close>

definition value_at :: "'v ilist \<Rightarrow> nat \<Rightarrow> 'v cell" where
  "value_at e k = vlook e (k + li_origin e)"

text \<open>\<open>e\<close> is a list of the defined values \<open>xs\<close>.\<close>

definition holds_list :: "'v ilist \<Rightarrow> 'v list \<Rightarrow> bool" where
  "holds_list e xs \<longleftrightarrow> li_ok e \<and> li_size e = length xs \<and> (\<forall>k < length xs. value_at e k = Val (xs ! k))"

lemma holds_tail:
  assumes "holds_list e xs" "li_origin e < li_capacity e"
  shows "arr (li_tail e) \<noteq> []"
proof -
  let ?k = "li_size e - 1"
  have e: "li_ok e" and k: "?k + li_origin e = li_capacity e - 1" "?k < length xs" using assms by (auto simp: holds_list_def li_size_def)
  then have "vlook e (li_capacity e - 1) = Val (xs ! ?k)" using assms(1) by (metis holds_list_def value_at_def)
  moreover have "tailOffset (li_capacity e) \<le> li_capacity e - 1" using tailOffset_bounds [of "li_capacity e"] assms(2) by linarith
  ultimately show ?thesis using vlook_eq [OF e] by (auto simp: js_nth_def split: if_splits)
qed

lemma holds_empty: "holds_list emptyList []"
  by (simp add: holds_list_def li_ok_def li_size_def emptyList_def tailOffset_def)

lemma holds_clear: "holds_list e xs \<Longrightarrow> holds_list (list_clear e) []"
  using holds_empty by (auto simp: list_clear_def holds_list_def)

lemma holds_origin: "li_ok e \<Longrightarrow> int (li_capacity e) = int (li_origin e) + int (li_size e)"
  by (simp add: li_ok_def li_size_def)

lemma bounds_values:
  assumes h: "holds_list e xs" and u: "t < u" and n: "n = None \<and> u = int (length xs) \<or> (\<exists>m. n = Some m \<and> 0 \<le> t \<and> u = (if m < 0 then int (length xs) + m else m))"
    and r: "r = set_bounds e t n"
  shows "li_ok r \<and> li_size r = nat (u - t) \<and> (\<forall>k < nat (u - t). 0 \<le> t + int k \<and> t + int k < int (length xs) \<longrightarrow> value_at r k = Val (xs ! nat (t + int k)))"
proof -
  have e: "li_ok e" "li_size e = length xs" "\<And>k. k < length xs \<Longrightarrow> value_at e k = Val (xs ! k)" using h by (auto simp: holds_list_def)
  let ?o = "int (li_origin e)"
  have b: "bounds_of e t n = (?o + t, ?o + u)" using n e(2) holds_origin [OF e(1)] by (auto simp: bounds_of_def)
  have n2: "n = None \<or> 0 \<le> t" using n by blast
  note k = bounds_keep [OF e(1) b _ n2 _ r]
  have "value_at r k = Val (xs ! nat (t + int k))" if q: "k < nat (u - t)" "0 \<le> t + int k" "t + int k < int (length xs)" for k
  proof -
    let ?q = "li_origin e + nat (t + int k)"
    have "nat (t + int k) < length xs" using q by linarith
    then have "li_origin e \<le> ?q \<and> ?q < li_capacity e" using e(1,2) by (auto simp: li_size_def)
    moreover have "?o + t \<le> int ?q" "int ?q < ?o + u" "nat (int ?q - (?o + t)) = k" using q by auto
    moreover have "\<forall>q. li_origin e \<le> q \<and> q < li_capacity e \<and> ?o + t \<le> int q \<and> int q < ?o + u \<longrightarrow> vlook r (nat (int q - (?o + t)) + li_origin r) = vlook e q"
      using k holds_tail [OF h] u by auto
    ultimately have "vlook r (k + li_origin r) = vlook e ?q" by metis
    then show ?thesis using e(3) [of "nat (t + int k)"] q by (simp add: value_at_def add.commute)
  qed
  then show ?thesis using k holds_tail [OF h] u by auto
qed

lemma bounds_hold:
  assumes h: "holds_list e xs" and t: "0 \<le> t" "u \<le> int (length xs)"
    and n: "n = None \<and> u = int (length xs) \<or> (\<exists>m. n = Some m \<and> u = (if m < 0 then int (length xs) + m else m))"
  shows "holds_list (set_bounds e t n) (take (nat (u - t)) (drop (nat t) xs))"
proof (cases "t < u")
  case True
  have "li_ok (set_bounds e t n) \<and> li_size (set_bounds e t n) = nat (u - t)
      \<and> (\<forall>k < nat (u - t). 0 \<le> t + int k \<and> t + int k < int (length xs) \<longrightarrow> value_at (set_bounds e t n) k = Val (xs ! nat (t + int k)))"
    using n t(1) by (intro bounds_values [OF h True _ refl]) auto
  moreover have "min (length xs - nat t) (nat (u - t)) = nat (u - t)" using t True by linarith
  ultimately show ?thesis using t True by (auto simp: holds_list_def nat_add_distrib)
next
  case False
  have e: "li_ok e" "li_size e = length xs" using h by (auto simp: holds_list_def)
  show ?thesis
  proof (cases "t = 0 \<and> u = int (length xs)")
    case True
    then have "xs = []" using False by simp
    moreover have "set_bounds e t n = e"
      unfolding set_bounds_def using n True e holds_origin [OF e(1)] by (auto simp: Let_def split: if_splits)
    ultimately show ?thesis using h by simp
  next
    case f: False
    have "set_bounds e t n = list_clear e"
      unfolding set_bounds_def using n False f e(2) holds_origin [OF e(1)] by (auto simp: Let_def split: if_splits)
    then show ?thesis using holds_clear [OF h] False by simp
  qed
qed

section \<open>Setting places\<close>

lemma set_place_values:
  assumes e: "li_ok e" and i: "i < li_size e" and r: "r = set_place e i v"
  shows "li_ok r \<and> li_size r = li_size e \<and> (\<forall>k < li_size e. value_at r k = (if k = i then v else value_at e k))"
proof -
  let ?t = "tailOffset (li_capacity e)" and ?p = "i + li_origin e"
  have cap: "?p < li_capacity e" "li_capacity e \<le> ?t + 32" using i tailOffset_bounds [of "li_capacity e"] by (auto simp: li_size_def)
  have same: "li_ok r" "li_size r = li_size e" "li_origin r = li_origin e" "li_capacity r = li_capacity e" "li_height r = li_height e"
    using e r by (auto simp: set_place_def Let_def li_ok_def li_size_def)
  have "value_at r k = (if k = i then v else value_at e k)" if k: "k < li_size e" for k
  proof -
    let ?q = "k + li_origin e"
    have q: "?q < li_capacity e" using k by (simp add: li_size_def)
    have v: "value_at r k = (if ?t \<le> ?q then js_nth (arr (li_tail r)) (?q mod 32) else look (li_height e) (li_root r) ?q)"
      "value_at e k = (if ?t \<le> ?q then js_nth (arr (li_tail e)) (?q mod 32) else look (li_height e) (li_root e) ?q)"
      using vlook_eq [OF same(1), of ?q] vlook_eq [OF e, of ?q] same by (simp_all add: value_at_def)
    show ?thesis
    proof (cases "?t \<le> ?p")
      case True
      then have r2: "li_tail r = updateVNode 0 (li_tail e) ?p v" "li_root r = li_root e" using r by (simp_all add: set_place_def)
      have "?q mod 32 = ?p mod 32 \<longleftrightarrow> k = i" if "?t \<le> ?q"
      proof -
        have "?q mod 32 = ?q - ?t" "?p mod 32 = ?p - ?t"
          using dvd_block [OF tailOffset_dvd that] dvd_block [OF tailOffset_dvd True] q cap by simp_all
        then show ?thesis using that True by linarith
      qed
      then show ?thesis unfolding v r2 using update_look [of 0 "li_tail e" ?p v ?q] True by auto
    next
      case False
      then have r2: "li_tail r = li_tail e" "li_root r = updateVNode (li_height e) (li_root e) ?p v" using r by (simp_all add: set_place_def)
      have "?q mod 32 ^ Suc (li_height e) = ?p mod 32 ^ Suc (li_height e) \<longleftrightarrow> k = i" if "\<not> ?t \<le> ?q"
      proof -
        have "?q mod 32 ^ Suc (li_height e) = ?q" "?p mod 32 ^ Suc (li_height e) = ?p"
          using that False e unfolding li_ok_def by (auto intro!: mod_less)
        then show ?thesis by simp
      qed
      then show ?thesis unfolding v r2 update_look using False by auto
    qed
  qed
  then show ?thesis using same by simp
qed

lemma list_set_in: "i < li_size e \<Longrightarrow> list_set e (int i) v = Some (set_place e i v)"
  by (simp add: list_set_def wrapIndex_def)

lemma set_place_range [simp]: "in_range (set_place e i v) = in_range e"
  by (simp add: set_place_def in_range_def Let_def)

lemma set_all_values:
  "li_ok e \<Longrightarrow> i + length vs \<le> li_size e \<Longrightarrow>
   \<exists>r. set_all e i vs = Some r \<and> li_ok r \<and> li_size r = li_size e \<and> in_range r = in_range e
     \<and> (\<forall>k < li_size e. value_at r k = (if i \<le> k \<and> k < i + length vs then vs ! (k - i) else value_at e k))"
proof (induction vs arbitrary: e i)
  case (Cons v vs)
  let ?s = "set_place e i v"
  have i: "i < li_size e" using Cons.prems(2) by simp
  note s = set_place_values [OF Cons.prems(1) i, of ?s v, simplified]
  obtain r where "set_all ?s (i + 1) vs = Some r" "li_ok r" "li_size r = li_size e" "in_range r = in_range e"
    "\<forall>k < li_size e. value_at r k = (if i + 1 \<le> k \<and> k < i + 1 + length vs then vs ! (k - (i + 1)) else value_at ?s k)"
    using Cons.IH [of ?s "i + 1"] s Cons.prems(2) by auto
  then show ?case using s list_set_in [OF i] by (auto simp: nth_Cons' less_Suc_eq_le)
qed auto

section \<open>Operations on lists of values\<close>

lemma get_holds:
  assumes h: "holds_list e xs"
  shows "list_get e i t = (if - int (length xs) \<le> i \<and> i < int (length xs) then Val (xs ! nat (if i < 0 then int (length xs) + i else i)) else t)"
proof -
  have e: "li_size e = length xs" "\<And>k. k < length xs \<Longrightarrow> value_at e k = Val (xs ! k)" using h by (auto simp: holds_list_def)
  let ?j = "if i < 0 then int (length xs) + i else i"
  have "list_get e i t = (if 0 \<le> ?j \<and> ?j < int (length xs) then value_at e (nat ?j) else t)"
    by (simp add: list_get_def wrapIndex_def e(1) value_at_def vlook_def Let_def)
  moreover have "0 \<le> ?j \<and> ?j < int (length xs) \<longleftrightarrow> - int (length xs) \<le> i \<and> i < int (length xs)" by auto
  moreover have "nat ?j < length xs" if "0 \<le> ?j \<and> ?j < int (length xs)" using that by linarith
  ultimately show ?thesis using e(2) by auto
qed

text \<open>Places are added at one end and all set.\<close>

lemma grow_hold:
  assumes g: "li_ok g" "li_size g = length ys" and i: "i + length vs \<le> length ys" "\<And>k. k < length vs \<Longrightarrow> ys ! (i + k) = vs ! k"
    and o: "\<And>k. k < length ys \<Longrightarrow> k < i \<or> i + length vs \<le> k \<Longrightarrow> value_at g k = Val (ys ! k)"
  shows "\<exists>r. set_all g i (map Val vs) = Some r \<and> holds_list r ys \<and> in_range r = in_range g"
proof -
  obtain r where s: "set_all g i (map Val vs) = Some r" "li_ok r" "li_size r = li_size g" "in_range r = in_range g"
    "\<forall>k < li_size g. value_at r k = (if i \<le> k \<and> k < i + length (map Val vs) then map Val vs ! (k - i) else value_at g k)"
    using set_all_values [of g i "map Val vs"] g i(1) by auto
  have "value_at r k = Val (ys ! k)" if k: "k < length ys" for k
  proof (cases "i \<le> k \<and> k < i + length vs")
    case True
    then have "k - i < length vs" "i + (k - i) = k" by auto
    then have "ys ! k = vs ! (k - i)" using i(2) [of "k - i"] by simp
    then show ?thesis using s(5) True k g(2) \<open>k - i < length vs\<close> by simp
  next
    case False
    then have "value_at g k = Val (ys ! k)" using o [OF k] by linarith
    moreover have "value_at r k = value_at g k" using s(5) False k g(2) by (simp only: length_map if_False)
    ultimately show ?thesis by simp
  qed
  then show ?thesis using s g(2) by (simp add: holds_list_def)
qed

lemma push_hold:
  assumes h: "holds_list e xs" and g: "g = set_bounds e 0 (Some (int (length xs + length vs)))"
  shows "\<exists>r. set_all g (length xs) (map Val vs) = Some r \<and> holds_list r (xs @ vs) \<and> in_range r = in_range g"
proof (cases "vs = []")
  case True
  then show ?thesis using bounds_hold [OF h, of 0 "int (length xs)" "Some (int (length xs))"] by (simp add: g)
next
  case False
  let ?u = "int (length xs + length vs)"
  have "li_ok g \<and> li_size g = nat (?u - 0)
      \<and> (\<forall>k < nat (?u - 0). 0 \<le> 0 + int k \<and> 0 + int k < int (length xs) \<longrightarrow> value_at g k = Val (xs ! nat (0 + int k)))"
    using False length_greater_0_conv [of vs] by (intro bounds_values [OF h _ _ g]) (linarith, simp)
  then show ?thesis by (intro grow_hold) (auto simp: nth_append)
qed

lemma unshift_hold:
  assumes h: "holds_list e xs" and g: "g = set_bounds e (- int (length vs)) None"
  shows "\<exists>r. set_all g 0 (map Val vs) = Some r \<and> holds_list r (vs @ xs) \<and> in_range r = in_range g"
proof (cases "vs = []")
  case True
  then show ?thesis using bounds_hold [OF h, of 0 "int (length xs)" None] by (simp add: g)
next
  case False
  let ?t = "- int (length vs)" and ?u = "int (length xs)"
  have b: "li_ok g \<and> li_size g = nat (?u - ?t)
      \<and> (\<forall>k < nat (?u - ?t). 0 \<le> ?t + int k \<and> ?t + int k < int (length xs) \<longrightarrow> value_at g k = Val (xs ! nat (?t + int k)))"
    using False length_greater_0_conv [of vs] by (intro bounds_values [OF h _ _ g]) (linarith, simp)
  have "nat (?u - ?t) = length (vs @ xs)" by simp
  moreover have "value_at g k = Val ((vs @ xs) ! k)" if k: "k < length (vs @ xs)" "length vs \<le> k" for k
  proof -
    have "nat (?t + int k) = k - length vs" "0 \<le> ?t + int k" "?t + int k < int (length xs)" "k < nat (?u - ?t)" using k by auto
    then show ?thesis using b k by (auto simp: nth_append)
  qed
  ultimately show ?thesis using b by (intro grow_hold) (auto simp: nth_append)
qed

lemma set_in_hold: "holds_list e xs \<Longrightarrow> i < length xs \<Longrightarrow> holds_list (set_place e i (Val v)) (xs[i := v])"
  using set_place_values [of e i "set_place e i (Val v)" "Val v"] by (auto simp: holds_list_def nth_list_update)

section \<open>The limits of 32 bits\<close>

text \<open>Within the limits the digits of a position are what the shifts of the code give.\<close>

lemma place_shift: "i < 2 ^ 32 \<Longrightarrow> place h i = unat (drop_bit (5 * h) (of_nat i :: 32 word) AND 31)"
proof -
  assume "i < 2 ^ 32"
  then have i: "unat (of_nat i :: 32 word) = i" by (simp add: unat_of_nat take_bit_nat_eq_self)
  have "w AND 31 = take_bit 5 w" for w :: "32 word" by (simp add: take_bit_eq_mask mask_eq_exp_minus_1)
  then have "unat (drop_bit (5 * h) (of_nat i :: 32 word) AND 31) = take_bit 5 (drop_bit (5 * h) i)"
    by (simp only: unsigned_take_bit_eq unat_drop_bit_eq i)
  then show ?thesis by (simp add: drop_bit_eq_div take_bit_eq_mod place_def power_mult)
qed

lemma level_shift: "h \<le> 6 \<Longrightarrow> unat (push_bit (5 * h) 1 :: 32 word) = 32 ^ h"
proof -
  assume "h \<le> 6"
  then consider "h = 0" | "h = 1" | "h = 2" | "h = 3" | "h = 4" | "h = 5" | "h = 6" by linarith
  then show ?thesis by cases (simp_all add: push_bit_eq_mult)
qed

lemma raise_front_range:
  "raise_front a h l c = (h', l', c') \<Longrightarrow> - (2 ^ 25) \<le> a \<Longrightarrow> h \<le> 5 \<Longrightarrow> c < 2 * 32 ^ h \<Longrightarrow> (h = 5 \<longrightarrow> 2 ^ 25 \<le> c) \<Longrightarrow>
   h' \<le> 5 \<and> c' < 2 ^ 26"
proof (induction a h l c rule: raise_front.induct)
  case (1 a h l c)
  show ?case
  proof (cases "a + int c < 0")
    case True
    let ?l = "Node (if arr l = [] then [] else [Undef, l])"
    have h: "h \<le> 4" using True 1(3,4,6) by (cases "h = 5") auto
    have st: "raise_front a (h + 1) ?l (c + 32 ^ (h + 1)) = (h', l', c')" using 1(2) True by (simp add: raise_front.simps [of a h l c])
    have "c + 32 ^ (h + 1) < 2 * 32 ^ (h + 1)" "h + 1 = 5 \<longrightarrow> 2 ^ 25 \<le> c + 32 ^ (h + 1)" using 1(5) by (auto simp: eval_nat_numeral(3) [symmetric])
    then show ?thesis using 1(1) [OF True st 1(3)] h by simp
  next
    case False
    have "(32 :: nat) ^ h \<le> 32 ^ 5" using 1(4) by (rule pow_mono)
    then show ?thesis using False 1(2,4,5) by (simp add: raise_front.simps)
  qed
qed

lemma raise_back_range: "raise_back p h l = (h', l') \<Longrightarrow> p < 2 ^ 30 \<Longrightarrow> h \<le> 5 \<Longrightarrow> h' \<le> 5"
proof (induction p h l rule: raise_back.induct)
  case (1 p h l)
  show ?case
  proof (cases "32 ^ (h + 1) \<le> p")
    case True
    have "h \<noteq> 5" using True 1(3) by (cases "h = 5") auto
    moreover have "raise_back p (h + 1) (Node (if arr l = [] then [] else [l])) = (h', l')"
      using 1(2) True by (simp add: raise_back.simps [of p h l])
    ultimately show ?thesis using 1(1) [OF True _ 1(3)] 1(4) by simp
  qed (use 1(2,4) in \<open>simp add: raise_back.simps\<close>)
qed

lemma shrink_root_down: "shrink_root h l a p c = (h', l', c') \<Longrightarrow> h' \<le> h"
  by (induction h arbitrary: l c) (auto simp: Let_def le_SucI split: if_splits)

lemma trim_range: "1 \<le> h \<Longrightarrow> h \<le> 5 \<Longrightarrow> u \<le> 2 ^ 30 \<Longrightarrow> in_range (trim_bounds h l w o' a f p u)"
  using shrink_root_down [of h l a p 0] by (auto simp: trim_bounds_def in_range_def Let_def split: prod.splits intro: order_trans)

lemma empty_range: "in_range emptyList"
  by (simp add: in_range_def emptyList_def)

lemma clear_range: "in_range e \<Longrightarrow> in_range (list_clear e)"
  by (simp add: list_clear_def empty_range)

lemma bounds_range:
  assumes e: "li_ok e" "in_range e" and b: "bounds_of e t n = (a0, u0)"
    and f: "if 0 \<le> a0 then u0 \<le> 2 ^ 30 else li_height e \<le> 4 \<and> - (2 ^ 25) \<le> a0 \<and> u0 \<le> 2 ^ 29"
  shows "in_range (set_bounds e t n)"
proof -
  let ?o = "li_origin e" and ?i = "li_capacity e"
  have ua: "int ?o + t = a0" "(case n of None \<Rightarrow> int ?i | Some n \<Rightarrow> if n < 0 then int ?i + n else int ?o + n) = u0"
    using b by (simp_all add: bounds_of_def)
  obtain h1 l1 c where rf: "raise_front a0 (li_height e) (li_root e) 0 = (h1, l1, c)" by (cases "raise_front a0 (li_height e) (li_root e) 0") auto
  note c = raise_front_look [OF rf]
  have h1: "h1 \<le> 5 \<and> (c = 0 \<or> c < 2 ^ 26 \<and> u0 \<le> 2 ^ 29) \<and> nat (u0 + int c) \<le> 2 ^ 30"
  proof (cases "0 \<le> a0")
    case True
    then have "c = 0" "h1 = li_height e" using c by auto
    then show ?thesis using True f e(2) by (simp add: in_range_def)
  next
    case False
    then show ?thesis using raise_front_range [OF rf] f by auto
  qed
  define u p where "u = nat (u0 + int c)" "p = tailOffset u"
  obtain h2 l2 where rb: "raise_back p h1 l1 = (h2, l2)" by fastforce
  have "p < 2 ^ 30" using h1 tailOffset_bounds [of u] by (cases "u = 0") (auto simp: u_p_def tailOffset_def)
  then have h2: "1 \<le> h2" "h2 \<le> 5" using raise_back_range [OF rb] h1 raise_back_look [OF rb] c e(1) by (auto simp: li_ok_def)
  have tr: "in_range (trim_bounds h2 l w o' a f p u)" for l w o' a f using h1 by (intro trim_range [OF h2]) (simp add: u_p_def(1))
  consider "a0 = int ?o \<and> u0 = int ?i" | "\<not> (a0 = int ?o \<and> u0 = int ?i)" "u0 \<le> a0" | "\<not> (a0 = int ?o \<and> u0 = int ?i)" "\<not> u0 \<le> a0" by blast
  then show ?thesis
    unfolding set_bounds_def Let_def ua rf prod.case u_p_def [symmetric] rb
    using e(2) clear_range [OF e(2)] tr by cases (simp_all only: if_True if_False simp_thms)
qed

lemma ToInt32_self: "- (2 ^ 31) \<le> t \<Longrightarrow> t < 2 ^ 31 \<Longrightarrow> ToInt32 t = t"
  unfolding ToInt32_def by (rule signed_take_bit_int_eq_self) auto

text \<open>The bounds that an operation asks for are kept as they are, and those of the new list are within the limits again.\<close>

lemma fit_bounds:
  assumes e: "li_ok e" "in_range e" and f: "bounds_fit e t u" "t \<le> int (li_size e)"
    and n: "n = None \<and> u = int (li_size e) \<or> (\<exists>m. n = Some m \<and> - (2 ^ 31) \<le> m \<and> u = (if m < 0 then int (li_size e) + m else m))"
  shows "setListBounds e t n = set_bounds e t n" "in_range (set_bounds e t n)"
proof -
  let ?o = "int (li_origin e)"
  have cap: "?o + int (li_size e) = int (li_capacity e)" using e(1) by (simp add: li_ok_def li_size_def)
  have le: "int (li_capacity e) \<le> 2 ^ 30" using e(2) by (simp add: in_range_def)
  have t: "- (2 ^ 31) \<le> t" "t < 2 ^ 31" "u < 2 ^ 31" using f cap le by (auto simp: bounds_fit_def Let_def split: if_splits)
  have "ToInt32 m = m" if "n = Some m" for m using n that t(3) by (intro ToInt32_self) (auto split: if_splits)
  then show "setListBounds e t n = set_bounds e t n" using t by (cases n) (simp_all add: setListBounds_def ToInt32_self)
  have "bounds_of e t n = (?o + t, ?o + u)" using n cap by (auto simp: bounds_of_def)
  then show "in_range (set_bounds e t n)" using f(1) by (intro bounds_range [OF e]) (auto simp: bounds_fit_def Let_def)
qed

lemma shrink_fits: "li_ok e \<Longrightarrow> in_range e \<Longrightarrow> 0 \<le> t \<Longrightarrow> u \<le> int (li_size e) \<Longrightarrow> bounds_fit e t u"
  unfolding bounds_fit_def in_range_def Let_def li_ok_def li_size_def by auto

section \<open>Steps on lists of values\<close>

text \<open>A list of values, within the limits.\<close>

definition held :: "'v ilist \<Rightarrow> 'v list \<Rightarrow> bool" where
  "held e xs \<longleftrightarrow> holds_list e xs \<and> in_range e"

lemma held_facts:
  assumes "held e xs"
  shows "holds_list e xs" "in_range e" "li_ok e" "li_size e = length xs"
  using assms by (simp_all add: held_def holds_list_def)

lemma set_all_one: "i < li_size e \<Longrightarrow> set_all e i [v] = Some (set_place e i v)"
  by (simp add: list_set_in)

lemma push_held:
  assumes h: "held e xs" and f: "bounds_fit e 0 (int (length xs + length vs))"
  shows "\<exists>r. list_push e (map Val vs) = Some r \<and> held r (xs @ vs)"
proof -
  note e = held_facts [OF h]
  let ?n = "Some (int (length xs + length vs))"
  have "setListBounds e 0 ?n = set_bounds e 0 ?n" "in_range (set_bounds e 0 ?n)"
    using f by (intro fit_bounds [OF e(3,2)]; simp add: e(4))+
  then show ?thesis using push_hold [OF e(1) refl, of vs] by (simp add: list_push_def held_def e(4))
qed

lemma unshift_held:
  assumes h: "held e xs" and f: "bounds_fit e (- int (length vs)) (int (length xs))"
  shows "\<exists>r. list_unshift e (map Val vs) = Some r \<and> held r (vs @ xs)"
proof -
  note e = held_facts [OF h]
  let ?t = "- int (length vs)"
  have "setListBounds e ?t None = set_bounds e ?t None" "in_range (set_bounds e ?t None)"
    using f by (intro fit_bounds [OF e(3,2)]; simp add: e(4))+
  then show ?thesis using unshift_hold [OF e(1) refl, of vs] by (simp add: list_unshift_def held_def)
qed

text \<open>Bounds inside the list only drop values.\<close>

lemma shrink_held:
  assumes h: "held e xs" and t: "0 \<le> t" "t \<le> int (length xs)" "u \<le> int (length xs)"
    and n: "n = None \<and> u = int (length xs) \<or> (\<exists>m. n = Some m \<and> - (2 ^ 31) \<le> m \<and> u = (if m < 0 then int (length xs) + m else m))"
  shows "held (setListBounds e t n) (take (nat (u - t)) (drop (nat t) xs))"
proof -
  note e = held_facts [OF h]
  have "bounds_fit e t u" using t by (intro shrink_fits [OF e(3,2)]) (simp_all add: e(4))
  note b = fit_bounds [OF e(3,2) this t(2) [folded e(4)] n [folded e(4)]]
  show ?thesis using bounds_hold [OF e(1) t(1,3)] n b by (auto simp: held_def)
qed

lemma step_set:
  assumes h: "held e xs" and f: "op_fits (Op_set i v) e" and s: "list_spec (Op_set i v) xs = Some ys"
  shows "\<exists>r. list_set e i (Val v) = Some r \<and> held r ys"
proof -
  note e = held_facts [OF h]
  define j where "j = (if i < 0 then int (length xs) + i else i)"
  have w: "wrapIndex e i = j" by (simp add: wrapIndex_def j_def e(4))
  have sp: "list_spec (Op_set i v) xs = (if j = -1 then Some (v # xs) else if 0 \<le> j \<and> j < int (length xs) then Some (xs[nat j := v])
      else if j = int (length xs) then Some (xs @ [v]) else None)"
    by (simp add: j_def Let_def)
  have fj: "if int (length xs) \<le> j then bounds_fit e 0 (j + 1) else j < 0 \<longrightarrow> bounds_fit e j (int (length xs))"
    using f by (simp add: j_def e(4) Let_def)
  consider "j = -1" "ys = v # xs" | "0 \<le> j" "j < int (length xs)" "ys = xs[nat j := v]" | "j = int (length xs)" "ys = xs @ [v]"
    using s unfolding sp by (auto split: if_splits)
  then show ?thesis
  proof cases
    case 1
    let ?r = "setListBounds e (-1) None"
    have b: "bounds_fit e (-1) (int (length xs))" using fj 1 by simp
    have "?r = set_bounds e (-1) None" using b by (intro fit_bounds [OF e(3,2)]) (simp_all add: e(4))
    then have "0 < li_size ?r" using bounds_values [OF e(1), of "-1" "int (length xs)" None] by simp
    then have "list_set e i (Val v) = list_unshift e (map Val [v])"
      using 1(1) unfolding list_set_def [of e] w Let_def list_unshift_def by (simp add: list_set_in [of 0, simplified])
    then show ?thesis using unshift_held [OF h, of "[v]"] b 1(2) by simp
  next
    case 2
    then have "nat j < length xs" by linarith
    then show ?thesis using 2 set_in_hold [OF e(1), of "nat j" v] e(2) unfolding list_set_def w Let_def e(4) by (simp add: held_def)
  next
    case 3
    let ?n = "int (length xs) + 1"
    let ?r = "setListBounds e 0 (Some ?n)"
    have b: "bounds_fit e 0 ?n" using fj 3 by simp
    have "?r = set_bounds e 0 (Some ?n)" using b by (intro fit_bounds [OF e(3,2)]) (simp_all add: e(4))
    then have z: "length xs < li_size ?r" using bounds_values [OF e(1), of 0 ?n "Some ?n"] by simp
    have "int (length xs) < int (li_size ?r)" using z by simp
    then have "list_set e i (Val v) = Some (set_place ?r (length xs) (Val v))"
      using 3(1) unfolding list_set_def w Let_def e(4) by (simp only: if_True order.refl nat_int)
    also have "\<dots> = list_push e (map Val [v])" using set_all_one [OF z] by (simp add: list_push_def e(4) add.commute)
    finally show ?thesis using push_held [OF h, of "[v]"] b 3(2) by (simp add: add.commute)
  qed
qed

lemma clamp_0: "i = 0 \<or> i \<le> - int n \<Longrightarrow> clamp_index n i = 0"
  by (auto simp: clamp_index_def min_def)

lemma clamp_all: "int n \<le> i \<Longrightarrow> clamp_index n i = n"
  by (simp add: clamp_index_def)

lemma resolve_clamp: "resolveIndex b n (int d) = int (case b of None \<Rightarrow> d | Some b \<Rightarrow> clamp_index n b)"
  by (auto simp: resolveIndex_def clamp_index_def split: option.splits)

lemma step_slice:
  assumes h: "held e xs"
  shows "held (list_slice e b t) (drop (case b of None \<Rightarrow> 0 | Some b \<Rightarrow> clamp_index (length xs) b)
    (take (case t of None \<Rightarrow> length xs | Some t \<Rightarrow> clamp_index (length xs) t) xs))" (is "held _ (drop ?b (take ?t xs))")
proof -
  let ?n = "length xs"
  have z: "li_size e = ?n" using h by (rule held_facts)
  have b: "resolveIndex b ?n 0 = int ?b" "?b \<le> ?n" using resolve_clamp [of b ?n 0] by (auto simp: clamp_index_def split: option.splits)
  have t: "resolveIndex t ?n (int ?n) = int ?t" "?t \<le> ?n" by (auto simp: resolve_clamp clamp_index_def split: option.splits)
  show ?thesis
  proof (cases "wholeSlice b t ?n")
    case True
    then have "?b = 0" "?t = ?n" by (auto simp: wholeSlice_def clamp_0 clamp_all split: option.splits)
    then show ?thesis using h True by (simp add: list_slice_def z)
  next
    case False
    then have "list_slice e b t = setListBounds e (int ?b) (Some (int ?t))" by (simp add: list_slice_def z b t Let_def)
    moreover have "nat (int j - int k) = j - k" for j k :: nat by linarith
    then have "take (nat (int ?t - int ?b)) (drop (nat (int ?b)) xs) = drop ?b (take ?t xs)" by (simp only: nat_int drop_take)
    ultimately show ?thesis using shrink_held [OF h, of "int ?b" "int ?t" "Some (int ?t)"] t(2) b(2) by simp
  qed
qed

lemma step_setSize:
  assumes h: "held e xs" and n: "- (2 ^ 31) \<le> n" "n \<le> int (length xs)"
  shows "held (setListBounds e 0 (Some n)) (take (clamp_index (length xs) n) xs)"
  using shrink_held [OF h, of 0 "if n < 0 then int (length xs) + n else n" "Some n"] n by (auto simp: clamp_index_def min_def)

lemma list_step_simulates:
  assumes h: "held e xs" and f: "op_fits op e" and s: "list_spec op xs = Some ys"
  shows "\<exists>r. list_step op e = Some r \<and> held r ys"
proof (cases op)
  case (Op_set i v)
  then show ?thesis using step_set [OF h] f s by simp
next
  case (Op_push vs)
  then show ?thesis using push_held [OF h, of vs] f s held_facts(4) [OF h] by simp
next
  case Op_pop
  have "nat (int (length xs) - 1) = length xs - 1" by linarith
  then have "butlast xs = take (clamp_index (length xs) (-1)) xs" by (simp add: butlast_conv_take clamp_index_def)
  then show ?thesis using step_setSize [OF h, of "-1"] Op_pop s by (simp add: list_pop_def)
next
  case (Op_unshift vs)
  then show ?thesis using unshift_held [OF h, of vs] f s held_facts(4) [OF h] by simp
next
  case Op_shift
  have t: "tl xs = take (nat (int (length xs) - 1)) (drop (nat 1) xs)" by (simp add: drop_Suc)
  show ?thesis
  proof (cases "xs = []")
    case True
    note e = held_facts [OF h]
    have "li_origin e = li_capacity e" using e(3,4) True by (simp add: li_size_def li_ok_def)
    then have "setListBounds e 1 None = e"
      using True e(4) by (simp add: setListBounds_def ToInt32_self set_bounds_def list_clear_def)
    then show ?thesis using Op_shift s h True by (simp add: list_shift_def)
  next
    case False
    then show ?thesis using shrink_held [OF h, of 1 "int (length xs)" None] Op_shift s t by (simp add: list_shift_def Suc_le_eq)
  qed
next
  case (Op_slice b t)
  then show ?thesis using step_slice [OF h, of b t] s by (auto simp: Let_def)
next
  case (Op_setSize n)
  then show ?thesis using step_setSize [OF h, of n] f s by (auto simp: list_setSize_def split: if_splits)
next
  case Op_clear
  then show ?thesis using holds_clear clear_range h s by (auto simp: held_def)
qed

section \<open>Iteration\<close>

lemma range_append: "A \<le> B \<Longrightarrow> B \<le> C \<Longrightarrow> [max o' A..<min u B] @ [max o' B..<min u C] = [max o' A..<min u (C :: nat)]"
proof -
  assume le: "A \<le> B" "B \<le> C"
  consider "B \<le> o'" | "u \<le> B" | "o' < B" "B < u" by linarith
  then show ?thesis
  proof cases
    case 3
    then have "[max o' A..<min u C] = [max o' A..<B] @ [B..<min u C]"
      using le upt_add_eq_append [of "max o' A" B "min u C - B"] by simp
    then show ?thesis using 3 le by (simp add: max_absorb2)
  next
    case 1
    then have "max o' A = o'" "max o' B = o'" using le by auto
    then show ?thesis using 1 by simp
  next
    case 2
    then have "min u B = u" "min u C = u" using le by auto
    then show ?thesis using 2 by simp
  qed
qed

lemma map_shift_upt: "map (\<lambda>j. j + x) [l..<c] = [l + x..<c + (x :: nat)]"
  by (induction c) auto

lemma ranges_concat: "l \<le> c \<Longrightarrow> concat (map (\<lambda>k. [max o' (x + k * S)..<min u (x + k * S + S)]) [l..<c]) = [max o' (x + l * S)..<min u (x + c * (S :: nat))]"
proof (induction c rule: dec_induct)
  case (step c)
  have "concat (map (\<lambda>k. [max o' (x + k * S)..<min u (x + k * S + S)]) [l..<Suc c])
      = [max o' (x + l * S)..<min u (x + c * S)] @ [max o' (x + c * S)..<min u (x + c * S + S)]"
    using step by simp
  also have "\<dots> = [max o' (x + l * S)..<min u (x + c * S + S)]"
    using step(1) by (intro range_append) simp_all
  finally show ?case by (simp add: algebra_simps)
qed simp

text \<open>The children a node visits have exactly the positions of the list below that node.\<close>

lemma child_ranges:
  assumes S: "0 < (S :: nat)" and x: "x \<le> u"
    and l: "l = (if o' < x then 0 else (o' - x) div S)" and c: "c = min 32 (1 + (u - x) div S)"
  shows "concat (map (\<lambda>k. [max o' (x + k * S)..<min u (x + k * S + S)]) [l..<c]) = [max o' x..<min u (x + 32 * S)]"
proof -
  have lo: "max o' (x + l * S) = max o' x"
  proof (cases "o' < x")
    case False
    then have "x + l * S \<le> o'" using div_times_less_eq_dividend [of "o' - x" S] unfolding l if_not_P [OF False] by linarith
    then show ?thesis using False by simp
  qed (simp add: l)
  have hi: "min u (x + c * S) = min u (x + 32 * S)"
  proof (cases "1 + (u - x) div S \<le> 32")
    case True
    have "u \<le> x + (1 + (u - x) div S) * S" using dividend_less_div_times [OF S, of "u - x"] x by simp
    moreover have "x + (1 + (u - x) div S) * S \<le> x + 32 * S" using True by (intro add_left_mono mult_le_mono1)
    moreover have "c = 1 + (u - x) div S" using True by (simp add: c)
    ultimately show ?thesis by (metis min.absorb1 order_trans)
  qed (simp add: c)
  show ?thesis
  proof (cases "l \<le> c")
    case True
    then show ?thesis using ranges_concat [OF True, of o' x S u] lo hi by simp
  next
    case False
    then have "x + c * S \<le> x + l * S" by simp
    then have "min u (x + 32 * S) \<le> max o' x" using lo hi by (metis max.cobounded2 min.coboundedI2 order_trans)
    then show ?thesis using False by simp
  qed
qed

definition place_value :: "'v ilist \<Rightarrow> nat \<Rightarrow> 'v cell \<Rightarrow> nat \<Rightarrow> 'v cell" where
  "place_value e h n p = (if tailOffset (li_capacity e) \<le> p then js_nth (arr (li_tail e)) (p mod 32) else look h n p)"

lemma leaf_values_range:
  assumes x: "32 dvd x" and c: "x \<le> li_capacity e"
  shows "leaf_values e n x = map (place_value e 0 n) [max (li_origin e) x..<min (li_capacity e) (x + 32)]"
proof -
  let ?o = "li_origin e" and ?u = "li_capacity e" and ?t = "tailOffset (li_capacity e)"
  let ?l = "if ?o < x then 0 else ?o - x" and ?c = "min 32 (?u - x)"
  define F where "F = js_nth (if x = ?t then arr (li_tail e) else arr n)"
  have r: "[max ?o x..<min ?u (x + 32)] = map (\<lambda>j. j + x) [?l..<?c]"
    unfolding map_shift_upt using c by (intro arg_cong2 [where f = upt]) auto
  have "F j = place_value e 0 n (j + x)" if j: "j \<in> set [?l..<?c]" for j
  proof -
    have b: "x \<le> j + x" "j + x < x + 32" "j + x < ?u" using j by auto
    have m: "(j + x) mod 32 = j" using dvd_block [OF x b(1,2)] by simp
    have t: "?t \<le> j + x \<longleftrightarrow> x = ?t"
    proof -
      have u: "?t < ?u" "?u \<le> ?t + 32" using tailOffset_bounds [of ?u] b(3) by auto
      obtain k k' where "x = 32 * k" "?t = 32 * k'" using x tailOffset_dvd [of ?u] by (auto simp: dvd_def)
      then show ?thesis using u b by auto
    qed
    show ?thesis unfolding F_def place_value_def look.simps m t by simp
  qed
  then have "map F [?l..<?c] = map (\<lambda>j. place_value e 0 n (j + x)) [?l..<?c]" by (intro map_cong refl)
  then show ?thesis unfolding r leaf_values_def Let_def F_def by (simp add: comp_def)
qed

lemma tree_values_range:
  "32 ^ Suc h dvd x \<Longrightarrow> x \<le> li_capacity e \<Longrightarrow>
   tree_values e False h n x = map (place_value e h n) [max (li_origin e) x..<min (li_capacity e) (x + 32 ^ Suc h)]"
proof (induction h arbitrary: n x)
  case 0
  then show ?case using leaf_values_range [of x e n] by simp
next
  case (Suc h)
  define S where "S = (32 :: nat) ^ Suc h"
  let ?o = "li_origin e" and ?u = "li_capacity e"
  define l where "l = (if ?o < x then 0 else (?o - x) div S)"
  define c where "c = min 32 (1 + (?u - x) div S)"
  have S: "0 < S" "32 ^ Suc (Suc h) = 32 * S" by (simp_all add: S_def)
  have child: "tree_values e False h (js_nth (arr n) k) (x + k * S)
      = map (place_value e (Suc h) n) [max ?o (x + k * S)..<min ?u (x + k * S + S)]" if k: "k \<in> set [l..<c]" for k
  proof -
    have kc: "k < 32" "k \<le> (?u - x) div S" using k by (auto simp: c_def)
    have le: "x + k * S \<le> ?u" using div_times_less_eq_dividend [of "?u - x" S] mult_le_mono1 [OF kc(2), of S] Suc.prems(2) by linarith
    have d: "S dvd x + k * S" using Suc.prems(1) unfolding S(2) by (meson dvd_add dvd_mult dvd_mult_right dvd_refl)
    have "place_value e h (js_nth (arr n) k) p = place_value e (Suc h) n p" if p: "x + k * S \<le> p" "p < x + k * S + S" for p
    proof -
      obtain j where j: "x = 32 * S * j" using Suc.prems(1) unfolding S(2) by (auto simp: dvd_def)
      have "p div S = 32 * j + k" using p by (intro div_nat_eqI) (auto simp: j algebra_simps)
      then have "place (Suc h) p = k" using kc(1) by (simp add: place_def S_def [symmetric] del: power_Suc)
      then show ?thesis by (simp add: place_value_def)
    qed
    then show ?thesis
      using Suc.IH [of "x + k * S" "js_nth (arr n) k"] d le unfolding S_def [symmetric] by (auto intro!: map_cong)
  qed
  have "tree_values e False (Suc h) n x = concat (map (\<lambda>k. tree_values e False h (js_nth (arr n) k) (x + k * S)) [l..<c])"
    unfolding tree_values.simps Let_def l_def c_def S_def by simp
  also have "\<dots> = concat (map (\<lambda>k. map (place_value e (Suc h) n) [max ?o (x + k * S)..<min ?u (x + k * S + S)]) [l..<c])"
    using child by (intro arg_cong [where f = concat] map_cong refl) simp
  also have "\<dots> = map (place_value e (Suc h) n) (concat (map (\<lambda>k. [max ?o (x + k * S)..<min ?u (x + k * S + S)]) [l..<c]))"
    by (simp add: map_concat comp_def)
  finally show ?case unfolding child_ranges [OF S(1) Suc.prems(2) l_def c_def] S(2) .
qed

lemma concat_rev: "concat (map (\<lambda>k. rev (g k)) (rev ks)) = rev (concat (map g ks))"
  by (induction ks) simp_all

lemma tree_values_rev: "tree_values e True h n x = rev (tree_values e False h n x)"
proof (induction h arbitrary: n x)
  case (Suc h)
  show ?case by (simp only: tree_values.simps Let_def if_True if_False id_apply Suc.IH concat_rev)
qed simp

lemma iterate_holds:
  assumes h: "holds_list e xs"
  shows "list_values e False = map Val xs"
proof -
  have e: "li_ok e" "li_size e = length xs" using h by (auto simp: holds_list_def)
  let ?o = "li_origin e" and ?u = "li_capacity e" and ?m = "(32 :: nat) ^ Suc (li_height e)"
  have "?u \<le> ?m"
  proof (cases "1 \<le> ?u")
    case True
    have "tailOffset ?u < ?m" "32 dvd tailOffset ?u" "32 dvd ?m" using e(1) tailOffset_dvd by (auto simp: li_ok_def)
    then obtain k m where "tailOffset ?u = 32 * k" "?m = 32 * m" "k < m" by (metis dvdE nat_mult_less_cancel_disj)
    then have "tailOffset ?u + 32 \<le> ?m" by (simp del: power_Suc)
    then show ?thesis using tailOffset_bounds [OF True] by (meson order_trans)
  qed simp
  then have "list_values e False = map (place_value e (li_height e) (li_root e)) [?o..<?u]"
    unfolding list_values_def using tree_values_range [of "li_height e" 0 e "li_root e"] by (simp del: power_Suc add: min_absorb1)
  also have "\<dots> = map (value_at e) [0..<length xs]"
  proof -
    have "[?o..<?u] = map (\<lambda>k. k + ?o) [0..<length xs]" 
      unfolding map_shift_upt using e by (intro arg_cong2 [where f = upt]) (auto simp: li_size_def li_ok_def)
    then show ?thesis using vlook_eq [OF e(1)] by (simp add: value_at_def place_value_def)
  qed
  also have "\<dots> = map Val xs" using h by (intro nth_equalityI) (auto simp: holds_list_def)
  finally show ?thesis .
qed

lemma newList_held:
  assumes "int (length xs) \<le> 2 ^ 30"
  shows "\<exists>e. newList (map Val xs) = Some e \<and> held e xs"
proof (cases "length xs < 32")
  case True
  then have "length xs \<le> 2 ^ 30" by simp
  then show ?thesis
    using True holds_empty empty_range
    by (cases "xs = []") (auto simp: newList_def held_def in_range_def holds_list_def li_ok_def li_size_def value_at_def vlook_def listNodeFor_def tailOffset_def js_nth_def)
next
  case False
  have e: "held emptyList []" using holds_empty empty_range by (simp add: held_def)
  have "bounds_fit emptyList 0 (int (length ([] :: 'a list) + length xs))" using assms by (simp add: bounds_fit_def emptyList_def)
  from push_held [OF e this] show ?thesis
    using False by (auto simp add: newList_def list_setSize_def list_push_def Let_def li_size_def emptyList_def)
qed

section \<open>Sequences of operations\<close>

text \<open>
  A structure that follows an abstract one step by step, for as long as the abstract one is defined and the steps are within
  the limits of the structure. \<open>path\<close> says this of a sequence of steps.
\<close>

locale step_simulation =
  fixes rel :: "'c \<Rightarrow> 'a \<Rightarrow> bool" and fits :: "'op \<Rightarrow> 'c \<Rightarrow> bool" and path :: "'c option \<Rightarrow> 'op list \<Rightarrow> bool"
    and step :: "'op \<Rightarrow> 'c \<Rightarrow> 'c option" and spec :: "'op \<Rightarrow> 'a \<Rightarrow> 'a option"
  assumes step_keeps: "rel c a \<Longrightarrow> fits op c \<Longrightarrow> spec op a = Some a' \<Longrightarrow> \<exists>c'. step op c = Some c' \<and> rel c' a'"
    and path_step: "path (Some c) (op # ops) \<Longrightarrow> fits op c \<and> path (step op c) ops"
begin

lemma steps_keep:
  "rel c a \<Longrightarrow> path (Some c) ops \<Longrightarrow> foldl (\<lambda>r op. Option.bind r (spec op)) (Some a) ops = Some a' \<Longrightarrow>
   \<exists>c'. foldl (\<lambda>r op. Option.bind r (step op)) (Some c) ops = Some c' \<and> rel c' a'"
proof (induction ops arbitrary: c a)
  case (Cons op ops)
  have none: "foldl (\<lambda>r op. Option.bind r (spec op)) None ops = None" by (induction ops) simp_all
  obtain b where b: "spec op a = Some b" using Cons.prems(3) none by (cases "spec op a") auto
  obtain d where d: "step op c = Some d" "rel d b" using step_keeps [OF Cons.prems(1) _ b] path_step [OF Cons.prems(2)] by blast
  then show ?case using Cons.IH [OF d(2)] path_step [OF Cons.prems(2)] Cons.prems(3) b by simp
qed simp

end

interpretation ls: step_simulation held op_fits steps_fit list_step list_spec
  by unfold_locales (use list_step_simulates in auto)

lemma list_run_held: "spec_run vs ops = Some xs \<Longrightarrow> run_fits vs ops \<Longrightarrow> \<exists>e. list_run vs ops = Some e \<and> held e xs"
  using newList_held [of vs] ls.steps_keep by (fastforce simp: run_fits_def list_run_def spec_run_def)

section \<open>Well-formed lists\<close>

text \<open>
  A node has at most 32 places; those of a leaf hold values, those of a node above hold nodes or nothing. All
  operations keep this shape, also when they leave gaps.
\<close>

fun is_node :: "'v cell \<Rightarrow> bool" where
  "is_node (Val v) \<longleftrightarrow> False"
| "is_node _ \<longleftrightarrow> True"

fun node_ok :: "nat \<Rightarrow> 'v cell \<Rightarrow> bool" where
  "node_ok 0 n \<longleftrightarrow> is_node n \<and> length (arr n) \<le> 32 \<and> (\<forall>c \<in> set (arr n). arr c = [] \<and> (is_node c \<longrightarrow> c = Undef))"
| "node_ok (Suc h) n \<longleftrightarrow> is_node n \<and> length (arr n) \<le> 32 \<and> (\<forall>c \<in> set (arr n). node_ok h c)"

definition li_wf :: "'v ilist \<Rightarrow> bool" where
  "li_wf e \<longleftrightarrow> li_ok e \<and> node_ok (li_height e) (li_root e) \<and> node_ok 0 (li_tail e)"

text \<open>What a place of a node of height \<open>h\<close> may hold.\<close>

fun place_ok :: "nat \<Rightarrow> 'v cell \<Rightarrow> bool" where
  "place_ok 0 c \<longleftrightarrow> arr c = [] \<and> (is_node c \<longrightarrow> c = Undef)"
| "place_ok (Suc h) c \<longleftrightarrow> node_ok h c"

lemma node_ok_iff: "node_ok h n \<longleftrightarrow> is_node n \<and> length (arr n) \<le> 32 \<and> (\<forall>c \<in> set (arr n). place_ok h c)"
  by (cases h) simp_all

lemma ok_Undef [simp]: "node_ok h Undef" "node_ok h (Node [])"
  by (cases h; simp)+

lemma place_Undef [simp]: "place_ok h Undef"
  by (cases h) simp_all

declare node_ok.simps [simp del]

lemma node_ok_Node: "node_ok h (Node xs) \<longleftrightarrow> length xs \<le> 32 \<and> (\<forall>c \<in> set xs. place_ok h c)"
  by (simp add: node_ok_iff)

lemma nth_ok: "node_ok h n \<Longrightarrow> i < length (arr n) \<Longrightarrow> place_ok h (arr n ! i)"
  by (simp add: node_ok_iff)

lemma js_nth_ok: "node_ok h n \<Longrightarrow> place_ok h (js_nth (arr n) i)"
  by (simp add: js_nth_def nth_ok)

lemma js_set_ok: "node_ok h n \<Longrightarrow> i < 32 \<Longrightarrow> place_ok h v \<Longrightarrow> node_ok h (Node (js_set (arr n) i v))"
  unfolding node_ok_Node by (auto simp: js_set_def node_ok_iff dest!: subsetD [OF set_update_subset_insert])

lemma update_ok: "node_ok h e \<Longrightarrow> place_ok 0 v \<Longrightarrow> node_ok h (updateVNode h e r v)"
proof (induction h arbitrary: e)
  case 0
  have "node_ok 0 (Node (butlast (arr e)))" using 0(1) by (auto simp: node_ok_iff dest: in_set_butlastD)
  moreover have "node_ok 0 (Node (js_set (arr e) (place 0 r) v))" using 0 by (intro js_set_ok) simp_all
  ultimately show ?case using 0(1) unfolding updateVNode.simps Let_def by (simp del: place_0)
next
  case (Suc h)
  have "node_ok h (updateVNode h (js_nth (arr e) (place (Suc h) r)) r v)" using Suc js_nth_ok [OF Suc.prems(1)] by simp
  then have "node_ok (Suc h) (Node (js_set (arr e) (place (Suc h) r) (updateVNode h (js_nth (arr e) (place (Suc h) r)) r v)))"
    using Suc.prems(1) by (intro js_set_ok) simp_all
  then show ?case using Suc.prems(1) unfolding updateVNode.simps Let_def by (simp del: place_0)
qed

text \<open>The array of a node with its first or last places dropped and one place replaced.\<close>

lemma cut_ok:
  assumes "node_ok h e" "place_ok h c" "r < length (arr e)"
  shows "node_ok h (Node (if c = Undef then replicate r Undef @ drop r (arr e) else (replicate r Undef @ drop r (arr e))[r := c]))"
    "node_ok h (Node (if c = Undef then take (r + 1) (arr e) else (take (r + 1) (arr e))[r := c]))"
  using assms unfolding node_ok_Node
  by (auto simp: node_ok_iff dest!: subsetD [OF set_update_subset_insert] in_set_dropD in_set_takeD)

lemma removeBefore_ok: "node_ok h e \<Longrightarrow> node_ok h (removeBefore h n e)"
proof (induction h arbitrary: e)
  case 0
  have "node_ok 0 (Node (replicate (place 0 n) Undef @ drop (place 0 n) (arr e)))" if "place 0 n < length (arr e)"
    using cut_ok(1) [OF 0 _ that, of Undef] by simp
  then show ?case using 0 unfolding removeBefore.simps [of 0] Let_def by (simp del: place_0)
next
  case (Suc h)
  let ?r = "place (Suc h) n"
  define c where "c = (if arr e ! ?r = Undef then Undef else removeBefore h n (arr e ! ?r))"
  have "place_ok (Suc h) c" if "?r < length (arr e)" using Suc.IH nth_ok [OF Suc.prems that] by (simp add: c_def)
  then have "node_ok (Suc h) (Node (if c = Undef then replicate ?r Undef @ drop ?r (arr e) else (replicate ?r Undef @ drop ?r (arr e))[?r := c]))"
    if "?r < length (arr e)" using cut_ok(1) [OF Suc.prems _ that] that by blast
  then show ?case using Suc.prems unfolding removeBefore_Suc [OF refl c_def] Let_def by (simp add: not_le)
qed

lemma removeAfter_ok: "node_ok h e \<Longrightarrow> node_ok h (removeAfter h n e)"
proof (induction h arbitrary: e)
  case 0
  have "node_ok 0 (Node (take (place 0 (n - 1) + 1) (arr e)))" if "place 0 (n - 1) < length (arr e)"
    using cut_ok(2) [OF 0 _ that, of Undef] by simp
  then show ?case using 0 unfolding removeAfter.simps [of 0] Let_def by (simp del: place_0)
next
  case (Suc h)
  let ?r = "place (Suc h) (n - 1)"
  define c where "c = (if arr e ! ?r = Undef then Undef else removeAfter h n (arr e ! ?r))"
  have "place_ok (Suc h) c" if "?r < length (arr e)" using Suc.IH nth_ok [OF Suc.prems that] by (simp add: c_def)
  then have "node_ok (Suc h) (Node (if c = Undef then take (?r + 1) (arr e) else (take (?r + 1) (arr e))[?r := c]))"
    if "?r < length (arr e)" using cut_ok(2) [OF Suc.prems _ that] that by blast
  then show ?case using Suc.prems unfolding removeAfter_Suc [OF refl c_def] Let_def by (simp add: not_le)
qed

lemma raise_front_ok: "raise_front a h l c = (h', l', c') \<Longrightarrow> node_ok h l \<Longrightarrow> node_ok h' l'"
proof (induction a h l c rule: raise_front.induct)
  case (1 a h l c)
  then show ?case by (cases "a + int c < 0") (simp_all add: raise_front.simps [of a h l c] node_ok_Node)
qed

lemma raise_back_ok: "raise_back p h l = (h', l') \<Longrightarrow> node_ok h l \<Longrightarrow> node_ok h' l'"
proof (induction p h l rule: raise_back.induct)
  case (1 p h l)
  then show ?case by (cases "32 ^ (h + 1) \<le> p") (simp_all add: raise_back.simps [of p h l] node_ok_Node)
qed

lemma put_leaf_ok: "node_ok h l \<Longrightarrow> node_ok 0 d \<Longrightarrow> node_ok h (put_leaf h l f d)"
proof (induction h arbitrary: l)
  case (Suc h)
  have "node_ok h (put_leaf h (js_nth (arr l) (place (Suc h) f)) f d)" using Suc js_nth_ok [OF Suc.prems(1)] by simp
  then show ?case unfolding put_leaf.simps using Suc.prems(1) by (intro js_set_ok) simp_all
qed simp

lemma shrink_root_ok: "shrink_root h l a p c = (h', l', c') \<Longrightarrow> node_ok h l \<Longrightarrow> node_ok h' l'"
proof (induction h arbitrary: l c)
  case (Suc h)
  have "node_ok h (js_nth (arr l) (place (Suc h) a))" using js_nth_ok [OF Suc.prems(2)] by simp
  then show ?case using Suc.IH Suc.prems by (auto simp: Let_def split: if_splits)
qed simp

lemma node_for_ok: "node_ok h n \<Longrightarrow> node_ok 0 (node_for h n t)"
proof (induction h arbitrary: n)
  case (Suc h)
  have "node_ok h (js_nth (arr n) (place (Suc h) t))" using js_nth_ok [OF Suc.prems] by simp
  then show ?case using Suc.IH by simp
qed simp

lemma trim_ok:
  assumes "node_ok h l" "node_ok 0 w"
  shows "node_ok (li_height (trim_bounds h l w o' a f p u)) (li_root (trim_bounds h l w o' a f p u))
    \<and> node_ok 0 (li_tail (trim_bounds h l w o' a f p u))"
proof -
  obtain h3 l3 c where s: "shrink_root h l a p 0 = (h3, l3, c)" by (cases "shrink_root h l a p 0") auto
  show ?thesis using assms shrink_root_ok [OF s assms(1)] unfolding trim_bounds_def s Let_def prod.case
    by (simp add: removeBefore_ok removeAfter_ok)
qed

lemma clear_wf: "li_wf e \<Longrightarrow> li_wf (list_clear e) \<and> li_size (list_clear e) = 0"
  using holds_empty by (auto simp: list_clear_def holds_list_def li_wf_def emptyList_def)

lemma new_tail_ok: "li_wf e \<Longrightarrow> node_ok 0 (new_tail e f p u)"
  by (simp add: new_tail_def listNodeFor_def li_wf_def node_for_ok)

lemma bounds_wf:
  assumes e: "li_wf e" and b: "bounds_of e t n = (a0, u0)" and r: "r = set_bounds e t n"
  shows "li_wf r \<and> li_size r = nat (u0 - a0)"
proof -
  let ?o = "li_origin e" and ?i = "li_capacity e"
  have ok: "li_ok e" using e by (simp add: li_wf_def)
  have ua: "int ?o + t = a0" "(case n of None \<Rightarrow> int ?i | Some n \<Rightarrow> if n < 0 then int ?i + n else int ?o + n) = u0"
    using b by (simp_all add: bounds_of_def)
  consider "a0 = int ?o \<and> u0 = int ?i" | "\<not> (a0 = int ?o \<and> u0 = int ?i)" "u0 \<le> a0" | "\<not> (a0 = int ?o \<and> u0 = int ?i)" "a0 < u0" by linarith
  then show ?thesis
  proof cases
    case 1
    then have "r = e" unfolding r set_bounds_def Let_def ua by simp
    then show ?thesis using e ok 1 by (auto simp: li_size_def nat_diff_distrib)
  next
    case 2
    then have "r = list_clear e" unfolding r set_bounds_def Let_def ua by auto
    then show ?thesis using clear_wf [OF e] 2(2) by simp
  next
    case 3
    obtain h1 l1 c where rf: "raise_front a0 (li_height e) (li_root e) 0 = (h1, l1, c)" by (cases "raise_front a0 (li_height e) (li_root e) 0") auto
    have c: "li_height e \<le> h1" "0 \<le> a0 + int c" using raise_front_look [OF rf] by auto
    define a u f p where "a = nat (a0 + int c)" "u = nat (u0 + int c)" "f = tailOffset (?i + c)" "p = tailOffset u"
    obtain h2 l2 where rb: "raise_back p h1 l1 = (h2, l2)" by fastforce
    define l w where "l = (if li_tail e \<noteq> Undef \<and> f < p \<and> a < ?i + c \<and> arr (li_tail e) \<noteq> [] then put_leaf h2 l2 f (li_tail e) else l2)"
      "w = (if u < ?i + c \<and> new_tail e f p u \<noteq> Undef then removeAfter 0 u (new_tail e f p u) else new_tail e f p u)"
    have rt: "r = trim_bounds h2 l w (?o + c) a f p u"
      unfolding r set_bounds_def Let_def ua rf prod.case a_u_f_p_def [symmetric] rb l_w_def [symmetric] using 3 by auto
    have "node_ok h2 l2" using raise_back_ok [OF rb raise_front_ok [OF rf]] e by (simp add: li_wf_def)
    then have "node_ok h2 l" "node_ok 0 w" using new_tail_ok [OF e] e by (simp_all add: l_w_def li_wf_def put_leaf_ok removeAfter_ok)
    note tr = trim_ok [OF this, of "?o + c" a f p u, folded rt]
    have "1 \<le> h2" "p < 32 ^ Suc h2" using ok c(1) raise_back_look [OF rb] by (auto simp: li_ok_def)
    then have "li_ok r \<and> li_size r = u - a" using trim_look [OF _ _ a_u_f_p_def(4) _ rt] 3(2) c(2) by (auto simp: a_u_f_p_def(1,2))
    then show ?thesis using tr c(2) 3(2) by (auto simp: a_u_f_p_def(1,2) li_wf_def)
  qed
qed

lemma set_place_wf: "li_wf e \<Longrightarrow> place_ok 0 v \<Longrightarrow> li_wf (set_place e i v) \<and> li_size (set_place e i v) = li_size e"
  by (simp add: set_place_def li_wf_def li_ok_def li_size_def Let_def update_ok del: place_ok.simps updateVNode.simps)

lemma set_all_wf:
  "li_wf e \<Longrightarrow> i + length vs \<le> li_size e \<Longrightarrow>
   \<exists>r. set_all e i (map Val vs) = Some r \<and> li_wf r \<and> li_size r = li_size e \<and> in_range r = in_range e"
proof (induction vs arbitrary: e i)
  case (Cons v vs)
  have i: "i < li_size e" using Cons.prems(2) by simp
  then show ?case using Cons.IH [of "set_place e i (Val v)" "i + 1"] set_place_wf [OF Cons.prems(1), of "Val v" i] Cons.prems(2)
    by (simp add: list_set_in [OF i])
qed simp

text \<open>An operation that asks for bounds within the limits gets them.\<close>

lemma fit_wf:
  assumes e: "li_wf e" "in_range e" and f: "bounds_fit e t u" "t \<le> int (li_size e)"
    and n: "n = None \<and> u = int (li_size e) \<or> (\<exists>m. n = Some m \<and> - (2 ^ 31) \<le> m \<and> u = (if m < 0 then int (li_size e) + m else m))"
  shows "li_wf (setListBounds e t n) \<and> in_range (setListBounds e t n) \<and> li_size (setListBounds e t n) = nat (u - t)"
proof -
  have ok: "li_ok e" using e by (simp add: li_wf_def)
  have "bounds_of e t n = (int (li_origin e) + t, int (li_origin e) + u)" using n holds_origin [OF ok] by (auto simp: bounds_of_def)
  then show ?thesis using bounds_wf [OF e(1) _ refl] fit_bounds [OF ok e(2) f n] by simp
qed

lemma shrink_wf:
  assumes e: "li_wf e" "in_range e" and t: "0 \<le> t" "t \<le> int (li_size e)" "u \<le> int (li_size e)"
    and n: "n = None \<and> u = int (li_size e) \<or> (\<exists>m. n = Some m \<and> - (2 ^ 31) \<le> m \<and> u = (if m < 0 then int (li_size e) + m else m))"
  shows "li_wf (setListBounds e t n) \<and> in_range (setListBounds e t n) \<and> li_size (setListBounds e t n) = nat (u - t)"
  using e t by (intro fit_wf [OF e _ t(2) n] shrink_fits) (auto simp: li_wf_def)

lemma shift_empty: "li_ok e \<Longrightarrow> li_size e = 0 \<Longrightarrow> list_shift e = e"
  by (simp add: list_shift_def setListBounds_def ToInt32_self set_bounds_def list_clear_def li_size_def li_ok_def)

lemma list_slice_wf:
  assumes "li_wf e" "in_range e"
  shows "li_wf (list_slice e b t) \<and> in_range (list_slice e b t) \<and> int (li_size (list_slice e b t)) = size_after (li_size e) (Op_slice b t)"
proof (cases "wholeSlice b t (li_size e)")
  case True
  then show ?thesis using assms by (auto simp: list_slice_def wholeSlice_def clamp_0 clamp_all split: option.splits)
next
  case False
  let ?n = "li_size e"
  define l where "l = (case b of None \<Rightarrow> 0 | Some b \<Rightarrow> clamp_index ?n b)"
  define u where "u = (case t of None \<Rightarrow> ?n | Some t \<Rightarrow> clamp_index ?n t)"
  have "list_slice e b t = setListBounds e (int l) (Some (int u))"
    using False resolve_clamp [of b ?n 0] resolve_clamp [of t ?n ?n] by (simp add: list_slice_def Let_def l_def u_def)
  moreover have "l \<le> ?n" "u \<le> ?n" by (auto simp: l_def u_def clamp_index_def split: option.splits)
  moreover have "nat (int u - int l) = u - l" by linarith
  ultimately show ?thesis using shrink_wf [OF assms, of "int l" "int u" "Some (int u)"] by (simp add: l_def u_def)
qed

lemma list_set_wf:
  assumes e: "li_wf e" "in_range e" and f: "op_fits (Op_set i v) e"
  shows "\<exists>r. list_set e i (Val v) = Some r \<and> li_wf r \<and> in_range r \<and> int (li_size r) = size_after (li_size e) (Op_set i v)"
proof -
  let ?n = "int (li_size e)"
  define j where "j = wrapIndex e i"
  have f: "if ?n \<le> j then bounds_fit e 0 (j + 1) else j < 0 \<longrightarrow> bounds_fit e j ?n" using f by (simp add: j_def wrapIndex_def Let_def)
  have s: "size_after (li_size e) (Op_set i v) = max ?n (j + 1) - min 0 j" by (simp add: j_def wrapIndex_def Let_def)
  note p = set_place_wf [of _ "Val v"]
  consider "?n \<le> j" | "j < 0" | "0 \<le> j" "j < ?n" by linarith
  then show ?thesis
  proof cases
    case 1
    have "li_wf (setListBounds e 0 (Some (j + 1))) \<and> in_range (setListBounds e 0 (Some (j + 1))) \<and> li_size (setListBounds e 0 (Some (j + 1))) = nat (j + 1 - 0)"
      using f 1 by (intro fit_wf [OF e]) auto
    then show ?thesis using 1 p unfolding list_set_def j_def [symmetric] Let_def s by auto
  next
    case 2
    have "li_wf (setListBounds e j None) \<and> in_range (setListBounds e j None) \<and> li_size (setListBounds e j None) = nat (?n - j)"
      using f 2 by (intro fit_wf [OF e]) auto
    then show ?thesis using 2 p unfolding list_set_def j_def [symmetric] Let_def s by auto
  next
    case 3
    then show ?thesis using e p unfolding list_set_def j_def [symmetric] Let_def s by auto
  qed
qed

section \<open>Places that come back\<close>

text \<open>In a new list nothing is in the trie behind the tail offset.\<close>

lemma set_all_behind:
  "li_ok e \<Longrightarrow> i + length vs \<le> li_size e \<Longrightarrow> set_all e i vs = Some r \<Longrightarrow>
   li_origin r = li_origin e \<and> li_capacity r = li_capacity e \<and> li_height r = li_height e
   \<and> (\<forall>q. tailOffset (li_capacity e) \<le> q \<and> q < 32 ^ Suc (li_height e) \<longrightarrow> look (li_height e) (li_root r) q = look (li_height e) (li_root e) q)"
proof (induction vs arbitrary: e i)
  case (Cons v vs)
  let ?s = "set_place e i v" and ?m = "32 ^ Suc (li_height e)"
  have i: "i < li_size e" using Cons.prems(2) by simp
  have s: "li_ok ?s" "li_size ?s = li_size e" using set_place_values [OF Cons.prems(1) i refl] by auto
  have same: "li_origin ?s = li_origin e" "li_capacity ?s = li_capacity e" "li_height ?s = li_height e" by (simp_all add: set_place_def Let_def)
  have "look (li_height e) (li_root ?s) q = look (li_height e) (li_root e) q" if q: "tailOffset (li_capacity e) \<le> q" "q < ?m" for q
  proof (cases "tailOffset (li_capacity e) \<le> i + li_origin e")
    case False
    then have "(i + li_origin e) mod ?m = i + li_origin e" "q mod ?m = q" using q by (intro mod_less; linarith)+
    then have "q mod ?m \<noteq> (i + li_origin e) mod ?m" using False q by linarith
    then show ?thesis using False by (simp add: set_place_def update_look del: power_Suc)
  qed (simp add: set_place_def)
  then show ?case using Cons.IH [of ?s "i + 1"] s same Cons.prems by (simp add: list_set_in [OF i] del: power_Suc)
qed simp

lemma newList_shape:
  assumes "32 < length xs" "length xs \<le> 1024"
  shows "\<exists>e. newList (map Val xs) = Some e \<and> held e xs \<and> li_origin e = 0 \<and> li_capacity e = length xs \<and> li_height e = 1
    \<and> (\<forall>q. tailOffset (length xs) \<le> q \<and> q < 1024 \<longrightarrow> look 1 (li_root e) q = Undef)"
proof -
  let ?n = "length xs"
  obtain e where e: "newList (map Val xs) = Some e" "held e xs" using newList_held [of xs] assms(2) by auto
  have p: "32 \<le> tailOffset ?n" "tailOffset ?n < 1024" using tailOffset_bounds [of ?n] assms by (simp_all add: tailOffset_eq)
  define g where "g = (\<lparr>li_origin = 0, li_capacity = ?n, li_height = 1, li_root = Undef, li_tail = Node []\<rparr> :: 'a ilist)"
  have "list_setSize emptyList (int ?n) = g"
    using assms p by (auto simp: list_setSize_def setListBounds_def ToInt32_self set_bounds_def emptyList_def raise_front.simps raise_back.simps
        new_tail_def trim_bounds_def tailOffset_def [of 0] Let_def g_def)
  then have "set_all g 0 (map Val xs) = Some e" using e(1) assms(1) by (simp add: newList_def Let_def split: if_splits)
  moreover have "li_ok g" "li_size g = ?n" using p by (simp_all add: g_def li_ok_def li_size_def)
  ultimately show ?thesis using set_all_behind [of g 0 "map Val xs" e] e by (simp add: g_def)
qed

text \<open>
  Growing a list whose tail offset is 32 again puts the tail at its place in the trie, and what is behind it in the trie shows.
\<close>

lemma grown_look:
  assumes e: "li_origin e = 0" "li_height e = 1" "32 < li_capacity e" "li_capacity e \<le> 64"
    and i: "64 \<le> i" "i < tailOffset n" and n: "n \<le> 1024"
  shows "list_get (list_setSize e (int n)) (int i) Undef = look 1 (li_root e) i"
proof -
  let ?d = "li_tail e"
  have f: "tailOffset (li_capacity e) = 32" using e by (intro tailOffset_unique) auto
  have p: "tailOffset n < n" "tailOffset n < 1024" using tailOffset_bounds [of n] i n by (auto simp: tailOffset_def)
  define l where "l = (if ?d \<noteq> Undef \<and> arr ?d \<noteq> [] then put_leaf 1 (li_root e) 32 ?d else li_root e)"
  have r: "list_setSize e (int n) = \<lparr>li_origin = 0, li_capacity = n, li_height = 1, li_root = l, li_tail = Node []\<rparr>"
    using e i n p f by (simp add: list_setSize_def setListBounds_def ToInt32_self set_bounds_def raise_front.simps raise_back.simps
        new_tail_def trim_bounds_def Let_def l_def)
  have "i mod 1024 div 32 \<noteq> 1" using i p by simp
  then have l: "look 1 l i = look 1 (li_root e) i" using put_leaf_look [of 1 "li_root e" 32 ?d i] by (simp add: l_def)
  have "list_get (list_setSize e (int n)) (int i) Undef = js_nth (arr (node_for 1 l i)) (i mod 32)"
    using i p by (simp add: r list_get_def wrapIndex_def li_size_def listNodeFor_def)
  then show ?thesis using node_for_look [of 1 l i] l by simp
qed

text \<open>
  \<open>removeAfter\<close> takes the number of places that are left for a full node if it is the size of a child, and
  \<open>removeBefore\<close> an index for a subtree boundary if it is the level: the root stays as it is.
\<close>

lemma cut_keeps_root:
  assumes e: "li_origin e = 0" "li_height e = 1" "64 < li_capacity e" and m: "32 < m" "m \<le> 64"
  shows "li_origin (list_setSize e (int m)) = 0 \<and> li_height (list_setSize e (int m)) = 1 \<and> li_capacity (list_setSize e (int m)) = m
    \<and> li_root (list_setSize e (int m)) = li_root e"
proof -
  have p: "tailOffset m = 32" "32 < tailOffset (li_capacity e)"
    using tailOffset_unique [of 32 m] m tailOffset_bounds [of "li_capacity e"] e(3) by auto
  have "shrink_root 1 (li_root e) 0 32 0 = (1, li_root e, 0)" by (simp add: place_def Let_def)
  moreover have "removeAfter 1 32 l = l" for l :: "'a cell" using removeAfter_Suc [of _ 0 32 _ l, OF refl refl] by simp
  ultimately show ?thesis using e m p
    by (simp add: list_setSize_def setListBounds_def ToInt32_self set_bounds_def raise_front.simps raise_back.simps trim_bounds_def Let_def)
qed

lemma slice_keeps_root:
  assumes e: "li_origin e = 0" "li_height e = 1" "32 < li_capacity e" "li_capacity e \<le> 1024"
  shows "list_slice e (Some 5) None = e\<lparr>li_origin := 5\<rparr>"
proof -
  have p: "32 \<le> tailOffset (li_capacity e)" "tailOffset (li_capacity e) < 1024"
    using tailOffset_bounds [of "li_capacity e"] e by (simp_all add: tailOffset_eq)
  then have d: "tailOffset (li_capacity e) div 32 \<noteq> 0" by simp
  have "shrink_root 1 (li_root e) 5 (tailOffset (li_capacity e)) 0 = (1, li_root e, 0)" using d by (simp add: place_def Let_def)
  moreover have "removeBefore 1 5 l = l" for l :: "'a cell" using removeBefore_Suc [of _ 0 5 _ l, OF refl refl] by simp
  ultimately show ?thesis using e p
    by (simp add: list_slice_def wholeSlice_def resolveIndex_def li_size_def setListBounds_def ToInt32_self set_bounds_def raise_front.simps
        raise_back.simps new_tail_def trim_bounds_def Let_def)
qed

lemma front_back:
  assumes e: "li_ok e" "li_origin e = 0" "li_height e = 1" "32 < li_capacity e" "li_capacity e \<le> 1024" and k: "2 \<le> k" "k \<le> 5" "1 \<le> j" "j < k"
  shows "\<exists>r. list_set (list_slice e (Some 5) None) (- (int (li_capacity e) - 5) - int k) v = Some r
    \<and> list_get r (int j) Undef = vlook e (5 - k + j)"
proof -
  have p: "32 \<le> tailOffset (li_capacity e)" "tailOffset (li_capacity e) < 1024"
    using tailOffset_bounds [of "li_capacity e"] e by (simp_all add: tailOffset_eq)
  define g where "g = e\<lparr>li_origin := 5 - k\<rparr>"
  have b: "setListBounds (e\<lparr>li_origin := 5\<rparr>) (- int k) None = g"
    using e p k by (simp add: setListBounds_def ToInt32_self set_bounds_def raise_front.simps raise_back.simps new_tail_def trim_bounds_def Let_def g_def
        of_nat_diff [symmetric])
  have z: "li_size g \<noteq> 0" "j < li_size g" "li_ok g" using e k by (simp_all add: g_def li_size_def li_ok_def)
  have "list_set (e\<lparr>li_origin := 5\<rparr>) (- (int (li_capacity e) - 5) - int k) v = Some (set_place g 0 v)"
    using e k z(1) b by (simp add: list_set_def wrapIndex_def li_size_def Let_def)
  moreover have "list_get (set_place g 0 v) (int j) Undef = value_at g j"
    using set_place_values [OF z(3) _ refl, of 0 v] z k by (simp add: list_get_def wrapIndex_def value_at_def vlook_def)
  moreover have "value_at g j = vlook e (5 - k + j)" by (simp add: value_at_def vlook_def listNodeFor_def g_def add.commute)
  ultimately show ?thesis using slice_keeps_root [OF e(2-5)] by simp
qed

section \<open>Properties\<close>

text \<open>
  C4: A list that is built from an array and changed by any sequence of set, push, pop, unshift, shift, slice, setSize and clear
  that leaves no gaps and stays within the limits of 32 bits has the size and, at every index, negative ones
  included, the values of an ordinary sequence under the same operations; every call returns.
\<close>

theorem list_refines_spec:
  assumes "spec_run vs ops = Some xs" and "run_fits vs ops"
  shows "\<exists>e. list_run vs ops = Some e \<and> li_size e = length xs
    \<and> (\<forall>i t. list_get e i t =
         (if - int (length xs) \<le> i \<and> i < int (length xs) then Val (xs ! nat (if i < 0 then int (length xs) + i else i)) else t))"
  using list_run_held [OF assms] get_holds by (fastforce simp: held_def holds_list_def)

theorem list_refines_spec_witness:
  "\<exists>e. list_run [0..<34 :: nat] [Op_push [34, 35], Op_slice (Some 3) (Some (-1)), Op_unshift [7, 8], Op_set 34 9, Op_pop, Op_shift] = Some e
     \<and> list_get e (-1) Undef = Val 34"
proof -
  let ?ops = "[Op_push [34, 35], Op_slice (Some 3) (Some (-1)), Op_unshift [7, 8], Op_set 34 9, Op_pop, Op_shift] :: nat list_op list"
  have "run_fits [0..<34] ?ops" by code_simp
  moreover have "spec_run [0..<34] ?ops = Some (8 # [3..<35])" by code_simp
  ultimately show ?thesis using list_refines_spec [of "[0..<34]" ?ops "8 # [3..<35]"] by auto
qed





text \<open>
  C40: Places that a list gains should be undefined, but values that were cut off can come back. If a list of at most 1024 values
  is cut to a size from 33 to 64 and then extended, the old values from index 64 on show again up to the tails of the
  old and the extended list, while a list that never had these values has none there. The same at the front: if the first five of more than
  32 values are cut off by slice and a place up to five in front is set, the places between have the old values.
\<close>

theorem grown_list_shows_dropped:
  assumes "32 < length xs" "length xs \<le> 1024"
  shows "\<exists>e. newList (map Val xs) = Some e
    \<and> (\<forall>m n i. 32 < m \<and> m \<le> 64 \<and> n \<le> 1024 \<and> 64 \<le> i \<and> i < tailOffset (length xs) \<and> i < tailOffset n \<longrightarrow>
         list_get (list_setSize (list_setSize e (int m)) (int n)) (int i) Undef = Val (xs ! i)
         \<and> (\<exists>e'. newList (map Val (take m xs)) = Some e' \<and> list_get (list_setSize e' (int n)) (int i) Undef = Undef))
    \<and> (\<forall>k j. 2 \<le> k \<and> k \<le> 5 \<and> 1 \<le> j \<and> j < k \<longrightarrow>
         (\<exists>r. list_set (list_slice e (Some 5) None) (- (int (length xs) - 5) - int k) (Val v) = Some r
            \<and> list_get r (int j) Undef = Val (xs ! (5 - k + j))))"
proof -
  obtain e where e: "newList (map Val xs) = Some e" "held e xs" "li_origin e = 0" "li_capacity e = length xs" "li_height e = 1"
    using newList_shape [OF assms] by blast
  have ok: "li_ok e" using e(2) by (rule held_facts)
  have v: "vlook e q = Val (xs ! q)" if "q < length xs" for q using e(2,3) that by (auto simp: held_def holds_list_def value_at_def)
  have behind: "list_get (list_setSize (list_setSize e (int m)) (int n)) (int i) Undef = Val (xs ! i)
      \<and> (\<exists>e'. newList (map Val (take m xs)) = Some e' \<and> list_get (list_setSize e' (int n)) (int i) Undef = Undef)"
    if m: "32 < m" "m \<le> 64" and n: "n \<le> 1024" and i: "64 \<le> i" "i < tailOffset (length xs)" "i < tailOffset n" for m n i
  proof -
    have lt: "i < length xs" "i < 1024" "64 < length xs" using i tailOffset_bounds [of "length xs"] assms by auto
    have "look 1 (li_root e) i = Val (xs ! i)" using v [OF lt(1)] vlook_eq [OF ok, of i] i e(4,5) by simp
    moreover have t: "length (take m xs) = m" "tailOffset m = 32" using m lt(3) tailOffset_unique [of 32 m] by auto
    obtain e' where "newList (map Val (take m xs)) = Some e'" "li_origin e' = 0" "li_capacity e' = m" "li_height e' = 1"
      "look 1 (li_root e') i = Undef"
      using newList_shape [of "take m xs"] m i(1) lt(2) unfolding t by force
    ultimately show ?thesis
      using cut_keeps_root [of e m] grown_look [of "list_setSize e (int m)" i n] grown_look [of e' i n] e m n i lt by simp
  qed
  have front: "\<exists>r. list_set (list_slice e (Some 5) None) (- (int (length xs) - 5) - int k) (Val v) = Some r
      \<and> list_get r (int j) Undef = Val (xs ! (5 - k + j))" if k: "2 \<le> k" "k \<le> 5" "1 \<le> j" "j < k" for k j
  proof -
    have "vlook e (5 - k + j) = Val (xs ! (5 - k + j))" using k assms by (intro v) simp
    then show ?thesis using front_back [OF ok e(3,5), of k j "Val v"] k assms e(4) by simp
  qed
  show ?thesis using e(1) behind front by blast
qed

theorem grown_list_shows_dropped_witness:
  "\<exists>e. newList (map Val [0..<100 :: nat]) = Some e
     \<and> list_get (list_setSize (list_setSize e 64) 100) 70 Undef = Val 70
     \<and> (\<exists>r. list_set (list_slice e (Some 5) None) (-97) (Val 7) = Some r \<and> list_get r 1 Undef = Val 4)"
proof -
  obtain e where e: "newList (map Val [0..<100 :: nat]) = Some e"
    "\<forall>m n i. 32 < m \<and> m \<le> 64 \<and> n \<le> 1024 \<and> 64 \<le> i \<and> i < tailOffset (length [0..<100 :: nat]) \<and> i < tailOffset n \<longrightarrow>
       list_get (list_setSize (list_setSize e (int m)) (int n)) (int i) Undef = Val ([0..<100] ! i)"
    "\<forall>k j. 2 \<le> k \<and> k \<le> 5 \<and> 1 \<le> j \<and> j < k \<longrightarrow>
       (\<exists>r. list_set (list_slice e (Some 5) None) (- (int (length [0..<100 :: nat]) - 5) - int k) (Val 7) = Some r
          \<and> list_get r (int j) Undef = Val ([0..<100] ! (5 - k + j)))"
    using grown_list_shows_dropped [of "[0..<100]" 7] by auto
  have "list_get (list_setSize (list_setSize e 64) 100) 70 Undef = Val 70"
    using e(2) [rule_format, of 64 100 70] by (simp add: tailOffset_def)
  moreover have "\<exists>r. list_set (list_slice e (Some 5) None) (-97) (Val 7) = Some r \<and> list_get r 1 Undef = Val 4"
    using e(3) [rule_format, of 2 1] by simp
  ultimately show ?thesis using e(1) by blast
qed

end
