(* ===== verification/Spec2Isabelle.thy ===== *)
theory Spec2Isabelle
  imports Buffer_Text Buffer_Access Docs_Theme Markdown_Text Buffer_Store Swagger_System Punycode Query_String Immutable_List_Correct
begin

text \<open>
  \<^bold>\<open>IRITA: the JavaScript of the lite node's API browser and of the documentation site\<close>

  IRITA is a consortium chain written in Go. Its JavaScript is in two places: the API browser that a
  node serves (Swagger UI, \<open>src/lite/swagger-ui/swagger-ui-bundle.js\<close>, a bundle of the application and the
  libraries it runs on) and the theme of the documentation site (\<open>src/docs/.third_party/docs-theme\<close>). In
  the bundle every request and response body goes through \<open>Buffer\<close> and its codecs, the application state is an
  immutable map in a Redux store, whose root reducer the \<open>System\<close> builds from plugins, and descriptions are
  rendered by Remarkable. The documentation theme renders code blocks, included files and diagrams.

  \<^bold>\<open>Theories\<close>, in the order they build on each other; line numbers are in the manifest.

  \<^item> \<open>JS_Prelude\<close>: strings as lists of 16 bit code units, typed arrays, exceptions as left values of a sum,
    the bitwise operators with their conversions to 32 bits, \<open>parseInt\<close> and \<open>trim\<close>; the locale
    \<open>unit_escape\<close>, the contract between an escaping and the scanner that undoes it.
  \<^item> \<open>Base64\<close> (module \<open>base64-js\<close>): lookup tables, encoder, decoder. Shown: encoder equals the bit string
    definition, round trip, exactly which strings are refused.
  \<^item> \<open>Buffer_Utf8\<close> (\<open>utf8ToBytes\<close>, \<open>utf8Slice\<close> of \<open>Buffer\<close>): encoding with a byte budget, decoding with
    replacement. Shown: the bytes are those of the arithmetic definition of UTF-8, round trip, well-formed
    output, budget, and the lone surrogate that gets lost.
  \<^item> \<open>Buffer_Text\<close> (\<open>from\<close>, \<open>write\<close>, \<open>toString\<close>, \<open>byteLength\<close>): the encodings by name and the argument
    handling of \<open>write\<close>. The locale \<open>text_codec\<close> is what \<open>Buffer\<close> relies on for one encoding; it is interpreted
    for all of them at once, and the round trips between text and bytes are its consequences.
  \<^item> \<open>String_Decoder\<close> (module \<open>string_decoder\<close> of the streams): text from a sequence of buffers that may be cut inside
    characters. The locale \<open>character_decoder\<close> is what the shared operations rely on for one encoding; it is
    interpreted for UTF-8, UTF-16 and base64, and gives that the cuts do not matter.
  \<^item> \<open>Uri_Codec\<close> (modules \<open>qs/utils\<close>, \<open>querystring-browser\<close>, \<open>strict-uri-encode\<close>, \<open>encode-utf8\<close>): percent encoding. The locale
    \<open>percent_codec\<close> is what decoders rely on for a set of plain characters; it is interpreted for the two sets
    in use. Shown: the encoders with the same set agree, the decoders undo them on texts without lone surrogates, and
    lone surrogates are paired up.
  \<^item> \<open>Query_String\<close> (modules \<open>querystring-es3\<close> and \<open>querystring-browser\<close>): objects written as query strings and two
    parsers, one that splits and one that scans. Shown by an invariant of the scanning loop: where the first accepts a
    string, both find the same object, up to two endings at which the scanner loses a field; objects are read back.
  \<^item> \<open>Buffer_Access\<close> (\<open>readUIntLE\<close> to \<open>writeInt32BE\<close>): the locale \<open>slot_access\<close> says that a write is read
    back, fails or touches its bytes only; it is interpreted for the fixed widths and for one to six bytes.
  \<^item> \<open>Buffer_Store\<close>: buffer objects as views of shared memory blocks; \<open>slice\<close>, \<open>copy\<close>, \<open>fill\<close>, \<open>alloc\<close>,
    \<open>concat\<close>, \<open>compare\<close>, byte swaps, \<open>indexOf\<close> and \<open>lastIndexOf\<close>. Shown: which bytes a slice has and that it is a window
    on the same memory, which bytes \<open>copy\<close> moves and how many it reports, within one object as a move while overlapping
    slices smear, and that \<open>fill\<close> repeats its pattern.
  \<^item> \<open>Entity_Table\<close>, \<open>Markdown_Text\<close> (\<open>Remarkable\<close>): the entity table, entity replacement, HTML escaping and
    backslash escapes.
  \<^item> \<open>Docs_Theme\<close>: the renderers of fences, included GitHub files and diagrams, and the page plugin.
  \<^item> \<open>Punycode\<close> (module \<open>punycode\<close>, used by the URL parser): code points of strings, encoder and decoder of labels,
    conversion of domain names. The encoder's outer loop may not end as far as its definition goes; it is shown
    to end for every string. Decoding undoes encoding, shown by a simulation: while the
    encoder writes the digits of its deltas, the decoder that reads them inserts the code points in order.
  \<^item> \<open>Json_Patch\<close> (modules \<open>fast-json-patch\<close> and \<open>deep-equal\<close>, with which the resolver edits API descriptions): JSON values,
    pointers, the operations of a patch, \<open>compare\<close> and \<open>deepEqual\<close>. Shown: the patch found between two documents
    turns one into the other, unless a property is named \<open>__proto__\<close>, which assignments treat differently, and
    that arrays and objects are confused. Documents are compared up to the
    order of names by mapping them to values with finite maps (\<open>norm\<close>).
  \<^item> \<open>Bit_Count\<close>, \<open>Immutable_Map\<close>, \<open>Immutable_Map_Correct\<close> (immutable.js): the hash array mapped trie with
    its five kinds of node, its update, lookup, iteration and iterator objects. The locale \<open>finite_map\<close> is the
    contract of a map; its interpretation on the trie, for an arbitrary hash function, gives the
    refinement to partial functions. The invariant covers the depth, the bitmaps, the minimal sizes and
    the collision nodes.
  \<^item> \<open>Immutable_List\<close>, \<open>Immutable_List_Correct\<close> (immutable.js): \<open>List\<close>, a trie of positions with a tail that grows and shrinks at both
    ends (\<open>setListBounds\<close>). Shown through the locale \<open>step_simulation\<close>: every sequence of operations that leaves no gaps acts like
    the operations on a sequence of values, for reading and for iterating; all operations keep the shape of a
    list and its nodes; and with gaps, values that were cut off can come back. Bounds are converted to 32 bits as in the
    code, and the levels of the trie are shift distances: what is shown holds for lists of a height of at most 5 and
    positions up to \<open>2 ^ 30\<close> (\<open>in_range\<close>), which an operation keeps under \<open>op_fits\<close>; \<open>place_shift\<close> and
    \<open>level_shift\<close> say that the shifts are divisions there.
  \<^item> \<open>Redux_Store\<close> (\<open>createStore\<close>): a step relation over the store and the stack of dispatches under way;
    listeners and reducers are arbitrary code that may call back or throw. Shown by rule induction: the
    listener arrays agree with the subscriptions, dispatching is refused exactly in reducers, and the
    calls a dispatch makes are those of the array at the moment its reducer returned, in order and without exception.
  \<^item> \<open>Swagger_System\<close> (\<open>System.rebuildReducer\<close>, \<open>combineReducers\<close> of redux-immutable): composition of the two
    components above. Shown: the state of a run is, slice by slice, the fold of the plugin's handlers.

  \<^bold>\<open>Parameters.\<close> Code that is not in the repository or is user code of a component is an argument: the
  hash function of a map, listeners, reducers and handlers, the fetched file, the diagram renderer and the base64
  encoder (of Node) of the documentation theme, the lower-casing of the runtime. Numbers are unbounded integers where the code computes below \<open>2 ^ 53\<close>, and words where
  it works bitwise.

  \<^bold>\<open>Termination.\<close> The loops of the model are total functions; where the recursion is not structural, the
  measure is the remaining input, the remaining bits of a hash or the size of an iterator's stack. The outer
  loop of the Punycode encoder is a partial function into options, which is shown to return; \<open>set\<close> of a list has the
  result \<open>None\<close> where the code calls itself forever, which is shown not to happen within the limits. No fuel is used.

  \<^bold>\<open>Not modelled.\<close> The validation mode and the observers of JSON Patch; the float and double accessors of \<open>Buffer\<close> (they call \<open>ieee754\<close> on doubles); mutation in
  place of immutable maps (\<open>withMutations\<close>), whose result is that of the persistent operations; splice and merge of
  immutable lists and the other collections of immutable.js; plugin registration, selectors and components of the \<open>System\<close>; React, the
  YAML and markdown parsers, DOMPurify, Autolinker and the request client of the bundle, and the
  second bundle \<open>swagger-ui-standalone-preset.js\<close>, which repeats libraries of the first; the Vue components of
  the documentation theme (templates and browser events); the Go sources of the chain, the
  contracts and the test data, which are not JavaScript.
\<close>

end
